(* ===== verification/Prelude.thy ===== *)
theory Prelude
  imports Main "HOL-Library.Word" "HOL-Library.List_Lexorder"
begin

section \<open>Prelude: bytes, buffers, results and sorted association lists\<close>

text \<open>
  What every component of the development shares:
  \<^item> the C++ machine model: a byte is an \<open>8 word\<close>, a \<open>std::string\<close> is a byte list, a raw
    buffer is a function from offsets to bytes, \<open>memcpy\<close> writes a byte list into a buffer
    and \<open>peek\<close> reads one back; integers are stored little endian;
  \<^item> fallible code: \<open>exc\<close> names the exceptions of the source (a failed \<open>assert\<close>
    is one of them), \<open>exc + 'a\<close> is the result of a function that reads, and an operation on
    a state is a function \<open>'s \<Rightarrow> (exc + 'a) \<times> 's\<close>, because a C++ exception leaves the
    state as it was at the throw;
  \<^item> the two collections \<open>mem_simps\<close> (reading a buffer after a write) and \<open>op_simps\<close>
    (running operations), and the lemmas on lists that the components use.
\<close>

named_theorems mem_simps
named_theorems op_simps

type_synonym byte = "8 word"
type_synonym bytes = "byte list"
type_synonym buf = "nat \<Rightarrow> byte"

subsection \<open>String literals\<close>

text \<open>The bytes of a literal; the dash in some of the messages is a UTF-8 sequence of three bytes.\<close>

definition ascii :: "string \<Rightarrow> bytes" where
  "ascii = map (\<lambda>c. of_nat (of_char c))"

definition em_dash :: bytes where "em_dash = [0xE2, 0x80, 0x94]"

lemma length_ascii [simp]: "length (ascii str) = length str"
  by (simp add: ascii_def)

lemma ascii_eq_iff [simp]: "ascii str = ascii str' \<longleftrightarrow> str = str'"
proof -
  have "inj (\<lambda>c. of_nat (of_char c) :: byte)"
  proof (rule injI)
    fix c c' assume "(of_nat (of_char c) :: byte) = of_nat (of_char c')"
    then have "unat (of_nat (of_char c) :: byte) = unat (of_nat (of_char c') :: byte)" by simp
    then have "(of_char c :: nat) mod 256 = of_char c' mod 256" by (simp add: unat_of_nat take_bit_eq_mod)
    then have "(of_char c :: nat) = of_char c'" by simp
    then show "c = c'" by simp
  qed
  then show ?thesis by (simp add: ascii_def inj_map_eq_map)
qed

subsection \<open>Raw memory\<close>

definition peek :: "buf \<Rightarrow> nat \<Rightarrow> nat \<Rightarrow> bytes" where
  "peek b off n = map (\<lambda>i. b (off + i)) [0..<n]"

definition memcpy :: "buf \<Rightarrow> nat \<Rightarrow> bytes \<Rightarrow> buf" where
  "memcpy b off bs = (\<lambda>i. if off \<le> i \<and> i < off + length bs then bs ! (i - off) else b i)"

text \<open>Little-endian integers of \<open>n\<close> bytes; a value that does not fit is truncated, as a
  \<open>static_cast\<close> to the narrower type does.\<close>

fun le :: "nat \<Rightarrow> nat \<Rightarrow> bytes" where
  "le 0 k = []"
| "le (Suc n) k = of_nat k # le n (k div 256)"

fun unle :: "bytes \<Rightarrow> nat" where
  "unle [] = 0"
| "unle (b # bs) = unat b + 256 * unle bs"

definition get16 :: "buf \<Rightarrow> nat \<Rightarrow> nat" where
  "get16 b off = unle (peek b off 2)"

definition put16 :: "buf \<Rightarrow> nat \<Rightarrow> nat \<Rightarrow> buf" where
  "put16 b off n = memcpy b off (le 2 n)"

definition get32 :: "buf \<Rightarrow> nat \<Rightarrow> 32 word" where
  "get32 b off = of_nat (unle (peek b off 4))"

definition put32 :: "buf \<Rightarrow> nat \<Rightarrow> 32 word \<Rightarrow> buf" where
  "put32 b off w = memcpy b off (le 4 (unat w))"

definition get64 :: "buf \<Rightarrow> nat \<Rightarrow> 64 word" where
  "get64 b off = of_nat (unle (peek b off 8))"

definition put64 :: "buf \<Rightarrow> nat \<Rightarrow> 64 word \<Rightarrow> buf" where
  "put64 b off w = memcpy b off (le 8 (unat w))"

text \<open>Arithmetic of \<open>uint16_t\<close> values kept as \<open>nat\<close>: results are reduced modulo
  \<open>2\<^sup>1\<^sup>6\<close> where the source casts back to \<open>uint16_t\<close>.\<close>

definition u16 :: "nat \<Rightarrow> nat" where
  "u16 n = n mod 65536"

definition u16_sub :: "nat \<Rightarrow> nat \<Rightarrow> nat" where
  "u16_sub a b = (a + (65536 - b mod 65536)) mod 65536"

text \<open>Subtraction of \<open>size_t\<close> values wraps around.\<close>

definition size_sub :: "nat \<Rightarrow> nat \<Rightarrow> nat" where
  "size_sub a b = (if b \<le> a then a - b else 2 ^ 64 - (b - a))"

lemma size_sub_id [simp]: "b \<le> a \<Longrightarrow> size_sub a b = a - b"
  by (simp add: size_sub_def)

lemma length_peek [simp]: "length (peek b off n) = n"
  by (simp add: peek_def)

lemma peek_eq_Nil [simp]: "peek b off n = [] \<longleftrightarrow> n = 0"
  by (simp add: peek_def)

lemma nth_peek [simp]: "i < n \<Longrightarrow> peek b off n ! i = b (off + i)"
  by (simp add: peek_def)

lemma length_le [simp]: "length (le n k) = n"
  by (induction n arbitrary: k) auto

lemma unle_less: "unle bs < 256 ^ length bs"
proof (induction bs)
  case (Cons b bs)
  have "unat b < 256" using unsigned_less [of b] by simp
  with Cons.IH show ?case by simp
qed simp

lemma unle_le: "unle (le n k) = k mod 256 ^ n"
proof (induction n arbitrary: k)
  case (Suc n)
  have "unat (of_nat k :: byte) = k mod 256"
    by (simp add: unat_of_nat)
  then show ?case
    using Suc.IH [of "k div 256"] by (simp add: mod_mult2_eq)
qed simp

lemma le_unle: "n = length bs \<Longrightarrow> le n (unle bs) = bs"
proof (induction bs arbitrary: n)
  case (Cons b bs)
  have "unat b < 256" using unsigned_less [of b] by simp
  then have "(unat b + 256 * unle bs) div 256 = unle bs" by simp
  moreover have "(of_nat (unat b + 256 * unle bs) :: byte) = b"
  proof -
    have "(256 :: byte) = 0" by simp
    then show ?thesis by (simp only: of_nat_add of_nat_mult of_nat_numeral) simp
  qed
  ultimately show ?case using Cons by simp
qed simp

lemma peek_memcpy_same [mem_simps]:
  "n = length bs \<Longrightarrow> peek (memcpy b off bs) off n = bs"
  by (rule nth_equalityI) (auto simp: memcpy_def)

lemma peek_memcpy_other [mem_simps]:
  "off' + n \<le> off \<or> off + length bs \<le> off' \<Longrightarrow> peek (memcpy b off bs) off' n = peek b off' n"
  by (rule nth_equalityI) (auto simp: memcpy_def)

lemma memcpy_outside: "i < off \<or> off + length bs \<le> i \<Longrightarrow> memcpy b off bs i = b i"
  by (auto simp: memcpy_def)

lemma peek_cong: "(\<And>i. off \<le> i \<Longrightarrow> i < off + n \<Longrightarrow> b i = b' i) \<Longrightarrow> peek b off n = peek b' off n"
  by (rule nth_equalityI) auto

lemma peek_append: "peek b off (m + n) = peek b off m @ peek b (off + m) n"
  by (rule nth_equalityI) (auto simp: nth_append)

lemma peek_0 [simp]: "peek b off 0 = []"
  by (simp add: peek_def)

lemma peek_Suc: "peek b off (Suc n) = b off # peek b (Suc off) n"
  unfolding peek_def by (subst upt_conv_Cons) (simp_all add: map_Suc_upt [symmetric] del: upt_Suc)

lemma peek_numeral: "peek b off (numeral k) = b off # peek b (Suc off) (pred_numeral k)"
  by (simp add: numeral_eq_Suc peek_Suc)

lemma memcpy_append: "memcpy b off (xs @ ys) = memcpy (memcpy b off xs) (off + length xs) ys"
  by (auto simp: memcpy_def nth_append fun_eq_iff)

lemma peek_memcpy_inside:
  assumes "off \<le> o'" "o' + n \<le> off + length bs"
  shows "peek (memcpy b off bs) o' n = take n (drop (o' - off) bs)"
  using assms by (intro nth_equalityI) (auto simp: memcpy_def)

lemma peek_append_eq:
  assumes "peek b off (length xs + length ys) = xs @ ys"
  shows "peek b off (length xs) = xs" and "peek b (off + length xs) (length ys) = ys"
  using assms by (auto simp: peek_append)

lemma get16_less [simp]: "get16 b off < 65536"
  using unle_less [of "peek b off 2"] by (simp add: get16_def)

lemma get16_le [simp]: "get16 b off \<le> 65535"
  using get16_less [of b off] by linarith

lemma unle_le2 [simp]: "n < 65536 \<Longrightarrow> unle (le 2 n) = n"
  by (simp add: unle_le)

lemma of_nat_unle_le4 [simp]: "(of_nat (unle (le 4 (unat w))) :: 32 word) = w"
proof -
  have "unat w < 256 ^ 4" using unsigned_less [of w, where ?'a = nat] by simp
  then show ?thesis by (simp add: unle_le)
qed

lemma of_nat_unle_le8 [simp]: "(of_nat (unle (le 8 (unat w))) :: 64 word) = w"
proof -
  have "unat w < 256 ^ 8" using unsigned_less [of w, where ?'a = nat] by simp
  then show ?thesis by (simp add: unle_le)
qed

lemma u16_id [simp]: "n < 65536 \<Longrightarrow> u16 n = n"
  by (simp add: u16_def)

lemma u16_sub_eq: "b \<le> a \<Longrightarrow> a < 65536 \<Longrightarrow> u16_sub a b = a - b"
  unfolding u16_sub_def by (auto simp: mod_if)

subsection \<open>Integer fields of a buffer\<close>

text \<open>
  A field occupies \<open>len\<close> bytes at offset \<open>off\<close>. The contract that the layers above rely on:
  a field reads back what was written to it (for values its width can hold), a write changes
  no byte outside the field, and reading depends only on the field's own bytes. The header
  fields of pages and nodes are all instances, and so is every slot of a node.
\<close>

locale field =
  fixes get :: "buf \<Rightarrow> nat \<Rightarrow> 'v"
    and put :: "buf \<Rightarrow> nat \<Rightarrow> 'v \<Rightarrow> buf"
    and len :: nat
    and ok :: "'v \<Rightarrow> bool"
  assumes get_put: "ok v \<Longrightarrow> get (put b off v) off = v"
    and put_outside: "i < off \<or> off + len \<le> i \<Longrightarrow> put b off v i = b i"
    and get_local: "(\<And>i. off \<le> i \<Longrightarrow> i < off + len \<Longrightarrow> b i = b' i) \<Longrightarrow> get b off = get b' off"
begin

lemma get_put_other:
  "off + len \<le> off' \<or> off' + len \<le> off \<Longrightarrow> get (put b off' v) off = get b off"
  by (rule get_local) (auto intro: put_outside)

lemma get_memcpy_other:
  "off + len \<le> off' \<or> off' + length bs \<le> off \<Longrightarrow> get (memcpy b off' bs) off = get b off"
  by (rule get_local) (auto simp: memcpy_def)

lemma peek_put_other:
  "off + n \<le> off' \<or> off' + len \<le> off \<Longrightarrow> peek (put b off' v) off n = peek b off n"
  by (rule peek_cong) (auto intro: put_outside)

end

interpretation f16: field get16 put16 2 "\<lambda>n. n < 65536"
  by unfold_locales (auto simp: get16_def put16_def mem_simps memcpy_outside intro!: arg_cong [where f = unle] peek_cong)

interpretation f32: field get32 put32 4 "\<lambda>w. True"
  by unfold_locales
    (auto simp: get32_def put32_def mem_simps memcpy_outside
      intro!: arg_cong [where f = "\<lambda>x. of_nat (unle x)"] peek_cong)

interpretation f64: field get64 put64 8 "\<lambda>w. True"
  by unfold_locales
    (auto simp: get64_def put64_def mem_simps memcpy_outside
      intro!: arg_cong [where f = "\<lambda>x. of_nat (unle x)"] peek_cong)

lemmas f16_simps = f16.get_put f16.get_put_other f16.get_memcpy_other f16.peek_put_other
lemmas f32_simps = f32.get_put [OF TrueI] f32.get_put_other f32.get_memcpy_other f32.peek_put_other
lemmas f64_simps = f64.get_put [OF TrueI] f64.get_put_other f64.get_memcpy_other f64.peek_put_other

lemma put32_idem: "put32 b off (get32 b off) = b"
proof -
  have "unle (peek b off 4) < 256 ^ 4" using unle_less [of "peek b off 4"] by simp
  then have "le 4 (unat (get32 b off)) = peek b off 4"
    by (simp add: get32_def unat_of_nat le_unle)
  then show ?thesis by (auto simp: put32_def memcpy_def fun_eq_iff)
qed

text \<open>A field of one width after a write to a field of another width.\<close>

lemma get32_put16 [mem_simps]:
  "off + 4 \<le> off' \<or> off' + 2 \<le> off \<Longrightarrow> get32 (put16 b off' v) off = get32 b off"
  unfolding put16_def by (rule f32.get_memcpy_other) simp

lemma get16_put32 [mem_simps]:
  "off + 2 \<le> off' \<or> off' + 4 \<le> off \<Longrightarrow> get16 (put32 b off' v) off = get16 b off"
  unfolding put32_def by (rule f16.get_memcpy_other) simp

lemma get64_put16 [mem_simps]:
  "off + 8 \<le> off' \<or> off' + 2 \<le> off \<Longrightarrow> get64 (put16 b off' v) off = get64 b off"
  unfolding put16_def by (rule f64.get_memcpy_other) simp

lemma get64_put32 [mem_simps]:
  "off + 8 \<le> off' \<or> off' + 4 \<le> off \<Longrightarrow> get64 (put32 b off' v) off = get64 b off"
  unfolding put32_def by (rule f64.get_memcpy_other) simp

lemma get32_put64 [mem_simps]:
  "off + 4 \<le> off' \<or> off' + 8 \<le> off \<Longrightarrow> get32 (put64 b off' v) off = get32 b off"
  unfolding put64_def by (rule f32.get_memcpy_other) simp

declare f16_simps [mem_simps] f32_simps [mem_simps] f64_simps [mem_simps]

subsection \<open>Signed comparison of words\<close>

text \<open>Page ids, log sequence numbers and transaction ids are signed in the source; on
  non-negative values the signed order is the order of \<open>unat\<close>.\<close>

lemma sint_nonneg:
  fixes w :: "'a::len word"
  assumes "\<not> w <s 0"
  shows "sint w = int (unat w)"
proof -
  have nonneg: "0 \<le> sint w" using assms by (simp add: word_sless_alt)
  have "sint w < 2 ^ (LENGTH('a) - 1)" by (rule sint_lt)
  also have "\<dots> \<le> (2 :: int) ^ LENGTH('a)" by (rule power_increasing) auto
  finally have "sint w mod 2 ^ LENGTH('a) = sint w" using nonneg by (simp add: mod_pos_pos_trivial)
  moreover have "uint w = sint w mod 2 ^ LENGTH('a)"
    using uint_word_of_int [of "sint w", where 'a = 'a] by simp
  ultimately show ?thesis by simp
qed

lemma sless_0_iff32: "(w :: 32 word) <s 0 \<longleftrightarrow> 2147483648 \<le> unat w"
proof (cases "w <s 0")
  case True
  have m: "uint w = sint w mod 2 ^ 32" using uint_word_of_int [of "sint w", where 'a = 32] by simp
  have "sint w < 0" "- 2147483648 \<le> sint w"
    using True sint_ge [of w] by (simp_all add: word_sless_alt)
  then have "sint w mod 4294967296 = sint w + 4294967296"
    using mod_pos_pos_trivial [of "sint w + 4294967296" 4294967296] by simp
  with m \<open>- 2147483648 \<le> sint w\<close> have "2147483648 \<le> uint w" by simp
  moreover have "uint w = int (unat w)" by simp
  ultimately have "2147483648 \<le> unat w" by linarith
  with True show ?thesis by simp
next
  case False
  have "int (unat w) < 2147483648" using sint_nonneg [OF False] sint_lt [of w] by simp
  with False show ?thesis by linarith
qed

lemma sless_unat:
  fixes a b :: "'a::len word"
  assumes "\<not> a <s 0" "\<not> b <s 0"
  shows "a <s b \<longleftrightarrow> unat a < unat b"
  unfolding word_sless_alt [of a b] using sint_nonneg [OF assms(1)] sint_nonneg [OF assms(2)]
  by linarith

lemma unat_inc64: "unat (w :: 64 word) + 1 < 2 ^ 63 \<Longrightarrow> unat (w + 1) = unat w + 1"
  by (simp add: unat_word_ariths)

lemma not_sle: "\<not> (a :: 'a::len word) \<le>s b \<longleftrightarrow> b <s a"
  by (simp add: word_sle_eq word_sless_alt not_le)

subsection \<open>Exceptions and operations\<close>

datatype exc =
    Out_of_range
  | Invalid_argument
  | System_error
  | Runtime_error
  | Deadlock_exception
  | Assertion_failure
  | Out_of_fuel

definition res_bind :: "exc + 'a \<Rightarrow> ('a \<Rightarrow> exc + 'b) \<Rightarrow> exc + 'b" where
  "res_bind r k = (case r of Inl e \<Rightarrow> Inl e | Inr x \<Rightarrow> k x)"

definition res_assert :: "bool \<Rightarrow> exc + unit" where
  "res_assert b = (if b then Inr () else Inl Assertion_failure)"

lemma res_bind_Inr [simp]: "res_bind (Inr x) k = k x"
  by (simp add: res_bind_def)

lemma res_bind_Inl [simp]: "res_bind (Inl e) k = Inl e"
  by (simp add: res_bind_def)

lemma res_bind_eq_Inr: "res_bind r k = Inr y \<longleftrightarrow> (\<exists>x. r = Inr x \<and> k x = Inr y)"
  by (auto simp: res_bind_def split: sum.splits)

lemma res_assert_True [simp]: "res_assert True = Inr ()"
  by (simp add: res_assert_def)

lemma res_assert_False [simp]: "res_assert False = Inl Assertion_failure"
  by (simp add: res_assert_def)

lemma res_bind_cong [fundef_cong]:
  "r = r' \<Longrightarrow> (\<And>x. r' = Inr x \<Longrightarrow> k x = k' x) \<Longrightarrow> res_bind r k = res_bind r' k'"
  by (auto simp: res_bind_def split: sum.splits)

type_synonym ('s, 'a) op = "'s \<Rightarrow> (exc + 'a) \<times> 's"

definition op_return :: "'a \<Rightarrow> ('s, 'a) op" where
  "op_return x = (\<lambda>s. (Inr x, s))"

definition op_throw :: "exc \<Rightarrow> ('s, 'a) op" where
  "op_throw e = (\<lambda>s. (Inl e, s))"

definition op_bind :: "('s, 'a) op \<Rightarrow> ('a \<Rightarrow> ('s, 'b) op) \<Rightarrow> ('s, 'b) op" where
  "op_bind m k = (\<lambda>s. case m s of (Inl e, s') \<Rightarrow> (Inl e, s') | (Inr x, s') \<Rightarrow> k x s')"

definition op_gets :: "('s \<Rightarrow> 'a) \<Rightarrow> ('s, 'a) op" where
  "op_gets f = (\<lambda>s. (Inr (f s), s))"

definition op_modify :: "('s \<Rightarrow> 's) \<Rightarrow> ('s, unit) op" where
  "op_modify f = (\<lambda>s. (Inr (), f s))"

definition op_assert :: "('s \<Rightarrow> bool) \<Rightarrow> ('s, unit) op" where
  "op_assert P = (\<lambda>s. if P s then (Inr (), s) else (Inl Assertion_failure, s))"

definition op_lift :: "exc + 'a \<Rightarrow> ('s, 'a) op" where
  "op_lift r = (\<lambda>s. (r, s))"

lemma op_return_run [op_simps]: "op_return x s = (Inr x, s)"
  by (simp add: op_return_def)

lemma op_throw_run [op_simps]: "op_throw e s = (Inl e, s)"
  by (simp add: op_throw_def)

lemma op_gets_run [op_simps]: "op_gets f s = (Inr (f s), s)"
  by (simp add: op_gets_def)

lemma op_modify_run [op_simps]: "op_modify f s = (Inr (), f s)"
  by (simp add: op_modify_def)

lemma op_assert_run [op_simps]:
  "op_assert P s = (if P s then (Inr (), s) else (Inl Assertion_failure, s))"
  by (simp add: op_assert_def)

lemma op_lift_run [op_simps]: "op_lift r s = (r, s)"
  by (simp add: op_lift_def)

lemma op_bind_run: "m s = (Inr x, s') \<Longrightarrow> op_bind m k s = k x s'"
  by (simp add: op_bind_def)

lemma op_bind_throws: "m s = (Inl e, s') \<Longrightarrow> op_bind m k s = (Inl e, s')"
  by (simp add: op_bind_def)

lemma op_bind_eq_Inr:
  "op_bind m k s = (Inr y, t) \<longleftrightarrow> (\<exists>x s'. m s = (Inr x, s') \<and> k x s' = (Inr y, t))"
  by (auto simp: op_bind_def split: prod.splits sum.splits)

lemma op_bind_assoc: "op_bind (op_bind m f) g = op_bind m (\<lambda>x. op_bind (f x) g)"
  by (auto simp: op_bind_def fun_eq_iff split: prod.splits sum.splits)

lemma op_bind_cong [fundef_cong]:
  "s = s' \<Longrightarrow> m s' = m' s' \<Longrightarrow> (\<And>x t. m' s' = (Inr x, t) \<Longrightarrow> k x t = k' x t) \<Longrightarrow>
   op_bind m k s = op_bind m' k' s'"
  by (auto simp: op_bind_def split: prod.splits sum.splits)

declare op_bind_run [op_simps] op_bind_throws [op_simps]

subsection \<open>Loops and parts of a state\<close>

text \<open>\<open>op_read\<close> runs a fallible read of the state; \<open>op_foreach\<close> is a range-based loop;
  \<open>res_map\<close> collects the results of a loop that only reads; \<open>op_fst\<close> and
  \<open>op_snd\<close> run an operation on one of two objects.\<close>

definition op_read :: "('s \<Rightarrow> exc + 'a) \<Rightarrow> ('s, 'a) op" where
  "op_read f = (\<lambda>s. (f s, s))"

fun op_foreach :: "('a \<Rightarrow> ('s, unit) op) \<Rightarrow> 'a list \<Rightarrow> ('s, unit) op" where
  "op_foreach f [] = op_return ()"
| "op_foreach f (x # xs) = op_bind (f x) (\<lambda>_. op_foreach f xs)"

fun res_map :: "('a \<Rightarrow> exc + 'b) \<Rightarrow> 'a list \<Rightarrow> exc + 'b list" where
  "res_map f [] = Inr []"
| "res_map f (x # xs) = res_bind (f x) (\<lambda>y. res_bind (res_map f xs) (\<lambda>ys. Inr (y # ys)))"

definition op_fst :: "('s, 'a) op \<Rightarrow> ('s \<times> 't, 'a) op" where
  "op_fst m = (\<lambda>(s, t). case m s of (r, s') \<Rightarrow> (r, (s', t)))"

definition op_snd :: "('t, 'a) op \<Rightarrow> ('s \<times> 't, 'a) op" where
  "op_snd m = (\<lambda>(s, t). case m t of (r, t') \<Rightarrow> (r, (s, t')))"

lemmas op_defs = op_bind_def op_return_def op_throw_def op_gets_def op_modify_def op_assert_def
  op_lift_def op_read_def Let_def

lemma op_read_run [op_simps]: "op_read f s = (f s, s)"
  by (simp add: op_read_def)

lemma op_fst_run [op_simps]: "op_fst m (s, t) = (fst (m s), (snd (m s), t))"
  by (simp add: op_fst_def split: prod.split)

lemma op_snd_run [op_simps]: "op_snd m (s, t) = (fst (m t), (s, snd (m t)))"
  by (simp add: op_snd_def split: prod.split)

lemma res_map_Inr: "(\<And>x. x \<in> set xs \<Longrightarrow> f x = Inr (g x)) \<Longrightarrow> res_map f xs = Inr (map g xs)"
  by (induction xs) auto

text \<open>A loop keeps track of its progress: if every step takes the invariant from one prefix of
  the list to the next, the loop ends with the invariant of the whole list.\<close>

lemma op_return_bind: "op_bind (op_return x) k = k x"
  by (simp add: op_bind_def op_return_def)

lemma op_foreach_append: "op_foreach f (xs @ ys) = op_bind (op_foreach f xs) (\<lambda>_. op_foreach f ys)"
  by (induction xs) (auto simp: op_return_bind op_bind_assoc)

text \<open>A loop that skips some of the elements.\<close>

lemma foreach_filter:
  "(\<And>x. P x \<Longrightarrow> f x = g (h x)) \<Longrightarrow> (\<And>x. \<not> P x \<Longrightarrow> f x = op_return ()) \<Longrightarrow>
   op_foreach f xs = op_foreach g (map h (filter P xs))"
  by (induction xs) (auto simp: op_return_bind)

lemma op_foreach_run:
  assumes "I [] s" "\<And>xs x ys s. us = xs @ x # ys \<Longrightarrow> I xs s \<Longrightarrow> \<exists>t. f x s = (Inr (), t) \<and> I (xs @ [x]) t"
  shows "\<exists>t. op_foreach f us s = (Inr (), t) \<and> I us t"
proof -
  have "us = pre @ post \<Longrightarrow> I pre s \<Longrightarrow> \<exists>t. op_foreach f post s = (Inr (), t) \<and> I us t" for pre post s
  proof (induction post arbitrary: pre s)
    case Nil
    then show ?case by (simp add: op_simps)
  next
    case (Cons x post)
    from assms(2) [OF Cons.prems] obtain t where t: "f x s = (Inr (), t)" "I (pre @ [x]) t" by blast
    moreover have "us = (pre @ [x]) @ post" using Cons.prems(1) by simp
    ultimately show ?case using Cons.IH by (simp add: op_simps)
  qed
  from this [of "[]" us s] assms(1) show ?thesis by simp
qed

lemma upt_split:
  assumes "[0..<n] = xs @ x # ys"
  shows "x = length xs" "x < n"
proof -
  have n: "n = length xs + Suc (length ys)" using arg_cong [OF assms, of length] by simp
  have "[0..<n] ! length xs = x" using assms by (simp del: upt_Suc)
  then show "x = length xs" "x < n" using n by (auto simp del: upt_Suc)
qed

lemma find_SomeD: "find P xs = Some x \<Longrightarrow> x \<in> set xs \<and> P x"
  by (induction xs) (auto split: if_splits)

lemma find_append_skip: "\<forall>x \<in> set xs. \<not> P x \<Longrightarrow> P y \<Longrightarrow> find P (xs @ y # ys) = Some y"
  by (induction xs) auto

end
