(* ===== verification/Page.thy ===== *)
theory Page
  imports Prelude
begin

section \<open>Pages (\<open>src/src/storage/page.h\<close>)\<close>

text \<open>
  A page is a raw buffer of \<open>PAGE_SIZE\<close> bytes with a 24-byte header at its front. The buffer
  is a function on all offsets; \<open>page_ok\<close> says that nothing was ever written beyond
  byte 4095, so that keeping \<open>page_ok\<close> is the memory safety of every operation on pages.
\<close>

type_synonym page_id = "32 word"
type_synonym lsn = "64 word"
type_synonym page = buf

definition PAGE_SIZE :: nat where "PAGE_SIZE = 4096"

definition BUFFER_POOL_SIZE :: nat where "BUFFER_POOL_SIZE = 64"

definition INVALID_PAGE_ID :: page_id where "INVALID_PAGE_ID = - 1"

datatype PageType = INVALID | DB_HEADER | BTREE_INTERNAL | BTREE_LEAF | WAL_SEGMENT

fun page_type_code :: "PageType \<Rightarrow> 32 word" where
  "page_type_code INVALID = 0"
| "page_type_code DB_HEADER = 1"
| "page_type_code BTREE_INTERNAL = 2"
| "page_type_code BTREE_LEAF = 3"
| "page_type_code WAL_SEGMENT = 4"

text \<open>The layout of \<open>PageHeader\<close>: \<open>page_id\<close> at 0, \<open>page_type\<close> at 4, two words of
  padding, \<open>page_lsn\<close> at 16.\<close>

definition HEADER_SIZE :: nat where "HEADER_SIZE = 24"

definition DATA_SIZE :: nat where "DATA_SIZE = PAGE_SIZE - HEADER_SIZE"

definition clear :: "page \<Rightarrow> page" where
  "clear p = memcpy p 0 (replicate PAGE_SIZE 0)"

definition new_Page :: page where
  "new_Page = clear (\<lambda>_. 0)"

definition page_id :: "page \<Rightarrow> page_id" where "page_id p = get32 p 0"

definition page_type :: "page \<Rightarrow> 32 word" where "page_type p = get32 p 4"

definition page_lsn :: "page \<Rightarrow> lsn" where "page_lsn p = get64 p 16"

definition set_page_id :: "page \<Rightarrow> page_id \<Rightarrow> page" where
  "set_page_id p i = put32 p 0 i"

definition set_page_type :: "page \<Rightarrow> PageType \<Rightarrow> page" where
  "set_page_type p t = put32 p 4 (page_type_code t)"

definition set_page_lsn :: "page \<Rightarrow> lsn \<Rightarrow> page" where
  "set_page_lsn p l = put64 p 16 l"

text \<open>\<open>data()\<close> is the buffer from \<open>HEADER_SIZE\<close> on: \<open>data_off\<close> turns an offset in
  the data area into an offset in the page.\<close>

definition data_off :: "nat \<Rightarrow> nat" where "data_off off = HEADER_SIZE + off"

definition page_ok :: "page \<Rightarrow> bool" where
  "page_ok p \<longleftrightarrow> (\<forall>i\<ge>PAGE_SIZE. p i = 0)"

lemma page_consts [simp]:
  "PAGE_SIZE = 4096" "BUFFER_POOL_SIZE = 64" "HEADER_SIZE = 24" "DATA_SIZE = 4072"
  by (simp_all add: PAGE_SIZE_def BUFFER_POOL_SIZE_def HEADER_SIZE_def DATA_SIZE_def)

lemma data_off_eq [simp]: "data_off off = 24 + off"
  by (simp add: data_off_def)

lemmas page_field_defs = page_id_def page_type_def page_lsn_def
  set_page_id_def set_page_type_def set_page_lsn_def

lemma clear_eq: "clear p = (\<lambda>i. if i < 4096 then 0 else p i)"
  by (auto simp: clear_def memcpy_def fun_eq_iff)

lemma new_Page_eq [simp]: "new_Page = (\<lambda>_. 0)"
  by (auto simp: new_Page_def clear_eq)

lemma clear_page_ok [simp]: "page_ok p \<Longrightarrow> clear p = (\<lambda>_. 0)"
  by (auto simp: page_ok_def clear_eq fun_eq_iff)

lemma page_ok_zero [simp]: "page_ok (\<lambda>_. 0)"
  by (simp add: page_ok_def)

lemma page_ok_memcpy [intro]: "page_ok p \<Longrightarrow> off + length bs \<le> 4096 \<Longrightarrow> page_ok (memcpy p off bs)"
  by (auto simp: page_ok_def memcpy_def)

lemma page_ok_put16 [intro]: "page_ok p \<Longrightarrow> off + 2 \<le> 4096 \<Longrightarrow> page_ok (put16 p off v)"
  unfolding put16_def by (rule page_ok_memcpy) auto

lemma page_ok_put32 [intro]: "page_ok p \<Longrightarrow> off + 4 \<le> 4096 \<Longrightarrow> page_ok (put32 p off v)"
  unfolding put32_def by (rule page_ok_memcpy) auto

lemma page_ok_put64 [intro]: "page_ok p \<Longrightarrow> off + 8 \<le> 4096 \<Longrightarrow> page_ok (put64 p off v)"
  unfolding put64_def by (rule page_ok_memcpy) auto

lemma page_ok_set [intro, simp]:
  "page_ok p \<Longrightarrow> page_ok (set_page_id p i)"
  "page_ok p \<Longrightarrow> page_ok (set_page_type p t)"
  "page_ok p \<Longrightarrow> page_ok (set_page_lsn p l)"
  by (auto simp: page_field_defs)

lemma page_ok_full_read: "page_ok q \<Longrightarrow> page_ok p \<Longrightarrow> memcpy q 0 (peek p 0 4096) = p"
  by (auto simp: page_ok_def memcpy_def fun_eq_iff)

text \<open>Each header field reads back what its setter wrote and no setter disturbs another field.\<close>

lemma page_header_simps [simp]:
  "page_id (set_page_id p i) = i"
  "page_id (set_page_type p t) = page_id p"
  "page_id (set_page_lsn p l) = page_id p"
  "page_type (set_page_id p i) = page_type p"
  "page_type (set_page_type p t) = page_type_code t"
  "page_type (set_page_lsn p l) = page_type p"
  "page_lsn (set_page_id p i) = page_lsn p"
  "page_lsn (set_page_type p t) = page_lsn p"
  "page_lsn (set_page_lsn p l) = l"
  by (simp_all add: page_field_defs mem_simps)

lemma page_header_memcpy [mem_simps]:
  "24 \<le> off \<Longrightarrow> page_id (memcpy p off bs) = page_id p"
  "24 \<le> off \<Longrightarrow> page_type (memcpy p off bs) = page_type p"
  "24 \<le> off \<Longrightarrow> page_lsn (memcpy p off bs) = page_lsn p"
  by (simp_all add: page_field_defs mem_simps)

lemma page_header_put [mem_simps]:
  "24 \<le> off \<Longrightarrow> page_id (put16 p off v) = page_id p"
  "24 \<le> off \<Longrightarrow> page_type (put16 p off v) = page_type p"
  "24 \<le> off \<Longrightarrow> page_id (put32 p off w) = page_id p"
  "24 \<le> off \<Longrightarrow> page_type (put32 p off w) = page_type p"
  by (simp_all add: put16_def put32_def mem_simps)

lemma page_type_code_inj [simp]: "page_type_code a = page_type_code b \<longleftrightarrow> a = b"
  by (cases a; cases b) auto

end
