(* ===== verification/Disk_Manager.thy ===== *)
theory Disk_Manager
  imports Page
begin

section \<open>The disk manager (\<open>src/src/storage/disk_manager.{h,cpp}\<close>)\<close>

text \<open>
  The only component that touches the database file. The file is its bytes and its size; the
  operating system's answer to each system call is taken from \<open>io_faults\<close>, the outcomes of
  the calls still to come (once the list is used up every call succeeds), so that every
  \<open>throw\<close> of the source is a branch of the model. The record is extended by the
  components that hold a reference to the same disk manager.
\<close>

datatype io_outcome = IO_ok | IO_fail | IO_short nat

record disk_manager =
  db_file :: buf
  file_size :: nat
  num_pages :: page_id
  io_faults :: "io_outcome list"

subsection \<open>System calls\<close>

definition next_io :: "('a disk_manager_scheme, io_outcome) op" where
  "next_io s = (case io_faults s of
       [] \<Rightarrow> (Inr IO_ok, s)
     | x # xs \<Rightarrow> (Inr x, s\<lparr>io_faults := xs\<rparr>))"

text \<open>\<open>pread\<close> returns the bytes that are there (fewer than asked at the end of the file),
  \<open>pwrite\<close> the number of bytes written; \<open>None\<close> is a negative return value.\<close>

definition pread :: "nat \<Rightarrow> nat \<Rightarrow> ('a disk_manager_scheme, bytes option) op" where
  "pread n off = op_bind next_io (\<lambda>r. op_gets (\<lambda>s.
     let avail = min n (file_size s - off) in
     case r of IO_fail \<Rightarrow> None
       | IO_ok \<Rightarrow> Some (peek (db_file s) off avail)
       | IO_short k \<Rightarrow> Some (peek (db_file s) off (min k avail))))"

definition file_write :: "nat \<Rightarrow> bytes \<Rightarrow> 'a disk_manager_scheme \<Rightarrow> 'a disk_manager_scheme" where
  "file_write off bs s = s\<lparr>db_file := memcpy (db_file s) off bs,
     file_size := (if bs = [] then file_size s else max (file_size s) (off + length bs))\<rparr>"

definition pwrite :: "bytes \<Rightarrow> nat \<Rightarrow> ('a disk_manager_scheme, nat option) op" where
  "pwrite bs off = op_bind next_io (\<lambda>r. case r of
       IO_fail \<Rightarrow> op_return None
     | IO_ok \<Rightarrow> op_bind (op_modify (file_write off bs)) (\<lambda>_. op_return (Some (length bs)))
     | IO_short k \<Rightarrow> op_bind (op_modify (file_write off (take k bs)))
         (\<lambda>_. op_return (Some (min k (length bs)))))"

definition fsync :: "('a disk_manager_scheme, bool) op" where
  "fsync = op_bind next_io (\<lambda>r. op_return (r \<noteq> IO_fail))"

subsection \<open>Operations\<close>

text \<open>The constructor: \<open>open\<close> and \<open>lseek(SEEK_END)\<close> on an existing or empty file.\<close>

definition DiskManager_open :: "buf \<Rightarrow> nat \<Rightarrow> io_outcome list \<Rightarrow> exc + disk_manager" where
  "DiskManager_open f sz faults =
     (let s0 = \<lparr>db_file = f, file_size = sz, num_pages = 0, io_faults = faults\<rparr>;
          m = op_bind next_io (\<lambda>r. if r = IO_fail then op_throw System_error
              else op_bind next_io (\<lambda>r'. if r' = IO_fail then op_throw System_error
              else op_modify (\<lambda>s. s\<lparr>num_pages := of_nat (file_size s div PAGE_SIZE)\<rparr>)))
      in case m s0 of (Inl e, _) \<Rightarrow> Inl e | (Inr _, s) \<Rightarrow> Inr s)"

definition page_offset :: "page_id \<Rightarrow> nat" where
  "page_offset pid = nat (sint pid) * PAGE_SIZE"

definition read_page :: "page_id \<Rightarrow> page \<Rightarrow> ('a disk_manager_scheme, page) op" where
  "read_page pid p = op_bind (op_gets num_pages) (\<lambda>np.
     if pid <s 0 \<or> np \<le>s pid then op_throw Out_of_range
     else op_bind (pread PAGE_SIZE (page_offset pid)) (\<lambda>r. case r of
         None \<Rightarrow> op_throw System_error
       | Some bs \<Rightarrow> if length bs \<noteq> PAGE_SIZE then op_throw Runtime_error
                    else op_return (memcpy p 0 bs)))"

definition write_page :: "page_id \<Rightarrow> page \<Rightarrow> ('a disk_manager_scheme, unit) op" where
  "write_page pid p =
     (if pid <s 0 then op_throw Invalid_argument
      else op_bind (pwrite (peek p 0 PAGE_SIZE) (page_offset pid)) (\<lambda>r. case r of
         None \<Rightarrow> op_throw System_error
       | Some n \<Rightarrow> if n \<noteq> PAGE_SIZE then op_throw Runtime_error else op_return ()))"

definition dm_flush :: "('a disk_manager_scheme, unit) op" where
  "dm_flush = op_bind fsync (\<lambda>ok. if \<not> ok then op_throw System_error else op_return ())"

text \<open>\<open>allocate_page\<close> checks for a failing \<open>pwrite\<close> but not for a short one. A negative
  page count would make the offset negative, which \<open>pwrite\<close> refuses.\<close>

definition allocate_page :: "('a disk_manager_scheme, page_id) op" where
  "allocate_page = op_bind (op_gets num_pages) (\<lambda>new_id.
     if new_id <s 0 then op_throw System_error
     else op_bind (pwrite (peek new_Page 0 PAGE_SIZE) (page_offset new_id)) (\<lambda>r. case r of
         None \<Rightarrow> op_throw System_error
       | Some n \<Rightarrow> op_bind (op_modify (\<lambda>s. s\<lparr>num_pages := num_pages s + 1\<rparr>))
                     (\<lambda>_. op_return new_id)))"

subsection \<open>The page view of the file\<close>

definition disk_page :: "'a disk_manager_scheme \<Rightarrow> page_id \<Rightarrow> page" where
  "disk_page s pid = (\<lambda>i. if i < PAGE_SIZE then db_file s (unat pid * PAGE_SIZE + i) else 0)"

definition valid_pid :: "'a disk_manager_scheme \<Rightarrow> page_id \<Rightarrow> bool" where
  "valid_pid s pid \<longleftrightarrow> \<not> pid <s 0 \<and> pid <s num_pages s"

text \<open>The disk is healthy: no system call is due to fail, and the manager counts exactly the whole
  pages of the file.\<close>

definition disk_ok :: "'a disk_manager_scheme \<Rightarrow> bool" where
  "disk_ok s \<longleftrightarrow> io_faults s = [] \<and> \<not> num_pages s <s 0 \<and>
     file_size s div PAGE_SIZE = unat (num_pages s)"

lemma page_ok_disk_page [simp]: "page_ok (disk_page s pid)"
  by (simp add: page_ok_def disk_page_def)

lemma page_offset_eq: "\<not> pid <s 0 \<Longrightarrow> page_offset pid = unat pid * 4096"
  by (simp add: page_offset_def sint_nonneg)

lemma valid_pid_iff:
  assumes "disk_ok s"
  shows "valid_pid s pid \<longleftrightarrow> unat pid < unat (num_pages s)"
proof (cases "pid <s 0")
  case True
  then show ?thesis using assms by (auto simp: valid_pid_def disk_ok_def sless_0_iff32)
next
  case False
  then show ?thesis using assms sless_unat [of pid "num_pages s"]
    by (auto simp: valid_pid_def disk_ok_def)
qed

lemma valid_pid_room: "disk_ok s \<Longrightarrow> valid_pid s pid \<Longrightarrow> unat pid * 4096 + 4096 \<le> file_size s"
  by (auto simp: valid_pid_iff disk_ok_def)

lemma next_io_ok [op_simps]: "io_faults s = [] \<Longrightarrow> next_io s = (Inr IO_ok, s)"
  by (simp add: next_io_def)

lemma read_page_run:
  assumes "disk_ok s" "valid_pid s pid" "page_ok p"
  shows "read_page pid p s = (Inr (disk_page s pid), s)"
proof -
  have "memcpy p 0 (peek (db_file s) (unat pid * 4096) 4096) = disk_page s pid"
    using assms(3) by (auto simp: memcpy_def disk_page_def page_ok_def fun_eq_iff)
  with assms valid_pid_room [OF assms(1,2)] show ?thesis
    by (simp add: read_page_def pread_def op_simps disk_ok_def valid_pid_def not_sle
        page_offset_eq flip: word_sless_alt)
qed

definition disk_store :: "page_id \<Rightarrow> page \<Rightarrow> 'a disk_manager_scheme \<Rightarrow> 'a disk_manager_scheme" where
  "disk_store pid p s = s\<lparr>db_file := memcpy (db_file s) (unat pid * 4096) (peek p 0 4096)\<rparr>"

lemma file_write_inside:
  "off + length bs \<le> file_size s \<Longrightarrow> file_write off bs s = s\<lparr>db_file := memcpy (db_file s) off bs\<rparr>"
  by (cases s) (auto simp: file_write_def)

lemma write_page_run:
  assumes "disk_ok s" "valid_pid s pid"
  shows "write_page pid p s = (Inr (), disk_store pid p s)"
  using assms valid_pid_room [OF assms]
  by (simp add: write_page_def pwrite_def op_simps disk_ok_def valid_pid_def page_offset_eq
      file_write_inside disk_store_def)

lemma disk_store_simps [simp]:
  "num_pages (disk_store pid p s) = num_pages s"
  "io_faults (disk_store pid p s) = io_faults s"
  "file_size (disk_store pid p s) = file_size s"
  "disk_manager.more (disk_store pid p s) = disk_manager.more s"
  by (simp_all add: disk_store_def)

lemma disk_ok_disk_store [simp]: "disk_ok (disk_store pid p s) = disk_ok s"
  by (simp add: disk_ok_def)

lemma valid_pid_disk_store [simp]: "valid_pid (disk_store pid p s) = valid_pid s"
  by (simp add: valid_pid_def fun_eq_iff)

lemma disk_page_memcpy:
  fixes b :: buf and pid qid :: page_id
  assumes "i < 4096" "length bs = 4096"
  shows "memcpy b (unat pid * 4096) bs (unat qid * 4096 + i) =
    (if qid = pid then bs ! i else b (unat qid * 4096 + i))"
proof (cases "qid = pid")
  case False
  then have "unat qid \<noteq> unat pid" by (simp add: word_unat_eq_iff)
  then have "unat qid < unat pid \<or> unat pid < unat qid" by linarith
  then have "unat qid * 4096 + i < unat pid * 4096 \<or> unat pid * 4096 + 4096 \<le> unat qid * 4096 + i"
    using assms(1) by (elim disjE) linarith+
  with False assms(2) show ?thesis by (simp add: memcpy_outside)
qed (use assms in \<open>simp add: memcpy_def\<close>)

lemma disk_page_disk_store [simp]:
  "page_ok p \<Longrightarrow> disk_page (disk_store pid p s) = (disk_page s)(pid := p)"
  by (auto simp: disk_page_def disk_store_def disk_page_memcpy page_ok_def fun_eq_iff)

subsection \<open>The page device\<close>

text \<open>
  The contract that the free list and the buffer pool rely on: in a healthy state a read
  returns the stored page and changes nothing, and a write replaces exactly one page.
\<close>

locale page_device =
  fixes rd :: "page_id \<Rightarrow> page \<Rightarrow> ('s, page) op"
    and wr :: "page_id \<Rightarrow> page \<Rightarrow> ('s, unit) op"
    and store :: "page_id \<Rightarrow> page \<Rightarrow> 's \<Rightarrow> 's"
    and content :: "'s \<Rightarrow> page_id \<Rightarrow> page"
    and ok :: "'s \<Rightarrow> bool"
    and valid :: "'s \<Rightarrow> page_id \<Rightarrow> bool"
  assumes read_run: "ok s \<Longrightarrow> valid s pid \<Longrightarrow> page_ok p \<Longrightarrow> rd pid p s = (Inr (content s pid), s)"
    and write_run: "ok s \<Longrightarrow> valid s pid \<Longrightarrow> wr pid p s = (Inr (), store pid p s)"
    and store_ok: "ok s \<Longrightarrow> ok (store pid p s)"
    and store_valid: "valid (store pid p s) = valid s"
    and content_store: "page_ok p \<Longrightarrow> content (store pid p s) = (content s)(pid := p)"
    and content_page_ok: "page_ok (content s pid)"
begin

lemma read_after_write:
  assumes "ok s" "valid s pid" "valid s qid" "page_ok p" "page_ok q"
  shows "op_bind (wr pid p) (\<lambda>_. rd qid q) s =
    (Inr (if qid = pid then p else content s qid), store pid p s)"
  using assms by (simp add: write_run op_bind_run read_run store_ok store_valid content_store)

text \<open>Read-modify-write of one page, the pattern of the free list's updates of page 0.\<close>

lemma read_modify_write:
  assumes "ok s" "valid s pid" "page_ok q" "page_ok (f (content s pid))"
  shows "op_bind (rd pid q) (\<lambda>p. wr pid (f p)) s = (Inr (), store pid (f (content s pid)) s)"
    and "content (store pid (f (content s pid)) s) = (content s)(pid := f (content s pid))"
  using assms by (simp_all add: read_run write_run op_bind_run content_store)

end

interpretation dm: page_device read_page write_page disk_store disk_page disk_ok valid_pid
  by unfold_locales (simp_all add: read_page_run write_page_run)

subsection \<open>Properties\<close>

lemma valid_pid_new:
  assumes "disk_ok s" "unat (num_pages s) < 2147483647"
  shows "\<not> num_pages s + 1 <s 0" "unat (num_pages s + 1) = Suc (unat (num_pages s))"
  using assms(2) by (simp_all add: sless_0_iff32 unat_word_ariths)

definition allocated :: "'a disk_manager_scheme \<Rightarrow> 'a disk_manager_scheme" where
  "allocated s = file_write (unat (num_pages s) * 4096) (peek (\<lambda>_. 0) 0 4096) s
     \<lparr>num_pages := num_pages s + 1\<rparr>"

lemma allocate_page_run: "disk_ok s \<Longrightarrow> allocate_page s = (Inr (num_pages s), allocated s)"
  by (simp add: allocate_page_def pwrite_def op_simps page_offset_eq file_write_def disk_ok_def
      allocated_def)

lemma allocated_props:
  assumes ok: "disk_ok s" and room: "unat (num_pages s) < 2147483647"
  shows "disk_ok (allocated s)" "num_pages (allocated s) = num_pages s + 1"
    "disk_page (allocated s) = (disk_page s)(num_pages s := (\<lambda>_. 0))"
    "valid_pid (allocated s) pid \<longleftrightarrow> valid_pid s pid \<or> pid = num_pages s"
proof -
  let ?n = "num_pages s"
  note new = valid_pid_new [OF ok room]
  have sz: "file_size s div 4096 = unat ?n" and io: "io_faults s = []"
    using ok by (simp_all add: disk_ok_def)
  show num: "num_pages (allocated s) = ?n + 1" by (simp add: allocated_def)
  show ok': "disk_ok (allocated s)"
    using io new sz by (auto simp: disk_ok_def file_write_def max_def allocated_def)
  show "disk_page (allocated s) = (disk_page s)(?n := (\<lambda>_. 0))"
    by (auto simp: disk_page_def file_write_def disk_page_memcpy fun_eq_iff allocated_def)
  show "valid_pid (allocated s) pid \<longleftrightarrow> valid_pid s pid \<or> pid = ?n"
    unfolding valid_pid_iff [OF ok'] valid_pid_iff [OF ok] num using new
    by (simp add: less_Suc_eq word_unat_eq_iff)
qed

end
