(* ===== verification/Free_List.thy ===== *)
theory Free_List
  imports Disk_Manager
begin

section \<open>The free list (\<open>src/src/storage/free_list.{h,cpp}\<close>)\<close>

text \<open>
  The registry of freed page ids and the root page id, both kept on page 0 of the database
  file. The free list talks to the disk manager directly; its record extends the disk
  manager's, which is the reference \<open>dm_\<close> of the source.
\<close>

record free_list = disk_manager +
  free_pages :: "page_id list"

definition MAX_FREE_PAGES :: nat where
  "MAX_FREE_PAGES = (DATA_SIZE - 4 - 4) div 4"

definition ROOT_ID_OFFSET :: nat where
  "ROOT_ID_OFFSET = DATA_SIZE - 4"

definition FreeList_new :: "disk_manager \<Rightarrow> free_list" where
  "FreeList_new dm = disk_manager.extend dm (free_list.fields [])"

subsection \<open>The layout of page 0\<close>

text \<open>The decoded view of page 0: the entry count, the entries and the root slot.\<close>

definition page0_count :: "page \<Rightarrow> nat" where
  "page0_count p = unat (get32 p (data_off 0))"

definition page0_entries :: "page \<Rightarrow> nat \<Rightarrow> page_id list" where
  "page0_entries p n = map (\<lambda>i. get32 p (data_off (4 + 4 * i))) [0..<n]"

definition page0_root :: "page \<Rightarrow> page_id" where
  "page0_root p = get32 p (data_off ROOT_ID_OFFSET)"

text \<open>The bytes of an array of page ids.\<close>

definition id_bytes :: "page_id list \<Rightarrow> bytes" where
  "id_bytes ids = concat (map (\<lambda>i. le 4 (unat i)) ids)"

subsection \<open>Operations\<close>

definition fresh_page0 :: page where
  "fresh_page0 =
     (let p = set_page_type (set_page_id new_Page 0) DB_HEADER;
          p = put32 p (data_off 0) 0
      in put32 p (data_off ROOT_ID_OFFSET) INVALID_PAGE_ID)"

definition fl_load :: "('a free_list_scheme, unit) op" where
  "fl_load = op_bind (op_gets num_pages) (\<lambda>np.
     if np = 0 then
       op_bind allocate_page (\<lambda>p0.
       op_bind (op_assert (\<lambda>_. p0 = 0)) (\<lambda>_.
       op_bind (write_page 0 fresh_page0) (\<lambda>_.
       dm_flush)))
     else
       op_bind (read_page 0 new_Page) (\<lambda>p.
       let count = page0_count p in
       if MAX_FREE_PAGES < count then op_throw Runtime_error
       else op_modify (\<lambda>s. s\<lparr>free_pages := page0_entries p count\<rparr>)))"

definition put_free_pages :: "page_id list \<Rightarrow> page \<Rightarrow> page" where
  "put_free_pages ids p =
     (let p = put32 p (data_off 0) (of_nat (length ids))
      in if length ids > 0 then memcpy p (data_off 4) (id_bytes ids) else p)"

definition fl_save :: "('a free_list_scheme, unit) op" where
  "fl_save =
     op_bind (op_assert (\<lambda>s. 0 <s num_pages s)) (\<lambda>_.
     op_bind (read_page 0 new_Page) (\<lambda>p.
     op_bind (op_gets free_pages) (\<lambda>ids.
     op_bind (op_assert (\<lambda>_. length ids \<le> MAX_FREE_PAGES)) (\<lambda>_.
     op_bind (write_page 0 (put_free_pages ids p)) (\<lambda>_.
     dm_flush)))))"

definition fl_allocate :: "('a free_list_scheme, page_id) op" where
  "fl_allocate = op_bind (op_gets free_pages) (\<lambda>ids.
     if ids = [] then op_return INVALID_PAGE_ID
     else op_bind (op_modify (\<lambda>s. s\<lparr>free_pages := butlast ids\<rparr>)) (\<lambda>_.
          op_bind fl_save (\<lambda>_. op_return (last ids))))"

definition fl_free :: "page_id \<Rightarrow> ('a free_list_scheme, unit) op" where
  "fl_free pid =
     op_bind (op_assert (\<lambda>s. length (free_pages s) < MAX_FREE_PAGES)) (\<lambda>_.
     op_bind (op_modify (\<lambda>s. s\<lparr>free_pages := free_pages s @ [pid]\<rparr>)) (\<lambda>_.
     fl_save))"

definition root_page_id :: "('a free_list_scheme, page_id) op" where
  "root_page_id =
     op_bind (op_assert (\<lambda>s. 0 <s num_pages s)) (\<lambda>_.
     op_bind (read_page 0 new_Page) (\<lambda>p.
     op_return (page0_root p)))"

definition set_root_page_id :: "page_id \<Rightarrow> ('a free_list_scheme, unit) op" where
  "set_root_page_id pid =
     op_bind (op_assert (\<lambda>s. 0 <s num_pages s)) (\<lambda>_.
     op_bind (read_page 0 new_Page) (\<lambda>p.
     op_bind (write_page 0 (put32 p (data_off ROOT_ID_OFFSET) pid)) (\<lambda>_.
     dm_flush)))"

subsection \<open>Lemmas\<close>

lemma fl_consts [simp]: "MAX_FREE_PAGES = 1016" "ROOT_ID_OFFSET = 4068"
  by (simp_all add: MAX_FREE_PAGES_def ROOT_ID_OFFSET_def)

lemma length_id_bytes [simp]: "length (id_bytes ids) = 4 * length ids"
  by (induction ids) (auto simp: id_bytes_def)

lemma id_bytes_nth: "i < length ids \<Longrightarrow> take 4 (drop (4 * i) (id_bytes ids)) = le 4 (unat (ids ! i))"
proof (induction ids arbitrary: i)
  case (Cons x xs)
  then show ?case by (cases i) (auto simp: id_bytes_def)
qed simp

lemma page0_entries_written:
  assumes "length ids \<le> 1016"
  shows "page0_entries (memcpy p 28 (id_bytes ids)) (length ids) = ids"
proof (rule nth_equalityI)
  fix i assume "i < length (page0_entries (memcpy p 28 (id_bytes ids)) (length ids))"
  then have i: "i < length ids" by (simp add: page0_entries_def)
  then have "peek (memcpy p 28 (id_bytes ids)) (28 + 4 * i) 4 = le 4 (unat (ids ! i))"
    by (subst peek_memcpy_inside) (auto simp: id_bytes_nth)
  with i show "page0_entries (memcpy p 28 (id_bytes ids)) (length ids) ! i = ids ! i"
    by (simp add: page0_entries_def get32_def)
qed (simp add: page0_entries_def)

lemma put_free_pages_decoded:
  assumes "length ids \<le> 1016"
  shows "page0_count (put_free_pages ids p) = length ids"
    and "page0_entries (put_free_pages ids p) (length ids) = ids"
    and "page0_root (put_free_pages ids p) = page0_root p"
    and "page_ok p \<Longrightarrow> page_ok (put_free_pages ids p)"
    and "page_id (put_free_pages ids p) = page_id p"
proof -
  show "page0_count (put_free_pages ids p) = length ids"
    using assms by (auto simp: page0_count_def put_free_pages_def Let_def mem_simps unat_of_nat)
  show "page0_entries (put_free_pages ids p) (length ids) = ids"
    using page0_entries_written [OF assms] by (auto simp: put_free_pages_def Let_def page0_entries_def)
  show "page0_root (put_free_pages ids p) = page0_root p"
    using assms by (auto simp: page0_root_def put_free_pages_def Let_def mem_simps)
  show "page_ok p \<Longrightarrow> page_ok (put_free_pages ids p)"
    using assms by (auto simp: put_free_pages_def Let_def intro!: page_ok_memcpy page_ok_put32)
  show "page_id (put_free_pages ids p) = page_id p"
    by (auto simp: put_free_pages_def Let_def mem_simps)
qed

lemma put_root_decoded:
  shows "page0_root (put32 p 4092 r) = r"
    and "page0_count (put32 p 4092 r) = page0_count p"
    and "n \<le> 1016 \<Longrightarrow> page0_entries (put32 p 4092 r) n = page0_entries p n"
  by (auto simp: page0_root_def page0_count_def page0_entries_def mem_simps)

lemma fresh_page0_decoded:
  "page_ok fresh_page0" "page0_count fresh_page0 = 0" "page0_root fresh_page0 = INVALID_PAGE_ID"
  "page_id fresh_page0 = 0" "page_type fresh_page0 = page_type_code DB_HEADER"
  by (auto simp: fresh_page0_def Let_def page0_count_def page0_root_def mem_simps
      intro!: page_ok_put32)

text \<open>The free list's state agrees with page 0: page 0 exists, the list fits, and what is on
  disk is what is in memory.\<close>

definition fl_ready :: "'a free_list_scheme \<Rightarrow> bool" where
  "fl_ready s \<longleftrightarrow> disk_ok s \<and> valid_pid s 0 \<and> length (free_pages s) \<le> MAX_FREE_PAGES"

definition fl_persisted :: "'a free_list_scheme \<Rightarrow> bool" where
  "fl_persisted s \<longleftrightarrow> page0_count (disk_page s 0) = length (free_pages s) \<and>
     page0_entries (disk_page s 0) (length (free_pages s)) = free_pages s"

lemma dm_flush_run [op_simps]: "io_faults s = [] \<Longrightarrow> dm_flush s = (Inr (), s)"
  by (simp add: dm_flush_def fsync_def op_simps)

lemma fl_readyD:
  assumes "fl_ready s"
  shows "disk_ok s" "valid_pid s 0" "length (free_pages s) \<le> 1016" "0 <s num_pages s"
    "io_faults s = []"
  using assms by (auto simp: fl_ready_def valid_pid_def disk_ok_def)

definition saved :: "'a free_list_scheme \<Rightarrow> 'a free_list_scheme" where
  "saved s = disk_store 0 (put_free_pages (free_pages s) (disk_page s 0)) s"

lemma fl_save_run: "fl_ready s \<Longrightarrow> fl_save s = (Inr (), saved s)"
  by (frule fl_readyD(1), frule fl_readyD(2), frule fl_readyD(3), frule fl_readyD(4),
      frule fl_readyD(5))
    (simp add: fl_save_def op_simps dm.read_run dm.write_run saved_def)

lemma free_pages_disk_store [simp]: "free_pages (disk_store pid p s) = free_pages s"
  by (simp add: disk_store_def)

lemma saved_props:
  assumes "fl_ready s"
  shows "fl_ready (saved s)" "fl_persisted (saved s)" "free_pages (saved s) = free_pages s"
    "page0_root (disk_page (saved s) 0) = page0_root (disk_page s 0)"
    "pid \<noteq> 0 \<Longrightarrow> disk_page (saved s) pid = disk_page s pid"
  using fl_readyD [OF assms]
  by (simp_all add: saved_def fl_ready_def fl_persisted_def put_free_pages_decoded)

end
