(* ===== verification/Buffer_Pool.thy ===== *)
theory Buffer_Pool
  imports Free_List "HOL-Library.AList"
begin

section \<open>The buffer pool (\<open>src/src/storage/buffer_pool.{h,cpp}\<close>)\<close>

text \<open>
  A cache of \<open>BUFFER_POOL_SIZE\<close> page frames with least-recently-used eviction. A
  \<open>Page*\<close> handed out by the pool is the index of its frame. \<open>page_table_\<close> is an
  association list (each page id once); \<open>lru_list_\<close> is a list with the most recently used
  frame first, and \<open>lru_map_\<close>, which maps a frame to its position in that list, is the list
  itself, because the two are always changed together. A frame index
  \<open>INVALID_PAGE_ID\<close> and a null \<open>Page*\<close> are \<open>None\<close>.
\<close>

record frame =
  fr_page :: page
  pin_count :: nat
  is_dirty :: bool
  in_use :: bool

record buffer_pool = free_list +
  frames :: "frame list"
  page_table :: "(page_id \<times> nat) list"
  free_frames :: "nat list"
  lru_list :: "nat list"

definition empty_frame :: frame where
  "empty_frame = \<lparr>fr_page = new_Page, pin_count = 0, is_dirty = False, in_use = False\<rparr>"

definition BufferPool_new :: "free_list \<Rightarrow> buffer_pool" where
  "BufferPool_new fl = free_list.extend fl
     (buffer_pool.fields (replicate BUFFER_POOL_SIZE empty_frame) [] [0..<BUFFER_POOL_SIZE] [])"

definition upd_frame :: "nat \<Rightarrow> (frame \<Rightarrow> frame) \<Rightarrow> 'a buffer_pool_scheme \<Rightarrow> 'a buffer_pool_scheme" where
  "upd_frame fid g s = s\<lparr>frames := (frames s)[fid := g (frames s ! fid)]\<rparr>"

subsection \<open>Internal helpers\<close>

definition touch :: "nat \<Rightarrow> 'a buffer_pool_scheme \<Rightarrow> 'a buffer_pool_scheme" where
  "touch fid s = s\<lparr>lru_list := fid # remove1 fid (lru_list s)\<rparr>"

definition evict_frame :: "nat \<Rightarrow> ('a buffer_pool_scheme, unit) op" where
  "evict_frame fid =
     op_bind (op_gets (\<lambda>s. frames s ! fid)) (\<lambda>f.
     op_bind (op_assert (\<lambda>_. in_use f)) (\<lambda>_.
     op_bind (op_assert (\<lambda>_. pin_count f = 0)) (\<lambda>_.
     op_bind (if is_dirty f
              then op_bind (write_page (page_id (fr_page f)) (fr_page f)) (\<lambda>_.
                   op_modify (upd_frame fid (\<lambda>f. f\<lparr>is_dirty := False\<rparr>)))
              else op_return ()) (\<lambda>_.
     op_bind (op_modify (\<lambda>s. s\<lparr>page_table := AList.delete (page_id (fr_page f)) (page_table s)\<rparr>)) (\<lambda>_.
     op_bind (op_modify (\<lambda>s. s\<lparr>lru_list := remove1 fid (lru_list s)\<rparr>)) (\<lambda>_.
     op_modify (upd_frame fid (\<lambda>f. f\<lparr>fr_page := clear (fr_page f), pin_count := 0,
       is_dirty := False, in_use := False\<rparr>))))))))"

definition find_free_frame :: "('a buffer_pool_scheme, nat option) op" where
  "find_free_frame = op_bind (op_gets free_frames) (\<lambda>ff.
     if ff \<noteq> [] then
       op_bind (op_modify (\<lambda>s. s\<lparr>free_frames := butlast ff\<rparr>)) (\<lambda>_. op_return (Some (last ff)))
     else
       op_bind (op_gets (\<lambda>s. find (\<lambda>fid. pin_count (frames s ! fid) = 0) (rev (lru_list s)))) (\<lambda>victim.
       case victim of
         None \<Rightarrow> op_return None
       | Some fid \<Rightarrow> op_bind (evict_frame fid) (\<lambda>_. op_return (Some fid))))"

subsection \<open>Public interface\<close>

text \<open>If \<open>read_page\<close> throws on a miss, the frame taken by \<open>find_free_frame\<close> is in neither
  list any more; its bytes can no longer be reached.\<close>

definition fetch_page :: "page_id \<Rightarrow> ('a buffer_pool_scheme, nat option) op" where
  "fetch_page pid = op_bind (op_gets (\<lambda>s. map_of (page_table s) pid)) (\<lambda>it.
     case it of
       Some fid \<Rightarrow>
         op_bind (op_modify (upd_frame fid (\<lambda>f. f\<lparr>pin_count := pin_count f + 1\<rparr>))) (\<lambda>_.
         op_bind (op_modify (touch fid)) (\<lambda>_. op_return (Some fid)))
     | None \<Rightarrow>
         op_bind find_free_frame (\<lambda>r. case r of
           None \<Rightarrow> op_return None
         | Some fid \<Rightarrow>
             op_bind (op_gets (\<lambda>s. fr_page (frames s ! fid))) (\<lambda>p0.
             op_bind (read_page pid p0) (\<lambda>p.
             op_bind (op_modify (upd_frame fid (\<lambda>f. f\<lparr>fr_page := p, in_use := True, pin_count := 1,
               is_dirty := False\<rparr>))) (\<lambda>_.
             op_bind (op_modify (\<lambda>s. s\<lparr>page_table := AList.update pid fid (page_table s)\<rparr>)) (\<lambda>_.
             op_bind (op_modify (touch fid)) (\<lambda>_. op_return (Some fid))))))))"

definition unpin_page :: "page_id \<Rightarrow> bool \<Rightarrow> ('a buffer_pool_scheme, unit) op" where
  "unpin_page pid dirty = op_bind (op_gets (\<lambda>s. map_of (page_table s) pid)) (\<lambda>it.
     case it of
       None \<Rightarrow> op_return ()
     | Some fid \<Rightarrow> op_modify (upd_frame fid (\<lambda>f.
         (if dirty then \<lambda>f. f\<lparr>is_dirty := True\<rparr> else id)
         (if pin_count f > 0 then f\<lparr>pin_count := pin_count f - 1\<rparr> else f))))"

definition flush_frame :: "page_id \<Rightarrow> nat \<Rightarrow> ('a buffer_pool_scheme, unit) op" where
  "flush_frame pid fid = op_bind (op_gets (\<lambda>s. frames s ! fid)) (\<lambda>f.
     if is_dirty f
     then op_bind (write_page pid (fr_page f)) (\<lambda>_.
          op_modify (upd_frame fid (\<lambda>f. f\<lparr>is_dirty := False\<rparr>)))
     else op_return ())"

definition flush_page :: "page_id \<Rightarrow> ('a buffer_pool_scheme, bool) op" where
  "flush_page pid = op_bind (op_gets (\<lambda>s. map_of (page_table s) pid)) (\<lambda>it.
     case it of
       None \<Rightarrow> op_return False
     | Some fid \<Rightarrow> op_bind (flush_frame pid fid) (\<lambda>_. op_return True))"

fun flush_entries :: "(page_id \<times> nat) list \<Rightarrow> ('a buffer_pool_scheme, unit) op" where
  "flush_entries [] = op_return ()"
| "flush_entries ((pid, fid) # rest) = op_bind (flush_frame pid fid) (\<lambda>_. flush_entries rest)"

definition flush_all :: "('a buffer_pool_scheme, unit) op" where
  "flush_all = op_bind (op_gets page_table) flush_entries"

text \<open>The destructor flushes.\<close>

definition BufferPool_destroy :: "('a buffer_pool_scheme, unit) op" where
  "BufferPool_destroy = flush_all"

definition new_page :: "('a buffer_pool_scheme, page_id \<times> nat) op" where
  "new_page =
     op_bind fl_allocate (\<lambda>pid0.
     op_bind (if pid0 = INVALID_PAGE_ID then allocate_page else op_return pid0) (\<lambda>pid.
     op_bind find_free_frame (\<lambda>r. case r of
       None \<Rightarrow> op_throw Assertion_failure
     | Some fid \<Rightarrow>
         op_bind (op_modify (upd_frame fid (\<lambda>f. f\<lparr>fr_page := set_page_id (clear (fr_page f)) pid,
           in_use := True, pin_count := 1, is_dirty := True\<rparr>))) (\<lambda>_.
         op_bind (op_modify (\<lambda>s. s\<lparr>page_table := AList.update pid fid (page_table s)\<rparr>)) (\<lambda>_.
         op_bind (op_modify (touch fid)) (\<lambda>_. op_return (pid, fid)))))))"

definition delete_page :: "page_id \<Rightarrow> ('a buffer_pool_scheme, unit) op" where
  "delete_page pid = op_bind (op_gets (\<lambda>s. map_of (page_table s) pid)) (\<lambda>it.
     op_bind (case it of
         None \<Rightarrow> op_return ()
       | Some fid \<Rightarrow>
           op_bind (op_assert (\<lambda>s. pin_count (frames s ! fid) = 0)) (\<lambda>_.
           op_bind (op_modify (upd_frame fid (\<lambda>f. f\<lparr>is_dirty := False\<rparr>))) (\<lambda>_.
           evict_frame fid)))
     (\<lambda>_. fl_free pid))"

text \<open>A client changes a page through the pointer it holds.\<close>

definition write_frame :: "nat \<Rightarrow> page \<Rightarrow> 'a buffer_pool_scheme \<Rightarrow> 'a buffer_pool_scheme" where
  "write_frame fid p = upd_frame fid (\<lambda>f. f\<lparr>fr_page := p\<rparr>)"

subsection \<open>The logical view and the invariant\<close>

text \<open>What a page contains, wherever it currently is.\<close>

abbreviation frame_of :: "'a buffer_pool_scheme \<Rightarrow> page_id \<Rightarrow> nat option" where
  "frame_of s \<equiv> map_of (page_table s)"

definition view :: "'a buffer_pool_scheme \<Rightarrow> page_id \<Rightarrow> page" where
  "view s pid = (case frame_of s pid of
     Some fid \<Rightarrow> fr_page (frames s ! fid) | None \<Rightarrow> disk_page s pid)"

definition pins :: "'a buffer_pool_scheme \<Rightarrow> page_id \<Rightarrow> nat" where
  "pins s pid = (case frame_of s pid of
     Some fid \<Rightarrow> pin_count (frames s ! fid) | None \<Rightarrow> 0)"

text \<open>A page a client may use: allocated, not page 0, not on the free list.\<close>

definition live :: "'a buffer_pool_scheme \<Rightarrow> page_id \<Rightarrow> bool" where
  "live s pid \<longleftrightarrow> valid_pid s pid \<and> pid \<noteq> 0 \<and> pid \<notin> set (free_pages s)"

definition table_ok :: "'a buffer_pool_scheme \<Rightarrow> bool" where
  "table_ok s \<longleftrightarrow> length (frames s) = BUFFER_POOL_SIZE \<and>
     distinct (map fst (page_table s)) \<and> distinct (map snd (page_table s)) \<and>
     set (map snd (page_table s)) \<subseteq> {..<BUFFER_POOL_SIZE} \<and>
     distinct (lru_list s) \<and> set (lru_list s) = set (map snd (page_table s)) \<and>
     distinct (free_frames s) \<and> set (free_frames s) \<subseteq> {..<BUFFER_POOL_SIZE} \<and>
     set (free_frames s) \<inter> set (map snd (page_table s)) = {} \<and>
     (\<forall>fid<BUFFER_POOL_SIZE. in_use (frames s ! fid) \<longleftrightarrow> fid \<in> set (map snd (page_table s)))"

definition content_ok :: "page_id set \<Rightarrow> 'a buffer_pool_scheme \<Rightarrow> bool" where
  "content_ok X s \<longleftrightarrow>
     (\<forall>fid<BUFFER_POOL_SIZE. page_ok (fr_page (frames s ! fid))) \<and>
     (\<forall>pid fid. frame_of s pid = Some fid \<longrightarrow> live s pid \<and> pid \<notin> X \<and>
        (pin_count (frames s ! fid) = 0 \<longrightarrow> \<not> is_dirty (frames s ! fid) \<longrightarrow>
           fr_page (frames s ! fid) = disk_page s pid)) \<and>
     (\<forall>pid. live s pid \<longrightarrow> pid \<notin> X \<longrightarrow> page_id (view s pid) = pid)"

text \<open>Inside \<open>new_page\<close> a page id is taken from the free list before its frame is
  initialised: \<open>X\<close> holds the ids for which the page itself is not yet in order.\<close>

definition free_ok :: "'a buffer_pool_scheme \<Rightarrow> bool" where
  "free_ok s \<longleftrightarrow> fl_ready s \<and> distinct (free_pages s) \<and>
     (\<forall>pid \<in> set (free_pages s). valid_pid s pid \<and> pid \<noteq> 0)"

definition pool_but :: "page_id set \<Rightarrow> 'a buffer_pool_scheme \<Rightarrow> bool" where
  "pool_but X s \<longleftrightarrow> table_ok s \<and> content_ok X s \<and> free_ok s"

abbreviation pool_inv :: "'a buffer_pool_scheme \<Rightarrow> bool" where
  "pool_inv \<equiv> pool_but {}"

text \<open>A page whose frame may be released: either marked dirty, or equal to the page on disk.\<close>

definition settled :: "'a buffer_pool_scheme \<Rightarrow> page_id \<Rightarrow> bool" where
  "settled s pid \<longleftrightarrow> (\<forall>fid. frame_of s pid = Some fid \<longrightarrow>
     is_dirty (frames s ! fid) \<or> fr_page (frames s ! fid) = disk_page s pid)"

text \<open>Page 0 on disk: the free list is the one in memory and the root slot holds a page id.\<close>

definition header_ok :: "page_id \<Rightarrow> 'a free_list_scheme \<Rightarrow> bool" where
  "header_ok r s \<longleftrightarrow> fl_persisted s \<and> page0_root (disk_page s 0) = r"

lemma header_ok_cong: "disk_page t 0 = disk_page s 0 \<Longrightarrow> free_pages t = free_pages s \<Longrightarrow> header_ok r t \<longleftrightarrow> header_ok r s"
  by (simp add: header_ok_def fl_persisted_def)

text \<open>What a pool operation may not change behind its client's back: the content of every page,
  every pin, the place of every pinned page, the free list, the page count and page 0.\<close>

definition keeps :: "'a buffer_pool_scheme \<Rightarrow> 'a buffer_pool_scheme \<Rightarrow> bool" where
  "keeps s s' \<longleftrightarrow> view s' = view s \<and> pins s' = pins s \<and>
     free_pages s' = free_pages s \<and> num_pages s' = num_pages s \<and> disk_page s' 0 = disk_page s 0 \<and>
     (\<forall>pid fid. pins s pid > 0 \<longrightarrow> frame_of s pid = Some fid \<longrightarrow>
        frame_of s' pid = Some fid) \<and>
     (\<forall>pid. settled s pid \<longrightarrow> settled s' pid) \<and>
     buffer_pool.more s' = buffer_pool.more s"

subsection \<open>Frame updates\<close>

lemma pool_updates_disk [simp]:
  "disk_page (s\<lparr>frames := a\<rparr>) = disk_page s" "disk_page (s\<lparr>page_table := b\<rparr>) = disk_page s"
  "disk_page (s\<lparr>free_frames := c\<rparr>) = disk_page s" "disk_page (s\<lparr>lru_list := c\<rparr>) = disk_page s"
  "disk_page (t\<lparr>free_pages := d\<rparr>) = disk_page t"
  "valid_pid (s\<lparr>frames := a\<rparr>) = valid_pid s" "valid_pid (s\<lparr>page_table := b\<rparr>) = valid_pid s"
  "valid_pid (s\<lparr>free_frames := c\<rparr>) = valid_pid s" "valid_pid (s\<lparr>lru_list := c\<rparr>) = valid_pid s"
  "valid_pid (t\<lparr>free_pages := d\<rparr>) = valid_pid t"
  "disk_ok (s\<lparr>frames := a\<rparr>) = disk_ok s" "disk_ok (s\<lparr>page_table := b\<rparr>) = disk_ok s"
  "disk_ok (s\<lparr>free_frames := c\<rparr>) = disk_ok s" "disk_ok (s\<lparr>lru_list := c\<rparr>) = disk_ok s"
  "disk_ok (t\<lparr>free_pages := d\<rparr>) = disk_ok t"
  by (simp_all add: disk_page_def valid_pid_def disk_ok_def fun_eq_iff)

lemma pool_updates_free [simp]:
  "free_ok (s\<lparr>frames := a\<rparr>) = free_ok s" "free_ok (s\<lparr>page_table := b\<rparr>) = free_ok s"
  "free_ok (s\<lparr>free_frames := c\<rparr>) = free_ok s" "free_ok (s\<lparr>lru_list := c\<rparr>) = free_ok s"
  "live (s\<lparr>frames := a\<rparr>) = live s" "live (s\<lparr>page_table := b\<rparr>) = live s"
  "live (s\<lparr>free_frames := c\<rparr>) = live s" "live (s\<lparr>lru_list := c\<rparr>) = live s"
  by (simp_all add: free_ok_def fl_ready_def live_def fun_eq_iff)

lemma upd_frame_simps [simp]:
  "page_table (upd_frame fid g s) = page_table s"
  "free_frames (upd_frame fid g s) = free_frames s"
  "lru_list (upd_frame fid g s) = lru_list s"
  "free_pages (upd_frame fid g s) = free_pages s"
  "num_pages (upd_frame fid g s) = num_pages s"
  "io_faults (upd_frame fid g s) = io_faults s"
  "length (frames (upd_frame fid g s)) = length (frames s)"
  "buffer_pool.more (upd_frame fid g s) = buffer_pool.more s"
  "disk_page (upd_frame fid g s) = disk_page s"
  "valid_pid (upd_frame fid g s) = valid_pid s"
  "disk_ok (upd_frame fid g s) = disk_ok s"
  "free_ok (upd_frame fid g s) = free_ok s"
  "live (upd_frame fid g s) = live s"
  by (simp_all add: upd_frame_def)

lemma frames_upd_frame:
  "fid < length (frames s) \<Longrightarrow>
   frames (upd_frame fid g s) ! f = (if f = fid then g (frames s ! fid) else frames s ! f)"
  by (simp add: upd_frame_def)

lemma touch_simps [simp]:
  "page_table (touch fid s) = page_table s" "frames (touch fid s) = frames s"
  "free_frames (touch fid s) = free_frames s" "free_pages (touch fid s) = free_pages s"
  "num_pages (touch fid s) = num_pages s" "io_faults (touch fid s) = io_faults s"
  "buffer_pool.more (touch fid s) = buffer_pool.more s"
  "disk_page (touch fid s) = disk_page s" "valid_pid (touch fid s) = valid_pid s"
  "disk_ok (touch fid s) = disk_ok s" "free_ok (touch fid s) = free_ok s"
  "live (touch fid s) = live s" "view (touch fid s) = view s" "pins (touch fid s) = pins s"
  "content_ok X (touch fid s) = content_ok X s"
  by (simp_all add: touch_def content_ok_def view_def pins_def fun_eq_iff cong: option.case_cong)

lemma table_okD:
  assumes "table_ok s"
  shows "length (frames s) = 64" "distinct (map fst (page_table s))" "distinct (map snd (page_table s))"
    "distinct (lru_list s)" "set (lru_list s) = snd ` set (page_table s)"
    "f \<in> set (free_frames s) \<Longrightarrow> f < 64"
    "f \<in> set (free_frames s) \<Longrightarrow> f \<notin> snd ` set (page_table s)"
    "frame_of s pid = Some fid \<Longrightarrow> fid < 64"
    "frame_of s pid = Some fid \<Longrightarrow> in_use (frames s ! fid)"
    "frame_of s pid = Some fid \<Longrightarrow> fid \<in> set (lru_list s)"
proof -
  have mem: "frame_of s pid = Some fid \<Longrightarrow> fid \<in> snd ` set (page_table s)"
    by (force dest: map_of_SomeD)
  show lt: "frame_of s pid = Some fid \<Longrightarrow> fid < 64"
    using mem assms unfolding table_ok_def set_map by auto
  show "frame_of s pid = Some fid \<Longrightarrow> in_use (frames s ! fid)"
    using mem lt assms unfolding table_ok_def set_map by simp
  show "frame_of s pid = Some fid \<Longrightarrow> fid \<in> set (lru_list s)"
    using mem assms unfolding table_ok_def set_map by simp
qed (use assms in \<open>auto simp: table_ok_def\<close>)

lemma frame_of_set:
  "table_ok s \<Longrightarrow> frame_of s pid = Some fid \<longleftrightarrow> (pid, fid) \<in> set (page_table s)"
  by (rule map_of_eq_Some_iff) (rule table_okD)

lemma frame_of_inj:
  assumes "table_ok s" "frame_of s pid = Some fid" "frame_of s qid = Some fid"
  shows "pid = qid"
  using table_okD(3) [OF assms(1)] assms(2,3) [THEN map_of_SomeD]
  by (metis distinct_map inj_onD prod.inject snd_conv)

lemma frame_of_neq:
  "table_ok s \<Longrightarrow> frame_of s pid = Some fid \<Longrightarrow> qid \<noteq> pid \<Longrightarrow> frame_of s qid \<noteq> Some fid"
  using frame_of_inj by blast

lemma in_lruD: "table_ok s \<Longrightarrow> fid \<in> set (lru_list s) \<Longrightarrow> \<exists>pid. frame_of s pid = Some fid"
  using table_okD(5) frame_of_set by fastforce

lemma table_ok_upd_frame:
  assumes "table_ok s" "in_use (g (frames s ! fid)) = in_use (frames s ! fid)"
  shows "table_ok (upd_frame fid g s)"
proof -
  have "in_use (frames (upd_frame fid g s) ! f) = in_use (frames s ! f)" if "f < 64" for f
    using assms that by (cases "fid < 64") (auto simp: upd_frame_def nth_list_update table_ok_def list_update_beyond)
  then show ?thesis using assms(1) by (simp add: table_ok_def)
qed

lemma table_ok_touch:
  assumes "table_ok s" "frame_of s pid = Some fid"
  shows "table_ok (touch fid s)"
proof -
  have "fid \<in> snd ` set (page_table s)" using assms(2) by (force dest: map_of_SomeD)
  then show ?thesis using assms(1) by (auto simp: table_ok_def touch_def)
qed

lemma view_upd_frame:
  assumes "table_ok s" "frame_of s pid = Some fid"
  shows "view (upd_frame fid g s) = (view s)(pid := fr_page (g (frames s ! fid)))"
proof
  fix q
  have len: "fid < length (frames s)" using table_okD(1,8) [OF assms(1)] assms(2) by simp
  show "view (upd_frame fid g s) q = ((view s)(pid := fr_page (g (frames s ! fid)))) q"
    using assms(2) frame_of_neq [OF assms, of q]
    by (cases "q = pid") (auto simp: view_def frames_upd_frame [OF len] split: option.split)
qed

lemma pins_upd_frame:
  assumes "table_ok s" "frame_of s pid = Some fid"
  shows "pins (upd_frame fid g s) = (pins s)(pid := pin_count (g (frames s ! fid)))"
proof
  fix q
  have len: "fid < length (frames s)" using table_okD(1,8) [OF assms(1)] assms(2) by simp
  show "pins (upd_frame fid g s) q = ((pins s)(pid := pin_count (g (frames s ! fid)))) q"
    using assms(2) frame_of_neq [OF assms, of q]
    by (cases "q = pid") (auto simp: pins_def frames_upd_frame [OF len] split: option.split)
qed

lemma content_ok_upd_frame:
  assumes "table_ok s" "content_ok X s" "frame_of s pid = Some fid"
    and "page_ok (fr_page (g (frames s ! fid)))" "page_id (fr_page (g (frames s ! fid))) = pid"
    and "pin_count (g (frames s ! fid)) = 0 \<Longrightarrow> \<not> is_dirty (g (frames s ! fid)) \<Longrightarrow>
      fr_page (g (frames s ! fid)) = disk_page s pid"
  shows "content_ok X (upd_frame fid g s)"
proof -
  have len: "fid < length (frames s)" using table_okD(1,8) [OF assms(1)] assms(3) by auto
  show ?thesis
    using assms(2,4-) frame_of_neq [OF assms(1,3)]
    unfolding content_ok_def view_upd_frame [OF assms(1,3)] upd_frame_simps frames_upd_frame [OF len]
    by (simp, metis)
qed

lemma pool_invD:
  assumes "pool_but X s"
  shows "table_ok s" "content_ok X s" "free_ok s" "fl_ready s" "disk_ok s" "io_faults s = []"
    "length (frames s) = 64"
  using assms by (auto simp: pool_but_def free_ok_def fl_ready_def disk_ok_def table_ok_def)

lemma content_okD:
  assumes "content_ok X s"
  shows "fid < 64 \<Longrightarrow> page_ok (fr_page (frames s ! fid))"
    "frame_of s pid = Some fid \<Longrightarrow> live s pid"
    "frame_of s pid = Some fid \<Longrightarrow> pin_count (frames s ! fid) = 0 \<Longrightarrow>
       \<not> is_dirty (frames s ! fid) \<Longrightarrow> fr_page (frames s ! fid) = disk_page s pid"
    "live s pid \<Longrightarrow> pid \<notin> X \<Longrightarrow> page_id (view s pid) = pid"
    "frame_of s pid = Some fid \<Longrightarrow> pid \<notin> X"
  using assms by (auto simp: content_ok_def)

lemma frame_page_id:
  "content_ok X s \<Longrightarrow> frame_of s pid = Some fid \<Longrightarrow> page_id (fr_page (frames s ! fid)) = pid"
  using content_okD(2,4,5) [of X s pid] by (simp add: view_def)

lemma liveD: "live s pid \<Longrightarrow> valid_pid s pid"
  by (simp add: live_def)

subsection \<open>Writing a frame back\<close>

lemma disk_store_pool [simp]:
  "frames (disk_store pid p s) = frames s" "page_table (disk_store pid p s) = page_table s"
  "free_frames (disk_store pid p s) = free_frames s" "lru_list (disk_store pid p s) = lru_list s"
  "pins (disk_store pid p s) = pins s"
  "buffer_pool.more (disk_store pid p s) = buffer_pool.more s"
  "table_ok (disk_store pid p s) = table_ok s"
  by (simp_all add: disk_store_def table_ok_def pins_def fun_eq_iff cong: option.case_cong)

lemma live_disk_store [simp]: "live (disk_store pid p s) = live s"
  by (simp add: live_def fun_eq_iff)

lemma free_ok_disk_store [simp]: "free_ok (disk_store pid p s) = free_ok s"
  by (simp add: free_ok_def fl_ready_def)

lemma view_disk_store:
  "page_ok p \<Longrightarrow> frame_of s pid = Some fid \<Longrightarrow> view (disk_store pid p s) = view s"
  by (auto simp: view_def fun_eq_iff split: option.split)

lemma keeps_refl [simp]: "keeps s s"
  by (simp add: keeps_def)

lemma keeps_trans: "keeps s t \<Longrightarrow> keeps t u \<Longrightarrow> keeps s u"
  by (simp add: keeps_def)

text \<open>Writing a frame's page to its place on disk and clearing the dirty flag, the common part
  of eviction and flushing.\<close>

definition cleaned :: "page_id \<Rightarrow> nat \<Rightarrow> 'a buffer_pool_scheme \<Rightarrow> 'a buffer_pool_scheme" where
  "cleaned pid fid s = (if is_dirty (frames s ! fid)
     then upd_frame fid (\<lambda>f. f\<lparr>is_dirty := False\<rparr>) (disk_store pid (fr_page (frames s ! fid)) s) else s)"

lemma cleaned_inv:
  assumes "pool_but X s" "frame_of s pid = Some fid"
  shows "pool_but X (cleaned pid fid s)" "keeps s (cleaned pid fid s)"
    "frames (cleaned pid fid s) ! fid = (frames s ! fid)\<lparr>is_dirty := False\<rparr>"
    "f \<noteq> fid \<Longrightarrow> frames (cleaned pid fid s) ! f = frames s ! f"
    "page_table (cleaned pid fid s) = page_table s"
    "is_dirty (frames s ! fid) \<Longrightarrow> disk_page (cleaned pid fid s) = (disk_page s)(pid := fr_page (frames s ! fid))"
proof -
  note D = pool_invD [OF assms(1)]
  let ?p = "fr_page (frames s ! fid)"
  have fid: "fid < 64" using table_okD(8) [OF D(1)] assms(2) .
  have pok: "page_ok ?p" using content_okD(1) [OF D(2)] fid .
  have pid: "page_id ?p = pid" using frame_page_id [OF D(2) assms(2)] .
  have v: "view (disk_store pid ?p s) = view s" using view_disk_store pok assms(2) .
  have co: "content_ok X (disk_store pid ?p s)"
    using D(2) pok assms(2) frame_of_neq [OF D(1) assms(2)] v
    by (auto simp: content_ok_def)
  let ?s1 = "disk_store pid ?p s"
  have t1: "table_ok ?s1" "frame_of ?s1 pid = Some fid" using D(1) assms(2) by simp_all
  have co2: "content_ok X (upd_frame fid (\<lambda>f. f\<lparr>is_dirty := False\<rparr>) ?s1)"
    by (rule content_ok_upd_frame [OF t1(1) co t1(2)]) (use pok pid in auto)
  have to2: "table_ok (upd_frame fid (\<lambda>f. f\<lparr>is_dirty := False\<rparr>) ?s1)"
    by (rule table_ok_upd_frame) (use t1 in auto)
  show "pool_but X (cleaned pid fid s)"
    using assms(1) co2 to2 D(3) by (auto simp: cleaned_def pool_but_def)
  have "view s pid = ?p" "pins s pid = pin_count (frames s ! fid)"
    using assms(2) by (simp_all add: view_def pins_def)
  then have "view (upd_frame fid (\<lambda>f. f\<lparr>is_dirty := False\<rparr>) ?s1) = view s"
    "pins (upd_frame fid (\<lambda>f. f\<lparr>is_dirty := False\<rparr>) ?s1) = pins s"
    using v by (simp_all add: view_upd_frame [OF t1] pins_upd_frame [OF t1] fun_upd_idem)
  moreover have "settled (cleaned pid fid s) q" if "settled s q" for q
    using that assms(2) frame_of_neq [OF D(1) assms(2), of q] pok fid D(7)
    by (cases "q = pid") (auto simp: settled_def cleaned_def frames_upd_frame)
  moreover have "pid \<noteq> 0" using content_okD(2) [OF D(2) assms(2)] by (simp add: live_def)
  ultimately show "keeps s (cleaned pid fid s)"
    using pok by (auto simp: cleaned_def keeps_def)
  show "frames (cleaned pid fid s) ! fid = (frames s ! fid)\<lparr>is_dirty := False\<rparr>"
    using fid D(7) by (cases "frames s ! fid") (auto simp: cleaned_def frames_upd_frame)
  show "f \<noteq> fid \<Longrightarrow> frames (cleaned pid fid s) ! f = frames s ! f"
    using fid D(7) by (auto simp: cleaned_def frames_upd_frame)
  show "page_table (cleaned pid fid s) = page_table s" by (simp add: cleaned_def)
  show "is_dirty (frames s ! fid) \<Longrightarrow> disk_page (cleaned pid fid s) = (disk_page s)(pid := ?p)"
    using pok by (simp add: cleaned_def)
qed

lemma flush_frame_run:
  assumes "pool_but X s" "frame_of s pid = Some fid"
  shows "flush_frame pid fid s = (Inr (), cleaned pid fid s)"
  using pool_invD [OF assms(1)] content_okD(2) [OF pool_invD(2) [OF assms(1)] assms(2)]
  by (simp add: flush_frame_def op_simps dm.write_run liveD cleaned_def)

subsection \<open>Eviction\<close>

definition dropped :: "page_id \<Rightarrow> nat \<Rightarrow> 'a buffer_pool_scheme \<Rightarrow> 'a buffer_pool_scheme" where
  "dropped pid fid s = upd_frame fid (\<lambda>f. f\<lparr>fr_page := clear (fr_page f), pin_count := 0,
     is_dirty := False, in_use := False\<rparr>)
     (s\<lparr>page_table := AList.delete pid (page_table s), lru_list := remove1 fid (lru_list s)\<rparr>)"

lemma dropped_simps [simp]:
  "page_table (dropped pid fid s) = AList.delete pid (page_table s)"
  "lru_list (dropped pid fid s) = remove1 fid (lru_list s)"
  "free_frames (dropped pid fid s) = free_frames s" "free_pages (dropped pid fid s) = free_pages s"
  "num_pages (dropped pid fid s) = num_pages s" "io_faults (dropped pid fid s) = io_faults s"
  "buffer_pool.more (dropped pid fid s) = buffer_pool.more s"
  "disk_page (dropped pid fid s) = disk_page s" "valid_pid (dropped pid fid s) = valid_pid s"
  "disk_ok (dropped pid fid s) = disk_ok s" "free_ok (dropped pid fid s) = free_ok s"
  "live (dropped pid fid s) = live s"
  by (simp_all add: dropped_def)

lemma frame_of_dropped: "frame_of (dropped pid fid s) = (frame_of s)(pid := None)"
  by (simp add: delete_conv' fun_eq_iff)

lemma frames_dropped:
  "fid < length (frames s) \<Longrightarrow> frames (dropped pid fid s) ! f =
    (if f = fid then (frames s ! fid)\<lparr>fr_page := clear (fr_page (frames s ! fid)), pin_count := 0,
       is_dirty := False, in_use := False\<rparr> else frames s ! f)"
  by (simp add: dropped_def frames_upd_frame)

lemma table_delete:
  assumes "table_ok s" "frame_of s pid = Some fid"
  shows "snd ` set (AList.delete pid (page_table s)) = snd ` set (page_table s) - {fid}"
proof -
  have "(q, f) \<in> set (page_table s) \<Longrightarrow> f = fid \<longleftrightarrow> q = pid" for q f
    using assms frame_of_set [OF assms(1)] frame_of_inj [OF assms(1)] by (metis option.inject)
  moreover have "(pid, fid) \<in> set (page_table s)" using assms(2) by (rule map_of_SomeD)
  ultimately show ?thesis by (force simp: AList.delete_eq)
qed

lemma table_ok_dropped:
  assumes "table_ok s" "frame_of s pid = Some fid"
  shows "table_ok (dropped pid fid s)"
proof -
  have fid: "fid < length (frames s)" using table_okD(1,8) [OF assms(1)] assms(2) by simp
  have "length (frames (dropped pid fid s)) = 64"
    using assms(1) by (simp add: dropped_def table_ok_def)
  moreover have "distinct (map snd (AList.delete pid (page_table s)))"
    using assms(1) by (simp add: table_ok_def AList.delete_eq distinct_map_filter)
  moreover have "distinct (map fst (AList.delete pid (page_table s)))"
    using assms(1) by (simp add: table_ok_def distinct_delete)
  moreover define S where "S = snd ` set (page_table s)"
  ultimately show ?thesis
    using assms(1) table_delete [OF assms] unfolding table_ok_def frames_dropped [OF fid] set_map S_def [symmetric]
    by auto
qed

lemma dropped_unused:
  assumes "table_ok s" "frame_of s pid = Some fid"
  shows "fid \<notin> snd ` set (page_table (dropped pid fid s))" "fid \<notin> set (free_frames s)"
  using table_delete [OF assms] table_okD(7) [OF assms(1), of fid] assms(2)
  by (force dest: map_of_SomeD)+

lemma view_dropped:
  assumes "table_ok s" "frame_of s pid = Some fid"
  shows "view (dropped pid fid s) = (view s)(pid := disk_page s pid)"
proof
  fix q
  have fid: "fid < length (frames s)" using table_okD(1,8) [OF assms(1)] assms(2) by simp
  show "view (dropped pid fid s) q = ((view s)(pid := disk_page s pid)) q"
    using frame_of_neq [OF assms, of q] unfolding view_def frame_of_dropped
    by (auto simp: frames_dropped [OF fid] split: option.split)
qed

lemma pins_dropped:
  assumes "table_ok s" "frame_of s pid = Some fid"
  shows "pins (dropped pid fid s) = (pins s)(pid := 0)"
proof
  fix q
  have fid: "fid < length (frames s)" using table_okD(1,8) [OF assms(1)] assms(2) by simp
  show "pins (dropped pid fid s) q = ((pins s)(pid := 0)) q"
    using frame_of_neq [OF assms, of q] unfolding pins_def frame_of_dropped
    by (auto simp: frames_dropped [OF fid] split: option.split)
qed

lemma content_ok_dropped:
  assumes "table_ok s" "content_ok X s" "frame_of s pid = Some fid"
    and "fr_page (frames s ! fid) = disk_page s pid"
  shows "content_ok X (dropped pid fid s)"
proof -
  have fid: "fid < length (frames s)" "fid < 64" using table_okD(1,8) [OF assms(1)] assms(3) by simp_all
  have "page_id (disk_page s pid) = pid" using frame_page_id [OF assms(2,3)] assms(4) by simp
  moreover have "page_ok (clear (fr_page (frames s ! fid)))"
    using content_okD(1) [OF assms(2) fid(2)] by simp
  ultimately show ?thesis
    using assms(2) frame_of_neq [OF assms(1,3)]
    unfolding content_ok_def view_dropped [OF assms(1,3)] frame_of_dropped frames_dropped [OF fid(1)]
    by auto
qed

lemma evict_frame_run:
  assumes "pool_but X s" "frame_of s pid = Some fid" "pin_count (frames s ! fid) = 0"
  shows "evict_frame fid s = (Inr (), dropped pid fid (cleaned pid fid s))"
proof -
  note D = pool_invD [OF assms(1)]
  have "fid < length (frames s)" "in_use (frames s ! fid)" "valid_pid s pid"
    using table_okD(8,9) [OF D(1)] D(7) content_okD(2) [OF D(2)] assms(2) by (auto simp: liveD)
  with frame_page_id [OF D(2) assms(2)] assms(3) D show ?thesis
    by (simp add: evict_frame_def op_simps dm.write_run cleaned_def dropped_def upd_frame_def)
qed

lemma evict_frame_inv:
  assumes "pool_but X s" "frame_of s pid = Some fid" "pin_count (frames s ! fid) = 0"
  defines "t \<equiv> dropped pid fid (cleaned pid fid s)"
  shows "pool_but X t" "keeps s t" "fid \<notin> snd ` set (page_table t)" "fid \<notin> set (free_frames t)"
proof -
  note C = cleaned_inv [OF assms(1,2)]
  note D = pool_invD [OF C(1)]
  let ?c = "cleaned pid fid s"
  have f: "frame_of ?c pid = Some fid" using C(5) assms(2) by simp
  have pg: "fr_page (frames ?c ! fid) = disk_page ?c pid"
    by (rule content_okD(3) [OF D(2) f]) (use C(3) assms(3) in simp_all)
  show "pool_but X t"
    using table_ok_dropped [OF D(1) f] content_ok_dropped [OF D(1,2) f pg] D(3)
    by (simp add: pool_but_def t_def)
  have "view ?c pid = disk_page ?c pid" "pins ?c pid = 0"
    using f pg C(3) assms(3) by (simp_all add: view_def pins_def)
  moreover have "settled t q" if "settled ?c q" for q
    using that frame_of_neq [OF D(1) f, of q] table_okD(8) [OF D(1) f] D(7)
    unfolding settled_def t_def frame_of_dropped
    by (auto simp: frames_dropped split: if_splits)
  ultimately have "keeps ?c t"
    using f by (auto simp: keeps_def t_def view_dropped [OF D(1) f] pins_dropped [OF D(1) f]
        frame_of_dropped fun_upd_idem simp del: dropped_simps(1))
  with C(2) show "keeps s t" by (rule keeps_trans)
  show "fid \<notin> snd ` set (page_table t)" "fid \<notin> set (free_frames t)"
    using dropped_unused [OF D(1) f] by (simp_all add: t_def)
qed

subsection \<open>Finding a frame\<close>

text \<open>A frame that holds no page and is not on the free-frame list either.\<close>

definition unused :: "'a buffer_pool_scheme \<Rightarrow> nat \<Rightarrow> bool" where
  "unused s fid \<longleftrightarrow> fid < BUFFER_POOL_SIZE \<and> fid \<notin> set (map snd (page_table s)) \<and> fid \<notin> set (free_frames s)"

text \<open>Every frame is taken and pinned: no frame can be had.\<close>

definition exhausted :: "'a buffer_pool_scheme \<Rightarrow> bool" where
  "exhausted s \<longleftrightarrow> free_frames s = [] \<and> (\<forall>fid \<in> set (lru_list s). pin_count (frames s ! fid) > 0)"

text \<open>The frames the pool can still use: free ones and ones that hold a page.\<close>

definition usable :: "'a buffer_pool_scheme \<Rightarrow> nat set" where
  "usable s = set (free_frames s) \<union> set (map snd (page_table s))"

lemma usable_simps [simp]:
  "usable (upd_frame fid g s) = usable s" "usable (touch fid s) = usable s"
  "usable (disk_store pid p s) = usable s" "usable (cleaned pid fid s) = usable s"
  by (simp_all add: usable_def cleaned_def)

lemma usable_dropped:
  "table_ok s \<Longrightarrow> frame_of s pid = Some fid \<Longrightarrow> usable (dropped pid fid s) = usable s - {fid}"
  using table_delete [of s pid fid] dropped_unused(2) [of s pid fid] by (auto simp: usable_def)

lemma keeps_free_frames: "keeps s (s\<lparr>free_frames := c\<rparr>)"
  by (simp add: keeps_def settled_def view_def pins_def fun_eq_iff cong: option.case_cong)

lemma pool_but_pop_free:
  assumes "pool_but X s" "free_frames s \<noteq> []"
  shows "pool_but X (s\<lparr>free_frames := butlast (free_frames s)\<rparr>)"
    and "unused (s\<lparr>free_frames := butlast (free_frames s)\<rparr>) (last (free_frames s))"
proof -
  obtain fs f where ff: "free_frames s = fs @ [f]" using assms(2) by (metis append_butlast_last_id)
  note D = pool_invD [OF assms(1)]
  have "table_ok (s\<lparr>free_frames := fs\<rparr>)" using D(1) ff by (auto simp: table_ok_def)
  moreover have "content_ok X (s\<lparr>free_frames := fs\<rparr>)"
    using D(2) by (simp add: content_ok_def view_def cong: option.case_cong)
  ultimately show "pool_but X (s\<lparr>free_frames := butlast (free_frames s)\<rparr>)"
    using D(3) ff by (simp add: pool_but_def)
  show "unused (s\<lparr>free_frames := butlast (free_frames s)\<rparr>) (last (free_frames s))"
    using D(1) ff table_okD(6,7) [OF D(1), of f] by (auto simp: unused_def table_ok_def)
qed

lemma find_free_frame_run:
  assumes "pool_but X s" "\<not> exhausted s"
  shows "\<exists>fid t. find_free_frame s = (Inr (Some fid), t) \<and> pool_but X t \<and> keeps s t \<and> unused t fid \<and>
    (\<forall>qid. frame_of s qid = None \<longrightarrow> frame_of t qid = None) \<and> insert fid (usable t) = usable s"
proof (cases "free_frames s = []")
  case False
  then have "find_free_frame s = (Inr (Some (last (free_frames s))), s\<lparr>free_frames := butlast (free_frames s)\<rparr>)"
    by (simp add: find_free_frame_def op_simps)
  moreover have "insert (last (free_frames s)) (usable (s\<lparr>free_frames := butlast (free_frames s)\<rparr>)) = usable s"
    using arg_cong [OF append_butlast_last_id [OF False], of set] by (auto simp: usable_def)
  ultimately show ?thesis using pool_but_pop_free [OF assms(1) False] keeps_free_frames by fastforce
next
  case True
  note D = pool_invD [OF assms(1)]
  let ?P = "\<lambda>fid. pin_count (frames s ! fid) = 0"
  have "find ?P (rev (lru_list s)) \<noteq> None"
    using assms(2) True by (auto simp: find_None_iff exhausted_def)
  then obtain fid where find: "find ?P (rev (lru_list s)) = Some fid" by blast
  then have fid: "fid \<in> set (lru_list s)" "?P fid" by (auto dest: find_SomeD)
  then obtain pid where pid: "frame_of s pid = Some fid" using in_lruD [OF D(1)] by blast
  let ?t = "dropped pid fid (cleaned pid fid s)"
  have "find_free_frame s = (Inr (Some fid), ?t)"
    using find True evict_frame_run [OF assms(1) pid fid(2)] by (simp add: find_free_frame_def op_simps)
  moreover have "unused ?t fid"
    using evict_frame_inv(3,4) [OF assms(1) pid fid(2)] table_okD(8) [OF D(1) pid]
    by (simp add: unused_def)
  moreover have "frame_of s qid = None \<Longrightarrow> frame_of ?t qid = None" for qid
    unfolding frame_of_dropped using cleaned_inv(5) [OF assms(1) pid] by simp
  moreover have "usable ?t = usable s - {fid}"
    using usable_dropped [OF pool_invD(1) [OF cleaned_inv(1) [OF assms(1) pid]]]
      cleaned_inv(5) [OF assms(1) pid] pid by simp
  moreover have "fid \<in> usable s" using fid(1) table_okD(5) [OF D(1)] by (simp add: usable_def)
  moreover from calculation(4,5) have "insert fid (usable ?t) = usable s" by blast
  ultimately show ?thesis using evict_frame_inv(1,2) [OF assms(1) pid fid(2)] by blast
qed

lemma find_free_frame_exhausted:
  assumes "exhausted s"
  shows "find_free_frame s = (Inr None, s)"
proof -
  have "find (\<lambda>fid. pin_count (frames s ! fid) = 0) (rev (lru_list s)) = None"
    using assms by (auto simp: find_None_iff exhausted_def)
  with assms show ?thesis by (simp add: find_free_frame_def op_simps exhausted_def)
qed

subsection \<open>Installing a page in a frame\<close>

definition installed :: "page_id \<Rightarrow> nat \<Rightarrow> page \<Rightarrow> bool \<Rightarrow> 'a buffer_pool_scheme \<Rightarrow> 'a buffer_pool_scheme" where
  "installed pid fid p d s = touch fid
     (upd_frame fid (\<lambda>f. f\<lparr>fr_page := p, in_use := True, pin_count := 1, is_dirty := d\<rparr>) s
      \<lparr>page_table := AList.update pid fid (page_table s)\<rparr>)"

lemma installed_simps [simp]:
  "page_table (installed pid fid p d s) = AList.update pid fid (page_table s)"
  "lru_list (installed pid fid p d s) = fid # remove1 fid (lru_list s)"
  "free_frames (installed pid fid p d s) = free_frames s"
  "free_pages (installed pid fid p d s) = free_pages s"
  "num_pages (installed pid fid p d s) = num_pages s"
  "buffer_pool.more (installed pid fid p d s) = buffer_pool.more s"
  "disk_page (installed pid fid p d s) = disk_page s" "live (installed pid fid p d s) = live s"
  "free_ok (installed pid fid p d s) = free_ok s"
  by (simp_all add: installed_def touch_def)

lemma frame_of_installed: "frame_of (installed pid fid p d s) = (frame_of s)(pid \<mapsto> fid)"
  by (simp add: update_conv')

lemma frames_installed:
  "fid < length (frames s) \<Longrightarrow> frames (installed pid fid p d s) ! f =
    (if f = fid then (frames s ! fid)\<lparr>fr_page := p, in_use := True, pin_count := 1, is_dirty := d\<rparr>
     else frames s ! f)"
  by (simp add: installed_def frames_upd_frame)

lemma update_fresh: "map_of al k = None \<Longrightarrow> AList.update k v al = al @ [(k, v)]"
  by (induction al) (auto split: if_splits)

lemma usable_installed:
  "frame_of s pid = None \<Longrightarrow> usable (installed pid fid p d s) = insert fid (usable s)"
  by (auto simp: usable_def update_fresh)

lemma unused_frame_of:
  "table_ok s \<Longrightarrow> unused s fid \<Longrightarrow> frame_of s qid \<noteq> Some fid"
  by (force simp: unused_def dest: map_of_SomeD)

lemma table_ok_installed:
  assumes "table_ok s" "unused s fid" "frame_of s pid = None"
  shows "table_ok (installed pid fid p d s)"
proof -
  have fid: "fid < length (frames s)" using assms(1,2) by (simp add: table_ok_def unused_def)
  have "length (frames (installed pid fid p d s)) = 64"
    using assms(1) by (simp add: installed_def table_ok_def)
  moreover have "pid \<notin> fst ` set (page_table s)" using assms(3) by (simp add: map_of_eq_None_iff)
  moreover have "fid \<notin> set (lru_list s)" using assms(1,2) by (simp add: table_ok_def unused_def)
  ultimately show ?thesis
    using assms(1,2) by (auto simp: table_ok_def unused_def update_fresh [OF assms(3)]
        frames_installed [OF fid] remove1_idem)
qed

lemma view_pins_installed:
  assumes "table_ok s" "unused s fid"
  shows "view (installed pid fid p d s) = (view s)(pid := p)"
    "pins (installed pid fid p d s) = (pins s)(pid := 1)"
proof -
  have fid: "fid < length (frames s)" using assms by (simp add: table_ok_def unused_def)
  show "view (installed pid fid p d s) = (view s)(pid := p)"
  proof
    fix q show "view (installed pid fid p d s) q = ((view s)(pid := p)) q"
      using unused_frame_of [OF assms, of q] unfolding view_def frame_of_installed
      by (auto simp: frames_installed [OF fid] split: option.split)
  qed
  show "pins (installed pid fid p d s) = (pins s)(pid := 1)"
  proof
    fix q show "pins (installed pid fid p d s) q = ((pins s)(pid := 1)) q"
      using unused_frame_of [OF assms, of q] unfolding pins_def frame_of_installed
      by (auto simp: frames_installed [OF fid] split: option.split)
  qed
qed

lemma pool_inv_installed:
  assumes "pool_but X s" "X \<subseteq> {pid}" "unused s fid" "frame_of s pid = None" "live s pid"
    and "page_ok p" "page_id p = pid"
  shows "pool_inv (installed pid fid p d s)"
proof -
  note D = pool_invD [OF assms(1)]
  have fid: "fid < length (frames s)" using assms(3) D(7) by (simp add: unused_def)
  have "content_ok {} (installed pid fid p d s)"
    using D(2) assms(2,4-) unused_frame_of [OF D(1) assms(3)]
    unfolding content_ok_def view_pins_installed [OF D(1) assms(3)] frame_of_installed
      frames_installed [OF fid] installed_simps(7,8)
    by auto
  with table_ok_installed [OF D(1) assms(3,4)] D(3) show ?thesis by (simp add: pool_but_def)
qed

subsection \<open>Fetching, pinning and changing pages\<close>

lemma touch_settled [simp]: "settled (touch fid s) = settled s"
  by (simp add: settled_def fun_eq_iff)

lemma settled_at:
  "frame_of s pid = Some fid \<Longrightarrow>
   settled s pid \<longleftrightarrow> is_dirty (frames s ! fid) \<or> fr_page (frames s ! fid) = disk_page s pid"
  by (simp add: settled_def)

lemma settled_upd_frame:
  assumes "table_ok s" "frame_of s pid = Some fid"
  shows "settled (upd_frame fid g s) qid \<longleftrightarrow>
    (if qid = pid then is_dirty (g (frames s ! fid)) \<or> fr_page (g (frames s ! fid)) = disk_page s pid
     else settled s qid)"
proof -
  have "fid < length (frames s)" using table_okD(1,8) [OF assms(1)] assms(2) by simp
  then show ?thesis
    using assms(2) frame_of_neq [OF assms, of qid] by (auto simp: settled_def frames_upd_frame)
qed

text \<open>A pinned page: what fetching it makes true.\<close>

definition fetched :: "page_id \<Rightarrow> nat \<Rightarrow> 'a buffer_pool_scheme \<Rightarrow> 'a buffer_pool_scheme \<Rightarrow> bool" where
  "fetched pid fid s t \<longleftrightarrow> pool_inv t \<and> view t = view s \<and> frame_of t pid = Some fid \<and>
     pins t = (pins s)(pid := pins s pid + 1) \<and>
     free_pages t = free_pages s \<and> num_pages t = num_pages s \<and>
     (\<forall>qid f. pins s qid > 0 \<longrightarrow> frame_of s qid = Some f \<longrightarrow> frame_of t qid = Some f) \<and>
     (\<forall>qid. settled s qid \<longrightarrow> settled t qid) \<and> (pins s pid = 0 \<longrightarrow> settled t pid) \<and>
     usable t = usable s \<and> disk_page t 0 = disk_page s 0 \<and> buffer_pool.more t = buffer_pool.more s"

lemma fetch_page_hit:
  assumes "pool_inv s" "frame_of s pid = Some fid"
  shows "\<exists>t. fetch_page pid s = (Inr (Some fid), t) \<and> fetched pid fid s t"
proof -
  note D = pool_invD [OF assms(1)]
  let ?g = "\<lambda>f. f\<lparr>pin_count := pin_count f + 1\<rparr>"
  let ?u = "upd_frame fid ?g s"
  have "fetch_page pid s = (Inr (Some fid), touch fid ?u)"
    using assms(2) by (simp add: fetch_page_def op_simps)
  moreover have "pool_inv (touch fid ?u)"
  proof -
    have fid: "fid < 64" using table_okD(8) [OF D(1) assms(2)] .
    have t: "table_ok ?u" using table_ok_upd_frame [OF D(1), of ?g fid] by simp
    have c: "content_ok {} ?u"
      by (rule content_ok_upd_frame [OF D(1,2) assms(2)])
        (use content_okD(1) [OF D(2) fid] frame_page_id [OF D(2) assms(2)] in simp_all)
    show ?thesis using t c D(3) table_ok_touch [OF t, of pid fid] assms(2) by (simp add: pool_but_def)
  qed
  moreover have "pins s pid = 0 \<longrightarrow> settled ?u pid"
    using content_okD(3) [OF D(2) assms(2)] assms(2)
    by (auto simp: settled_upd_frame [OF D(1) assms(2)] pins_def)
  moreover have "view s pid = fr_page (frames s ! fid)" "pins s pid = pin_count (frames s ! fid)"
    using assms(2) by (simp_all add: view_def pins_def)
  moreover have "settled ?u q" if "settled s q" for q
    using that by (auto simp: settled_upd_frame [OF D(1) assms(2)] settled_at [OF assms(2)])
  ultimately show ?thesis
    using assms(2) view_upd_frame [OF D(1) assms(2), of ?g] pins_upd_frame [OF D(1) assms(2), of ?g]
    by (simp add: fetched_def fun_upd_idem)
qed

lemma fetch_page_miss:
  assumes "pool_inv s" "live s pid" "frame_of s pid = None" "\<not> exhausted s"
  shows "\<exists>fid t. fetch_page pid s = (Inr (Some fid), t) \<and> fetched pid fid s t"
proof -
  obtain fid t where t: "find_free_frame s = (Inr (Some fid), t)" "pool_inv t" "keeps s t" "unused t fid"
    "frame_of t pid = None" "insert fid (usable t) = usable s"
    using find_free_frame_run [OF assms(1,4)] assms(3) by blast
  note D = pool_invD [OF t(2)]
  have lt: "live t pid" using assms(2) t(3) by (auto simp: live_def keeps_def valid_pid_def)
  have fid: "fid < 64" using t(4) by (simp add: unused_def)
  let ?u = "installed pid fid (disk_page t pid) False t"
  have "fetch_page pid s = (Inr (Some fid), ?u)"
    using assms(3) t(1) dm.read_run [OF D(5) liveD [OF lt] content_okD(1) [OF D(2) fid]]
    by (simp add: fetch_page_def op_simps installed_def)
  moreover have v: "view t pid = disk_page t pid" using t(5) by (simp add: view_def)
  have "pool_inv ?u"
    by (rule pool_inv_installed [OF t(2) _ t(4,5) lt])
      (use content_okD(4) [OF D(2) lt] v in simp_all)
  moreover have "settled ?u q" if "settled t q" for q
    using that unused_frame_of [OF D(1) t(4), of q] fid D(7)
    unfolding settled_def frame_of_installed by (auto simp: frames_installed)
  moreover have "settled ?u pid"
    using fid D(7) unfolding settled_def frame_of_installed by (simp add: frames_installed)
  moreover have "pins s pid = 0" using assms(3) by (simp add: pins_def)
  ultimately show ?thesis
    using t(3) v view_pins_installed [OF D(1) t(4), of pid "disk_page t pid" False]
    unfolding fetched_def keeps_def
    using usable_installed [OF t(5), of fid "disk_page t pid" False] t(6)
    by (auto simp: fun_upd_idem update_conv')
qed

lemma fetch_page_run:
  assumes "pool_inv s" "live s pid" "frame_of s pid \<noteq> None \<or> \<not> exhausted s"
  shows "\<exists>fid t. fetch_page pid s = (Inr (Some fid), t) \<and> fetched pid fid s t"
proof (cases "frame_of s pid")
  case None
  then show ?thesis using fetch_page_miss [OF assms(1,2)] assms(3) by simp
next
  case (Some fid)
  then show ?thesis using fetch_page_hit [OF assms(1)] by blast
qed

lemma fetch_page_exhausted:
  "frame_of s pid = None \<Longrightarrow> exhausted s \<Longrightarrow> fetch_page pid s = (Inr None, s)"
  by (simp add: fetch_page_def op_simps find_free_frame_exhausted)

lemma unpin_page_run:
  assumes "pool_inv s" "frame_of s pid = Some fid" "d \<or> settled s pid \<or> 1 < pins s pid"
  shows "\<exists>t. unpin_page pid d s = (Inr (), t) \<and> pool_inv t \<and> view t = view s \<and>
    pins t = (pins s)(pid := pins s pid - 1) \<and> page_table t = page_table s \<and>
    free_pages t = free_pages s \<and> num_pages t = num_pages s \<and>
    (\<forall>qid. settled s qid \<longrightarrow> settled t qid) \<and> (d \<longrightarrow> settled t pid) \<and>
    usable t = usable s \<and> disk_page t = disk_page s \<and> buffer_pool.more t = buffer_pool.more s"
proof -
  note D = pool_invD [OF assms(1)]
  let ?g = "\<lambda>f. (if d then \<lambda>f. f\<lparr>is_dirty := True\<rparr> else id)
    (if pin_count f > 0 then f\<lparr>pin_count := pin_count f - 1\<rparr> else f)"
  let ?u = "upd_frame fid ?g s"
  have fid: "fid < 64" using table_okD(8) [OF D(1) assms(2)] .
  have pn: "pins s pid = pin_count (frames s ! fid)" and vw: "view s pid = fr_page (frames s ! fid)"
    using assms(2) by (simp_all add: pins_def view_def)
  have "unpin_page pid d s = (Inr (), ?u)"
    using assms(2) by (simp add: unpin_page_def op_simps)
  moreover have "content_ok {} ?u"
    by (rule content_ok_upd_frame [OF D(1,2) assms(2)])
      (use content_okD(1) [OF D(2) fid] frame_page_id [OF D(2) assms(2)] assms(3) pn
         settled_at [OF assms(2)] content_okD(3) [OF D(2) assms(2)] in \<open>auto split: if_splits\<close>)
  then have "pool_inv ?u"
    using table_ok_upd_frame [OF D(1), of ?g fid] D(3) by (simp add: pool_but_def)
  moreover have "settled ?u q" if "settled s q" for q
    using that by (auto simp: settled_upd_frame [OF D(1) assms(2)] settled_at [OF assms(2)])
  moreover have "d \<longrightarrow> settled ?u pid" by (simp add: settled_upd_frame [OF D(1) assms(2)])
  ultimately show ?thesis
    using view_upd_frame [OF D(1) assms(2), of ?g] pins_upd_frame [OF D(1) assms(2), of ?g] pn vw
    by (auto simp: fun_upd_idem)
qed

lemma write_frame_run:
  assumes "pool_inv s" "frame_of s pid = Some fid" "pins s pid > 0" "page_ok p" "page_id p = pid"
  shows "pool_inv (write_frame fid p s)" "view (write_frame fid p s) = (view s)(pid := p)"
    "pins (write_frame fid p s) = pins s" "page_table (write_frame fid p s) = page_table s"
    "qid \<noteq> pid \<Longrightarrow> settled s qid \<Longrightarrow> settled (write_frame fid p s) qid"
proof -
  note D = pool_invD [OF assms(1)]
  let ?g = "\<lambda>f. f\<lparr>fr_page := p\<rparr>"
  have pn: "pins s pid = pin_count (frames s ! fid)" using assms(2) by (simp add: pins_def)
  have "content_ok {} (upd_frame fid ?g s)"
    by (rule content_ok_upd_frame [OF D(1,2) assms(2)]) (use assms(3-) pn in simp_all)
  then show "pool_inv (write_frame fid p s)"
    using table_ok_upd_frame [OF D(1), of ?g fid] D(3) by (simp add: pool_but_def write_frame_def)
  show "view (write_frame fid p s) = (view s)(pid := p)"
    using view_upd_frame [OF D(1) assms(2), of ?g] by (simp add: write_frame_def)
  show "pins (write_frame fid p s) = pins s"
    using pins_upd_frame [OF D(1) assms(2), of ?g] pn by (simp add: write_frame_def fun_upd_idem)
  show "page_table (write_frame fid p s) = page_table s" by (simp add: write_frame_def)
  show "qid \<noteq> pid \<Longrightarrow> settled s qid \<Longrightarrow> settled (write_frame fid p s) qid"
    by (simp add: write_frame_def settled_upd_frame [OF D(1) assms(2)])
qed

subsection \<open>Flushing\<close>

lemma flush_entries_run:
  assumes "pool_inv s" "set es \<subseteq> set (page_table s)"
  shows "\<exists>t. flush_entries es s = (Inr (), t) \<and> pool_inv t \<and> keeps s t \<and> page_table t = page_table s \<and>
    (\<forall>pid fid. (pid, fid) \<in> set es \<longrightarrow> \<not> is_dirty (frames t ! fid)) \<and>
    (\<forall>fid. \<not> is_dirty (frames s ! fid) \<longrightarrow> \<not> is_dirty (frames t ! fid)) \<and> usable t = usable s"
  using assms
proof (induction es arbitrary: s)
  case Nil
  then show ?case by (simp add: op_simps)
next
  case (Cons e es)
  obtain pid fid where e: "e = (pid, fid)" by (cases e)
  have f: "frame_of s pid = Some fid"
    using Cons.prems e frame_of_set [OF pool_invD(1) [OF Cons.prems(1)]] by simp
  let ?c = "cleaned pid fid s"
  note C = cleaned_inv [OF Cons.prems(1) f]
  obtain t where t: "flush_entries es ?c = (Inr (), t)" "pool_inv t" "keeps ?c t"
    "page_table t = page_table ?c"
    "\<forall>pid fid. (pid, fid) \<in> set es \<longrightarrow> \<not> is_dirty (frames t ! fid)"
    "\<forall>fid. \<not> is_dirty (frames ?c ! fid) \<longrightarrow> \<not> is_dirty (frames t ! fid)" "usable t = usable ?c"
    using Cons.IH [OF C(1)] Cons.prems(2) C(5) by auto
  have "flush_entries (e # es) s = (Inr (), t)"
    using flush_frame_run [OF Cons.prems(1) f] t(1) e by (simp add: op_simps)
  moreover have "\<not> is_dirty (frames t ! g)" if "\<not> is_dirty (frames s ! g)" for g
    using that t(6) C(3,4) by (cases "g = fid") simp_all
  moreover have "\<not> is_dirty (frames t ! fid)" using t(6) C(3) by simp
  ultimately show ?case
    using t C keeps_trans [OF C(2) t(3)] e by auto
qed

lemma flush_all_run:
  assumes "pool_inv s"
  shows "\<exists>t. flush_all s = (Inr (), t) \<and> pool_inv t \<and> keeps s t \<and> page_table t = page_table s \<and>
    (\<forall>pid fid. frame_of t pid = Some fid \<longrightarrow> \<not> is_dirty (frames t ! fid)) \<and>
    (\<forall>pid. settled s pid \<longrightarrow> disk_page t pid = view s pid) \<and> usable t = usable s"
proof -
  obtain t where t: "flush_entries (page_table s) s = (Inr (), t)" "pool_inv t" "keeps s t"
    "page_table t = page_table s"
    "\<forall>pid fid. (pid, fid) \<in> set (page_table s) \<longrightarrow> \<not> is_dirty (frames t ! fid)" "usable t = usable s"
    using flush_entries_run [OF assms, of "page_table s"] by auto
  have clean: "\<not> is_dirty (frames t ! fid)" if "frame_of t pid = Some fid" for pid fid
    using that t(4,5) by (auto dest: map_of_SomeD)
  have "disk_page t pid = view s pid" if "settled s pid" for pid
  proof -
    have "settled t pid" "view t = view s" using that t(3) by (simp_all add: keeps_def)
    moreover from \<open>settled t pid\<close> have "view t pid = disk_page t pid"
      using clean [of pid] by (auto simp: view_def settled_def split: option.split)
    ultimately show ?thesis by simp
  qed
  with t clean show ?thesis by (auto simp: flush_all_def op_simps)
qed

subsection \<open>Allocating and deleting pages\<close>

text \<open>Taking a page id, from the free list or by extending the file, leaves the pool's own
  structures alone and makes exactly one more page id live.\<close>

definition took_page :: "page_id \<Rightarrow> 'a buffer_pool_scheme \<Rightarrow> 'a buffer_pool_scheme \<Rightarrow> bool" where
  "took_page pid s t \<longleftrightarrow> frames t = frames s \<and> page_table t = page_table s \<and>
     free_frames t = free_frames s \<and> lru_list t = lru_list s \<and>
     buffer_pool.more t = buffer_pool.more s \<and>
     \<not> live s pid \<and> (\<forall>qid. live t qid \<longleftrightarrow> live s qid \<or> qid = pid) \<and>
     (\<forall>qid. live s qid \<longrightarrow> disk_page t qid = disk_page s qid) \<and> free_ok t \<and>
     (\<forall>r. header_ok r s \<longrightarrow> header_ok r t) \<and>
     unat (num_pages t) \<le> unat (num_pages s) + 1"

lemma took_page_pool:
  assumes "pool_inv s" "took_page pid s t"
  shows "pool_but {pid} t" "live s qid \<Longrightarrow> view t qid = view s qid" "pins t = pins s"
    "frame_of t pid = None" "settled s qid \<Longrightarrow> settled t qid"
proof -
  note D = pool_invD [OF assms(1)]
  note T = assms(2) [unfolded took_page_def]
  have lv: "live s q" if "frame_of s q = Some f" for q f using content_okD(2) [OF D(2) that] .
  show v: "view t qid = view s qid" if "live s qid" for qid
    using T that by (auto simp: view_def split: option.split)
  show "pins t = pins s" using T by (simp add: pins_def fun_eq_iff cong: option.case_cong)
  show none: "frame_of t pid = None" using T lv by (cases "frame_of s pid") auto
  show "settled t qid" if "settled s qid" for qid using T that lv by (auto simp: settled_def)
  have "content_ok {pid} t"
    using D(2) T lv v none by (auto simp: content_ok_def)
  moreover have "table_ok t" using D(1) T by (simp add: table_ok_def)
  ultimately show "pool_but {pid} t" using T by (simp add: pool_but_def)
qed

definition take_page_id :: "('a buffer_pool_scheme, page_id) op" where
  "take_page_id = op_bind fl_allocate
     (\<lambda>pid0. if pid0 = INVALID_PAGE_ID then allocate_page else op_return pid0)"

lemma valid_not_invalid: "disk_ok s \<Longrightarrow> valid_pid s pid \<Longrightarrow> pid \<noteq> INVALID_PAGE_ID"
  using word_sless_alt [of "- 1 :: 32 word" 0] by (auto simp: valid_pid_def INVALID_PAGE_ID_def)

lemma zero_not_live [simp]: "\<not> live s 0"
  by (simp add: live_def)

lemma take_page_id_recycled:
  assumes "pool_inv s" "free_pages s = ids @ [pid]"
  shows "\<exists>t. take_page_id s = (Inr pid, t) \<and> took_page pid s t"
proof -
  note D = pool_invD [OF assms(1)]
  let ?s1 = "s\<lparr>free_pages := ids\<rparr>"
  have r: "fl_ready ?s1" using D(4) assms(2) by (simp add: fl_ready_def)
  have pid: "valid_pid s pid" "pid \<noteq> 0" "pid \<notin> set ids"
    using D(3) assms(2) by (auto simp: free_ok_def)
  have "take_page_id s = (Inr pid, saved ?s1)"
    using assms(2) valid_not_invalid [OF D(5) pid(1)] fl_save_run [OF r]
    by (simp add: take_page_id_def fl_allocate_def op_simps)
  moreover have "took_page pid s (saved ?s1)"
    unfolding took_page_def
  proof (intro conjI allI impI)
    show "live (saved ?s1) q \<longleftrightarrow> live s q \<or> q = pid" for q
      using assms(2) pid by (auto simp: live_def saved_def)
    show "disk_page (saved ?s1) q = disk_page s q" if "live s q" for q
      using that saved_props(5) [OF r, of q] by (auto simp: live_def)
    show "header_ok h (saved ?s1)" if "header_ok h s" for h
      using that saved_props(2,4) [OF r] by (simp add: header_ok_def)
    show "free_ok (saved ?s1)"
      using D(3) assms(2) saved_props(1) [OF r] by (auto simp: free_ok_def saved_def)
  qed (use assms(2) in \<open>simp_all add: saved_def live_def\<close>)
  ultimately show ?thesis by blast
qed

lemma take_page_id_extended:
  assumes "pool_inv s" "free_pages s = []" "unat (num_pages s) < 2147483647"
  shows "\<exists>t. take_page_id s = (Inr (num_pages s), t) \<and> took_page (num_pages s) s t"
proof -
  note D = pool_invD [OF assms(1)]
  note A = allocated_props [OF D(5) assms(3)]
  have ext: "free_pages (allocated s) = free_pages s" "frames (allocated s) = frames s"
    "page_table (allocated s) = page_table s" "free_frames (allocated s) = free_frames s"
    "lru_list (allocated s) = lru_list s" "buffer_pool.more (allocated s) = buffer_pool.more s"
    by (simp_all add: allocated_def file_write_def)
  have n: "num_pages s \<noteq> 0" "\<not> valid_pid s (num_pages s)"
    using fl_readyD(2) [OF D(4)] unfolding valid_pid_iff [OF D(5)] by auto
  have "take_page_id s = (Inr (num_pages s), allocated s)"
    using assms(2) allocate_page_run [OF D(5)] by (simp add: take_page_id_def fl_allocate_def op_simps)
  moreover have "took_page (num_pages s) s (allocated s)"
    using A ext n D(3) assms(2,3)
    by (auto simp: took_page_def live_def free_ok_def fl_ready_def unat_word_ariths header_ok_def fl_persisted_def)
  ultimately show ?thesis by blast
qed

lemma new_page_run:
  assumes "pool_inv s" "\<not> exhausted s" "free_pages s \<noteq> [] \<or> unat (num_pages s) < 2147483647"
  shows "\<exists>pid fid t. new_page s = (Inr (pid, fid), t) \<and> pool_inv t \<and>
    \<not> live s pid \<and> (\<forall>qid. live t qid \<longleftrightarrow> live s qid \<or> qid = pid) \<and>
    view t pid = set_page_id (\<lambda>_. 0) pid \<and> (\<forall>qid. live s qid \<longrightarrow> view t qid = view s qid) \<and>
    frame_of t pid = Some fid \<and> pins t = (pins s)(pid := 1) \<and>
    (\<forall>qid f. pins s qid > 0 \<longrightarrow> frame_of s qid = Some f \<longrightarrow> frame_of t qid = Some f) \<and>
    (\<forall>qid. settled s qid \<longrightarrow> settled t qid) \<and> settled t pid \<and>
    unat (num_pages t) \<le> unat (num_pages s) + 1 \<and>
    usable t = usable s \<and> (\<forall>r. header_ok r s \<longrightarrow> header_ok r t) \<and> buffer_pool.more t = buffer_pool.more s"
proof -
  obtain pid s1 where s1: "take_page_id s = (Inr pid, s1)" "took_page pid s s1"
  proof (cases "free_pages s" rule: rev_exhaust)
    case Nil
    then show ?thesis using take_page_id_extended [OF assms(1)] assms(3) that by auto
  next
    case (snoc ids pid)
    then show ?thesis using take_page_id_recycled [OF assms(1)] that by blast
  qed
  note P = took_page_pool [OF assms(1) s1(2)] and T = s1(2) [unfolded took_page_def]
  have "\<not> exhausted s1" using assms(2) T by (simp add: exhausted_def)
  then obtain fid t where t: "find_free_frame s1 = (Inr (Some fid), t)" "pool_but {pid} t"
    "keeps s1 t" "unused t fid" "frame_of t pid = None" "insert fid (usable t) = usable s1"
    using find_free_frame_run [OF P(1)] P(4) by blast
  note D = pool_invD [OF t(2)] and K = t(3) [unfolded keeps_def]
  have fid: "fid < 64" using t(4) by (simp add: unused_def)
  have lt: "live t q \<longleftrightarrow> live s1 q" for q using K by (simp add: live_def valid_pid_def)
  let ?p = "set_page_id (\<lambda>_. 0) pid"
  let ?u = "installed pid fid ?p True t"
  have "clear (fr_page (frames t ! fid)) = (\<lambda>_. 0)" using content_okD(1) [OF D(2) fid] by simp
  then have "new_page s = (Inr (pid, fid), ?u)"
    using t(1) s1(1) unfolding new_page_def op_bind_assoc [symmetric] take_page_id_def [symmetric]
    by (simp add: op_simps installed_def upd_frame_def)
  moreover have "pool_inv ?u"
    by (rule pool_inv_installed [OF t(2) _ t(4,5)]) (use lt T in auto)
  moreover have "settled ?u q" if "settled s q" for q
  proof -
    have "settled t q" using P(5) [OF that] K by blast
    then show ?thesis
      using unused_frame_of [OF D(1) t(4), of q] fid D(7)
      unfolding settled_def frame_of_installed by (auto simp: frames_installed)
  qed
  moreover have "settled ?u pid"
    using fid D(7) unfolding settled_def frame_of_installed by (simp add: frames_installed)
  moreover have "pins s pid = 0" "frame_of s pid = None"
    using P(3,4) T by (simp_all add: pins_def)
  moreover have "usable ?u = usable s"
    using usable_installed [OF t(5), of fid ?p True] t(6) T by (simp add: usable_def)
  moreover have "header_ok r ?u" if "header_ok r s" for r
    using that T K header_ok_cong [of ?u t r] header_ok_cong [of t s1 r] by simp
  ultimately show ?thesis
    using K P(2,3) T lt view_pins_installed [OF D(1) t(4), of pid ?p True]
    by (auto simp: update_conv')
qed

text \<open>\<open>delete_page\<close> drops the page's frame without writing it and puts the id on the free list.\<close>

definition undirty :: "nat \<Rightarrow> 'a buffer_pool_scheme \<Rightarrow> 'a buffer_pool_scheme" where
  "undirty fid = upd_frame fid (\<lambda>f. f\<lparr>is_dirty := False\<rparr>)"

definition discarded :: "page_id \<Rightarrow> 'a buffer_pool_scheme \<Rightarrow> 'a buffer_pool_scheme" where
  "discarded pid s = (case frame_of s pid of None \<Rightarrow> s | Some fid \<Rightarrow> dropped pid fid (undirty fid s))"

lemma undirty_simps [simp]:
  "page_table (undirty fid s) = page_table s" "free_pages (undirty fid s) = free_pages s"
  "free_frames (undirty fid s) = free_frames s" "disk_page (undirty fid s) = disk_page s"
  "valid_pid (undirty fid s) = valid_pid s" "num_pages (undirty fid s) = num_pages s"
  "fl_ready (undirty fid s) = fl_ready s" "disk_ok (undirty fid s) = disk_ok s" "lru_list (undirty fid s) = lru_list s"
  "buffer_pool.more (undirty fid s) = buffer_pool.more s"
  by (simp_all add: undirty_def fl_ready_def)

lemma discarded_props:
  assumes "pool_inv s"
  shows "table_ok (discarded pid s)" "frame_of (discarded pid s) = (frame_of s)(pid := None)"
    "frame_of s qid = Some f \<Longrightarrow> qid \<noteq> pid \<Longrightarrow> frames (discarded pid s) ! f = frames s ! f"
    "f < 64 \<Longrightarrow> page_ok (fr_page (frames (discarded pid s) ! f))"
    "disk_page (discarded pid s) = disk_page s" "free_pages (discarded pid s) = free_pages s"
    "valid_pid (discarded pid s) = valid_pid s" "fl_ready (discarded pid s) = fl_ready s"
    "num_pages (discarded pid s) = num_pages s" "buffer_pool.more (discarded pid s) = buffer_pool.more s"
proof -
  note D = pool_invD [OF assms(1)]
  have t: "table_ok (undirty fid s)" for fid
    unfolding undirty_def by (rule table_ok_upd_frame [OF D(1)]) simp
  have len: "length (frames (undirty fid s)) = 64" for fid using D(7) by (simp add: undirty_def)
  show "table_ok (discarded pid s)"
    using D(1) table_ok_dropped [OF t] by (auto simp: discarded_def split: option.split)
  show "frame_of (discarded pid s) = (frame_of s)(pid := None)"
    by (auto simp: discarded_def frame_of_dropped simp del: dropped_simps(1) split: option.split)
  show "frames (discarded pid s) ! f = frames s ! f" if "frame_of s qid = Some f" "qid \<noteq> pid" for qid f
    using that frame_of_neq [OF D(1) _ that(2)] table_okD(8) [OF D(1)] D(7)
    by (auto simp: discarded_def frames_dropped undirty_def frames_upd_frame split: option.split)
  show "page_ok (fr_page (frames (discarded pid s) ! f))" if "f < 64" for f
    using that content_okD(1) [OF D(2)] table_okD(8) [OF D(1)] D(7)
    by (auto simp: discarded_def frames_dropped undirty_def frames_upd_frame split: option.split)
qed (auto simp: discarded_def fl_ready_def split: option.split)

lemma delete_page_run:
  assumes "pool_inv s" "live s pid" "pins s pid = 0" "length (free_pages s) < MAX_FREE_PAGES"
  shows "delete_page pid s = (Inr (), saved (discarded pid s\<lparr>free_pages := free_pages s @ [pid]\<rparr>))"
proof -
  note D = pool_invD [OF assms(1)] and P = discarded_props [OF assms(1)]
  let ?d = "discarded pid s\<lparr>free_pages := free_pages s @ [pid]\<rparr>"
  have "fl_ready ?d" using P(7,8) D(4) assms(4) by (simp add: fl_ready_def discarded_def split: option.splits)
  note sv = fl_save_run [OF this]
  show ?thesis
  proof (cases "frame_of s pid")
    case None
    then show ?thesis using sv assms(4) by (simp add: delete_page_def op_simps fl_free_def discarded_def)
  next
    case (Some fid)
    have fid: "fid < length (frames s)" using table_okD(8) [OF D(1) Some] D(7) by simp
    have "evict_frame fid (undirty fid s) = (Inr (), dropped pid fid (undirty fid s))"
      using assms(3) fid table_okD(9) [OF D(1) Some] frame_page_id [OF D(2) Some] Some
      by (simp add: evict_frame_def op_simps dropped_def undirty_def frames_upd_frame pins_def)
    then show ?thesis
      using sv assms(3,4) Some unfolding undirty_def
      by (simp add: delete_page_def op_simps fl_free_def discarded_def pins_def undirty_def)
  qed
qed

lemma delete_page_inv:
  assumes "pool_inv s" "live s pid" "pins s pid = 0" "length (free_pages s) < MAX_FREE_PAGES"
  defines "t \<equiv> saved (discarded pid s\<lparr>free_pages := free_pages s @ [pid]\<rparr>)"
  shows "pool_inv t" "live t qid \<longleftrightarrow> live s qid \<and> qid \<noteq> pid" "live t qid \<Longrightarrow> view t qid = view s qid"
    "pins t = pins s" "frame_of t = (frame_of s)(pid := None)" "free_pages t = free_pages s @ [pid]"
    "settled s qid \<Longrightarrow> settled t qid" "buffer_pool.more t = buffer_pool.more s"
proof -
  note D = pool_invD [OF assms(1)] and P = discarded_props [OF assms(1)]
  let ?d = "discarded pid s\<lparr>free_pages := free_pages s @ [pid]\<rparr>"
  have rdy: "fl_ready ?d" using P(7,8) D(4) assms(4) by (simp add: fl_ready_def discarded_def split: option.splits)
  have tab: "page_table t = page_table (discarded pid s)" "frames t = frames (discarded pid s)"
    by (simp_all add: t_def saved_def)
  show fo: "frame_of t = (frame_of s)(pid := None)" using P(2) tab by simp
  show fp: "free_pages t = free_pages s @ [pid]" by (simp add: t_def saved_def)
  have vp: "valid_pid t = valid_pid s" using P(7) by (simp add: t_def saved_def)
  show lv: "live t qid \<longleftrightarrow> live s qid \<and> qid \<noteq> pid" for qid
    using vp fp by (auto simp: live_def)
  have dk: "disk_page t qid = disk_page s qid" if "qid \<noteq> 0" for qid
    using saved_props(5) [OF rdy that] P(5) by (simp add: t_def)
  have ls: "live s qid" if "frame_of s qid = Some f" for qid f using content_okD(2) [OF D(2) that] .
  show vw: "view t qid = view s qid" if "live t qid" for qid
    using that lv [of qid] dk [of qid] P(3) [of qid] unfolding view_def fo tab(2)
    by (auto simp: live_def split: option.split)
  show "pins t = pins s"
    using assms(3) P(3) tab(2) unfolding pins_def fo by (auto simp: fun_eq_iff split: option.split)
  show "settled t qid" if "settled s qid" for qid
    using that ls [of qid] dk [of qid] P(3) [of qid] unfolding settled_def fo tab(2)
    by (auto simp: live_def split: if_splits)
  show "buffer_pool.more t = buffer_pool.more s" using P(10) by (simp add: t_def saved_def)
  have "table_ok t" using P(1) by (simp add: t_def saved_def table_ok_def)
  moreover have "content_ok {} t"
    unfolding content_ok_def
  proof (intro conjI allI impI)
    fix q f assume q: "frame_of t q = Some f"
    then have sq: "frame_of s q = Some f" "q \<noteq> pid" using fo by (auto split: if_splits)
    show "live t q" using ls [OF sq(1)] lv sq(2) by simp
    show "fr_page (frames t ! f) = disk_page t q"
      if "pin_count (frames t ! f) = 0" "\<not> is_dirty (frames t ! f)"
      using that content_okD(3) [OF D(2) sq(1)] P(3) [OF sq] tab(2) dk [of q] ls [OF sq(1)]
      by (auto simp: live_def)
  qed (use P(4) tab(2) vw lv content_okD(4) [OF D(2)] in auto)
  moreover have "free_ok t"
    using D(3) assms(2) fp vp saved_props(1) [OF rdy] by (auto simp: free_ok_def live_def t_def)
  ultimately show "pool_inv t" by (simp add: pool_but_def)
qed

lemma not_exhausted:
  assumes "pool_inv s" "frame_of s pid = Some fid" "pins s pid = 0"
  shows "\<not> exhausted s"
  using table_okD(10) [OF pool_invD(1) [OF assms(1)] assms(2)] assms(2,3)
  by (auto simp: exhausted_def pins_def)

subsection \<open>A fresh pool\<close>

lemma BufferPool_new_simps [simp]:
  "db_file (BufferPool_new fl) = db_file fl" "file_size (BufferPool_new fl) = file_size fl"
  "num_pages (BufferPool_new fl) = num_pages fl" "io_faults (BufferPool_new fl) = io_faults fl"
  "free_pages (BufferPool_new fl) = free_pages fl"
  "frames (BufferPool_new fl) = replicate 64 empty_frame" "page_table (BufferPool_new fl) = []"
  "free_frames (BufferPool_new fl) = [0..<64]" "lru_list (BufferPool_new fl) = []"
  by (simp_all add: BufferPool_new_def free_list.defs buffer_pool.defs)

lemma pool_inv_new:
  assumes "fl_ready fl" "distinct (free_pages fl)"
    and "\<And>pid. pid \<in> set (free_pages fl) \<Longrightarrow> valid_pid fl pid \<and> pid \<noteq> 0"
    and "\<And>pid. valid_pid fl pid \<Longrightarrow> pid \<noteq> 0 \<Longrightarrow> pid \<notin> set (free_pages fl) \<Longrightarrow> page_id (disk_page fl pid) = pid"
  shows "pool_inv (BufferPool_new fl)" "\<not> exhausted (BufferPool_new fl)"
    "view (BufferPool_new fl) = disk_page fl" "pins (BufferPool_new fl) pid = 0"
proof -
  let ?s = "BufferPool_new fl"
  have same: "valid_pid ?s = valid_pid fl" "disk_page ?s = disk_page fl" "disk_ok ?s = disk_ok fl"
    by (simp_all add: valid_pid_def disk_page_def disk_ok_def fun_eq_iff)
  have "table_ok ?s" by (auto simp: table_ok_def empty_frame_def)
  moreover have "content_ok {} ?s"
    using assms(4) by (auto simp: content_ok_def live_def same view_def empty_frame_def)
  moreover have "free_ok ?s"
    using assms(1-3) by (auto simp: free_ok_def fl_ready_def same)
  ultimately show "pool_inv ?s" by (simp add: pool_but_def)
  show "view ?s = disk_page fl" by (simp add: view_def same fun_eq_iff)
  show "\<not> exhausted ?s" "pins ?s pid = 0" by (simp_all add: exhausted_def pins_def)
qed

end
