(* ===== verification/Storage_Props.thy ===== *)
theory Storage_Props
  imports Buffer_Pool
begin

section \<open>Properties of the storage layer\<close>

text \<open>
  What the disk manager, the free list and the buffer pool promise to the B+Tree and to the
  database: page 0 survives a restart, the pool is transparent, eviction spares pinned pages,
  flushing reaches the disk, and two ways in which frames are lost for good.
\<close>

subsection \<open>A small database used by the witnesses\<close>

text \<open>Two pages: page 0 with an empty free list, and page 1, which carries its own id.\<close>

definition sample_dm :: disk_manager where
  "sample_dm = \<lparr>db_file = (\<lambda>_. 0)(4096 := 1), file_size = 8192, num_pages = 2, io_faults = []\<rparr>"

definition sample_fl :: free_list where
  "sample_fl = FreeList_new sample_dm"

definition sample_pool :: buffer_pool where
  "sample_pool = BufferPool_new sample_fl"

lemma FreeList_new_simps [simp]:
  "db_file (FreeList_new dm) = db_file dm" "file_size (FreeList_new dm) = file_size dm"
  "num_pages (FreeList_new dm) = num_pages dm" "io_faults (FreeList_new dm) = io_faults dm"
  "free_pages (FreeList_new dm) = []"
  by (simp_all add: FreeList_new_def disk_manager.defs free_list.defs)

lemma FreeList_new_disk [simp]:
  "disk_ok (FreeList_new dm) = disk_ok dm" "valid_pid (FreeList_new dm) = valid_pid dm"
  "disk_page (FreeList_new dm) = disk_page dm"
  by (simp_all add: disk_ok_def valid_pid_def disk_page_def fun_eq_iff)

lemma sample_ok:
  "disk_ok sample_dm" "valid_pid sample_dm pid \<longleftrightarrow> unat pid < 2" "fl_ready sample_fl"
proof -
  show ok: "disk_ok sample_dm" by (simp add: sample_dm_def disk_ok_def sless_0_iff32)
  show v: "valid_pid sample_dm pid \<longleftrightarrow> unat pid < 2" for pid
    using valid_pid_iff [OF ok] by (simp add: sample_dm_def)
  show "fl_ready sample_fl" using ok v [of 0] by (simp add: fl_ready_def sample_fl_def)
qed

lemma sample_page1: "page_id (disk_page sample_dm 1) = 1"
  by (simp add: page_id_def get32_def peek_numeral peek_Suc disk_page_def sample_dm_def)

lemma unat_lt2:
  assumes "unat (w :: 32 word) < 2" "w \<noteq> 0"
  shows "w = 1"
proof -
  have "unat w \<noteq> 0" using assms(2) by (simp add: unat_eq_0)
  with assms(1) have "unat w = unat (1 :: 32 word)" by simp
  then show ?thesis unfolding word_unat_eq_iff .
qed

lemma sample_pool_ok:
  "pool_inv sample_pool" "\<not> exhausted sample_pool" "live sample_pool 1"
  "view sample_pool = disk_page sample_dm" "pins sample_pool pid = 0"
proof -
  have id: "page_id (disk_page sample_fl q) = q"
    if "valid_pid sample_fl q" "q \<noteq> 0" "q \<notin> set (free_pages sample_fl)" for q
    using that sample_ok(2) [of q] sample_page1 unat_lt2 [of q] by (auto simp: sample_fl_def)
  have none: "q \<in> set (free_pages sample_fl) \<Longrightarrow> valid_pid sample_fl q \<and> q \<noteq> 0" for q
    by (simp add: sample_fl_def)
  have "distinct (free_pages sample_fl)" by (simp add: sample_fl_def)
  note P = pool_inv_new [OF sample_ok(3) this none id]
  show "pool_inv sample_pool" "\<not> exhausted sample_pool" "pins sample_pool pid = 0"
    using P by (simp_all add: sample_pool_def)
  show "view sample_pool = disk_page sample_dm" using P(3) by (simp add: sample_pool_def sample_fl_def)
  have "valid_pid sample_pool = valid_pid sample_dm"
    by (simp add: valid_pid_def sample_pool_def sample_fl_def fun_eq_iff)
  then show "live sample_pool 1" using sample_ok(2) [of 1]
    by (simp add: live_def) (simp add: sample_pool_def sample_fl_def)
qed

subsection \<open>The disk manager and page 0\<close>

lemma load_persisted:
  assumes "disk_ok s" "valid_pid s 0" "num_pages s \<noteq> 0" "page0_count (disk_page s 0) = n" "n \<le> 1016"
  shows "fl_load s = (Inr (), s\<lparr>free_pages := page0_entries (disk_page s 0) n\<rparr>)"
  using assms dm.read_run [OF assms(1,2), of "\<lambda>_. 0"] by (simp add: fl_load_def op_simps)

lemma fl_ready_num: "fl_ready s \<Longrightarrow> num_pages s \<noteq> 0"
  using fl_readyD(4) [of s] by (auto simp: word_sless_alt)

lemma DiskManager_open_run:
  assumes "disk_ok s"
  shows "DiskManager_open (db_file s) (file_size s) [] =
    Inr \<lparr>db_file = db_file s, file_size = file_size s, num_pages = num_pages s, io_faults = []\<rparr>"
  using assms by (simp add: DiskManager_open_def op_simps disk_ok_def)

text \<open>C32. A restart finds the free list it left: after \<open>save\<close>, opening the same file again
  (\<open>DiskManager\<close> constructor, \<open>FreeList\<close> constructor, \<open>load\<close>) counts the same pages and
  yields the same free list and the same root page id.\<close>

theorem free_list_survives_reopen:
  assumes "fl_ready (s :: free_list)"
  shows "\<exists>t dm u. fl_save s = (Inr (), t) \<and>
    DiskManager_open (db_file t) (file_size t) [] = Inr dm \<and> num_pages dm = num_pages s \<and>
    fl_load (FreeList_new dm) = (Inr (), u) \<and> free_pages u = free_pages s \<and>
    root_page_id u = (Inr (page0_root (disk_page s 0)), u)"
proof -
  let ?t = "saved s"
  let ?dm = "\<lparr>db_file = db_file ?t, file_size = file_size ?t, num_pages = num_pages ?t, io_faults = []\<rparr> :: disk_manager"
  note S = saved_props [OF assms]
  note R = fl_readyD [OF S(1)]
  have np: "num_pages ?t = num_pages s" by (simp add: saved_def)
  have ok: "disk_ok ?dm" "valid_pid ?dm 0" "disk_page ?dm = disk_page ?t"
    using R by (simp_all add: disk_ok_def valid_pid_def disk_page_def fun_eq_iff)
  let ?u = "FreeList_new ?dm\<lparr>free_pages := free_pages s\<rparr>"
  have "fl_load (FreeList_new ?dm) = (Inr (), ?u)"
    using load_persisted [of "FreeList_new ?dm" "length (free_pages s)"] ok S(2,3) R(3) fl_ready_num [OF S(1)]
    by (simp add: fl_persisted_def)
  moreover have "root_page_id ?u = (Inr (page0_root (disk_page s 0)), ?u)"
    using dm.read_run [of ?u 0 "\<lambda>_. 0"] ok S(4) R(4) by (simp add: root_page_id_def op_simps)
  ultimately show ?thesis
    using fl_save_run [OF assms] DiskManager_open_run [OF R(1)] np by auto
qed

theorem free_list_survives_reopen_witness:
  "\<exists>t dm u. fl_save sample_fl = (Inr (), t) \<and>
    DiskManager_open (db_file t) (file_size t) [] = Inr dm \<and> num_pages dm = num_pages sample_fl \<and>
    fl_load (FreeList_new dm) = (Inr (), u) \<and> free_pages u = free_pages sample_fl \<and>
    root_page_id u = (Inr (page0_root (disk_page sample_fl 0)), u)"
  using free_list_survives_reopen [OF sample_ok(3)] .

text \<open>The root slot and the free list share page 0 without disturbing each other: after
  \<open>set_root_page_id\<close> the root reads back, the stored free list is unchanged, and so is every
  other page.\<close>

theorem set_root_page_id_roundtrip:
  assumes "fl_ready s" "fl_persisted s"
  shows "\<exists>t. set_root_page_id r s = (Inr (), t) \<and> root_page_id t = (Inr r, t) \<and>
    fl_ready t \<and> fl_persisted t \<and> free_pages t = free_pages s \<and>
    (\<forall>pid. pid \<noteq> 0 \<longrightarrow> disk_page t pid = disk_page s pid)"
proof -
  note R = fl_readyD [OF assms(1)]
  let ?p = "put32 (disk_page s 0) 4092 r"
  let ?t = "disk_store 0 ?p s"
  have pok: "page_ok ?p" by (rule page_ok_put32) simp_all
  have "set_root_page_id r s = (Inr (), ?t)"
    using R by (simp add: set_root_page_id_def op_simps dm.read_run dm.write_run)
  moreover have "root_page_id ?t = (Inr r, ?t)"
    using R pok by (simp add: root_page_id_def op_simps dm.read_run put_root_decoded)
  moreover have "fl_persisted ?t"
    using assms(2) R(3) pok by (simp add: fl_persisted_def put_root_decoded)
  ultimately show ?thesis using R pok by (simp add: fl_ready_def)
qed

theorem set_root_page_id_roundtrip_witness:
  "\<exists>t. set_root_page_id 7 sample_fl = (Inr (), t) \<and> root_page_id t = (Inr 7, t) \<and>
    fl_ready t \<and> fl_persisted t \<and> free_pages t = free_pages sample_fl \<and>
    (\<forall>pid. pid \<noteq> 0 \<longrightarrow> disk_page t pid = disk_page sample_fl pid)"
proof -
  have "fl_persisted sample_fl"
    by (simp add: fl_persisted_def sample_fl_def page0_count_def page0_entries_def get32_def
        peek_numeral peek_Suc disk_page_def sample_dm_def)
  then show ?thesis using set_root_page_id_roundtrip [OF sample_ok(3)] by blast
qed

text \<open>Freed pages are reused last-in first-out and every change is on disk at once: freeing a
  page and then allocating returns that page, and the list, in memory and on page 0, is what it
  was before.\<close>

theorem free_then_allocate:
  assumes "fl_ready s" "length (free_pages s) < MAX_FREE_PAGES"
  shows "\<exists>t u. fl_free pid s = (Inr (), t) \<and> fl_persisted t \<and> free_pages t = free_pages s @ [pid] \<and>
    fl_allocate t = (Inr pid, u) \<and> fl_persisted u \<and> free_pages u = free_pages s \<and>
    page0_root (disk_page u 0) = page0_root (disk_page s 0)"
proof -
  let ?a = "s\<lparr>free_pages := free_pages s @ [pid]\<rparr>"
  have ra: "fl_ready ?a" using assms by (simp add: fl_ready_def)
  note A = saved_props [OF ra]
  let ?b = "saved ?a\<lparr>free_pages := free_pages s\<rparr>"
  have rb: "fl_ready ?b" using A(1,3) assms by (simp add: fl_ready_def)
  note B = saved_props [OF rb]
  have "fl_free pid s = (Inr (), saved ?a)"
    using assms(2) fl_save_run [OF ra] by (simp add: fl_free_def op_simps)
  moreover have "fl_allocate (saved ?a) = (Inr pid, saved ?b)"
    using A(3) fl_save_run [OF rb] by (simp add: fl_allocate_def op_simps)
  ultimately show ?thesis using A B by simp
qed

theorem free_then_allocate_witness:
  "\<exists>t u. fl_free 1 sample_fl = (Inr (), t) \<and> fl_persisted t \<and> free_pages t = free_pages sample_fl @ [1] \<and>
    fl_allocate t = (Inr 1, u) \<and> fl_persisted u \<and> free_pages u = free_pages sample_fl \<and>
    page0_root (disk_page u 0) = page0_root (disk_page sample_fl 0)"
  by (rule free_then_allocate [OF sample_ok(3)]) (simp add: sample_fl_def)

subsection \<open>The buffer pool\<close>

text \<open>C23. The pool is transparent: fetching a live page returns a frame that holds the page's
  current content (cached or read from disk, whatever had to be evicted), adds one pin, changes
  the content of no page, moves no pinned page, and keeps the pool's invariant.\<close>

theorem fetch_page_transparent:
  assumes "pool_inv s" "live s pid" "frame_of s pid \<noteq> None \<or> \<not> exhausted s"
  shows "\<exists>fid t. fetch_page pid s = (Inr (Some fid), t) \<and> frame_of t pid = Some fid \<and>
    fr_page (frames t ! fid) = view s pid \<and> view t = view s \<and> pool_inv t \<and>
    pins t = (pins s)(pid := pins s pid + 1) \<and>
    (\<forall>qid f. pins s qid > 0 \<longrightarrow> frame_of s qid = Some f \<longrightarrow> frame_of t qid = Some f)"
proof -
  obtain fid t where t: "fetch_page pid s = (Inr (Some fid), t)" "fetched pid fid s t"
    using fetch_page_run [OF assms] by blast
  note F = t(2) [unfolded fetched_def]
  have "fr_page (frames t ! fid) = view t pid" using F unfolding view_def by simp
  with t F show ?thesis by (auto simp: fetched_def)
qed

theorem fetch_page_transparent_witness:
  "\<exists>fid t. fetch_page 1 sample_pool = (Inr (Some fid), t) \<and> frame_of t 1 = Some fid \<and>
    fr_page (frames t ! fid) = view sample_pool 1 \<and> view t = view sample_pool \<and> pool_inv t \<and>
    pins t = (pins sample_pool)(1 := pins sample_pool 1 + 1) \<and>
    (\<forall>qid f. pins sample_pool qid > 0 \<longrightarrow> frame_of sample_pool qid = Some f \<longrightarrow> frame_of t qid = Some f)"
  using fetch_page_transparent [OF sample_pool_ok(1,3)] sample_pool_ok(2) by blast

text \<open>Eviction takes the least recently used unpinned frame: when no frame is free, the victim
  is unpinned and every frame used less recently is pinned; if every frame is pinned, nothing is
  evicted and no frame is returned.\<close>

theorem find_free_frame_lru:
  assumes "pool_inv s" "free_frames s = []"
  shows "(exhausted s \<and> find_free_frame s = (Inr None, s)) \<or>
    (\<exists>newer fid older t. lru_list s = newer @ fid # older \<and> pin_count (frames s ! fid) = 0 \<and>
       (\<forall>f \<in> set older. pin_count (frames s ! f) > 0) \<and>
       find_free_frame s = (Inr (Some fid), t) \<and> view t = view s \<and> pins t = pins s)"
proof (cases "exhausted s")
  case True
  then show ?thesis by (simp add: find_free_frame_exhausted)
next
  case False
  let ?P = "\<lambda>fid. pin_count (frames s ! fid) = 0"
  have "\<exists>fid \<in> set (rev (lru_list s)). ?P fid" using False assms(2) by (auto simp: exhausted_def)
  from split_list_first_prop [OF this]
  obtain older' fid newer' where sp: "rev (lru_list s) = older' @ fid # newer'" "?P fid"
    "\<forall>f \<in> set older'. \<not> ?P f"
    by blast
  then have "find ?P (rev (lru_list s)) = Some fid"
    by (simp add: find_append_skip)
  then have r: "find_free_frame s = op_bind (evict_frame fid) (\<lambda>_. op_return (Some fid)) s"
    using assms(2) by (simp add: find_free_frame_def op_simps)
  obtain fid' t where t: "find_free_frame s = (Inr (Some fid'), t)" "keeps s t"
    using find_free_frame_run [OF assms(1) False] by blast
  have "fid' = fid" using r t(1) by (auto simp: op_bind_eq_Inr op_simps dest: sym)
  moreover have "lru_list s = rev newer' @ fid # rev older'"
    using arg_cong [OF sp(1), of rev] by simp
  ultimately show ?thesis using sp t by (fastforce simp: keeps_def)
qed

text \<open>The state of the witness: page 1 was fetched and released, and no frame is free.\<close>

lemma pool_but_no_free: "pool_but X s \<Longrightarrow> pool_but X (s\<lparr>free_frames := []\<rparr>)"
  by (simp add: pool_but_def table_ok_def content_ok_def free_ok_def live_def view_def fl_ready_def
      cong: option.case_cong)

definition sample_busy :: buffer_pool where
  "sample_busy = snd (op_bind (fetch_page 1) (\<lambda>_. unpin_page 1 False) sample_pool)\<lparr>free_frames := []\<rparr>"

lemma sample_busy_ok:
  "pool_inv sample_busy" "free_frames sample_busy = []" "\<not> exhausted sample_busy"
  "live sample_busy 1" "pins sample_busy 1 = 0" "frame_of sample_busy 1 \<noteq> None"
  "free_pages sample_busy = []" "num_pages sample_busy = 2"
proof -
  obtain fid t where t: "fetch_page 1 sample_pool = (Inr (Some fid), t)" "fetched 1 fid sample_pool t"
    using fetch_page_run [OF sample_pool_ok(1,3)] sample_pool_ok(2) by blast
  note F = t(2) [unfolded fetched_def]
  have st: "settled t 1" "pins t 1 = 1" using F sample_pool_ok(5) by simp_all
  obtain u where u: "unpin_page 1 False t = (Inr (), u)" "pool_inv u" "pins u = (pins t)(1 := pins t 1 - 1)"
    "page_table u = page_table t" "free_pages u = free_pages t" "num_pages u = num_pages t"
    using unpin_page_run [of t 1 fid False] F st by blast
  have b: "sample_busy = u\<lparr>free_frames := []\<rparr>" by (simp add: sample_busy_def op_simps t(1) u(1))
  show "pool_inv sample_busy" "free_frames sample_busy = []"
    using pool_but_no_free [OF u(2)] by (simp_all add: b)
  moreover have "pins sample_busy = pins u" by (simp add: b pins_def fun_eq_iff cong: option.case_cong)
  then show p0: "pins sample_busy 1 = 0" using u(3) st by simp
  moreover have fo: "frame_of sample_busy 1 = Some fid" using u(4) F by (simp add: b)
  ultimately show "\<not> exhausted sample_busy" "frame_of sample_busy 1 \<noteq> None"
    using not_exhausted by auto
  show "live sample_busy 1"
    using F u(5,6) sample_pool_ok(3) by (simp add: b live_def valid_pid_def)
  show "free_pages sample_busy = []"
    using F u(5) by (simp add: b) (simp add: sample_pool_def sample_fl_def)
  show "num_pages sample_busy = 2"
    using F u(6) by (simp add: b) (simp add: sample_pool_def sample_fl_def sample_dm_def)
qed

theorem find_free_frame_lru_witness:
  "\<exists>newer fid older t. lru_list sample_busy = newer @ fid # older \<and>
       pin_count (frames sample_busy ! fid) = 0 \<and>
       (\<forall>f \<in> set older. pin_count (frames sample_busy ! f) > 0) \<and>
       find_free_frame sample_busy = (Inr (Some fid), t) \<and> view t = view sample_busy \<and>
       pins t = pins sample_busy"
  using find_free_frame_lru [OF sample_busy_ok(1,2)] sample_busy_ok(3) by blast

text \<open>C24. Flushing makes the pool durable: when every live page is settled (clients that changed a
  page said so on unpinning), \<open>flush_all\<close> leaves no dirty frame and changes no content, and a
  disk manager that opens the file afterwards reads for every live page what the pool held.\<close>

theorem flush_all_durable:
  assumes "pool_inv s" "\<And>pid. live s pid \<Longrightarrow> settled s pid"
  shows "\<exists>t dm. flush_all s = (Inr (), t) \<and> pool_inv t \<and> view t = view s \<and> pins t = pins s \<and>
    (\<forall>pid fid. frame_of t pid = Some fid \<longrightarrow> \<not> is_dirty (frames t ! fid)) \<and>
    DiskManager_open (db_file t) (file_size t) [] = Inr dm \<and>
    (\<forall>pid. live s pid \<longrightarrow> read_page pid new_Page dm = (Inr (view s pid), dm))"
proof -
  obtain t where t: "flush_all s = (Inr (), t)" "pool_inv t" "keeps s t"
    "\<forall>pid fid. frame_of t pid = Some fid \<longrightarrow> \<not> is_dirty (frames t ! fid)"
    "\<forall>pid. settled s pid \<longrightarrow> disk_page t pid = view s pid"
    using flush_all_run [OF assms(1)] by blast
  note D = pool_invD [OF t(2)] and K = t(3) [unfolded keeps_def]
  let ?dm = "\<lparr>db_file = db_file t, file_size = file_size t, num_pages = num_pages t, io_faults = []\<rparr> :: disk_manager"
  have ok: "disk_ok ?dm" "disk_page ?dm = disk_page t"
    using D(5) by (simp_all add: disk_ok_def disk_page_def fun_eq_iff)
  have "read_page pid new_Page ?dm = (Inr (view s pid), ?dm)" if "live s pid" for pid
  proof -
    have "valid_pid ?dm pid" using that K by (simp add: live_def valid_pid_def)
    then show ?thesis using read_page_run [OF ok(1)] ok(2) t(5) assms(2) [OF that] by simp
  qed
  then show ?thesis using t K DiskManager_open_run [OF D(5)] by auto
qed

theorem flush_all_durable_witness:
  "\<exists>pid fid u t dm. new_page sample_pool = (Inr (pid, fid), u) \<and> flush_all u = (Inr (), t) \<and>
    DiskManager_open (db_file t) (file_size t) [] = Inr dm \<and>
    read_page pid new_Page dm = (Inr (set_page_id (\<lambda>_. 0) pid), dm)"
proof -
  have "unat (num_pages sample_pool) < 2147483647"
    by (simp add: sample_pool_def sample_fl_def sample_dm_def)
  then obtain pid fid u where u: "new_page sample_pool = (Inr (pid, fid), u)" "pool_inv u"
    "\<forall>qid. live u qid \<longleftrightarrow> live sample_pool qid \<or> qid = pid" "view u pid = set_page_id (\<lambda>_. 0) pid"
    "\<forall>qid. settled sample_pool qid \<longrightarrow> settled u qid" "settled u pid"
    using new_page_run [OF sample_pool_ok(1,2)] by blast
  have "settled sample_pool qid" for qid by (simp add: settled_def sample_pool_def)
  then have "settled u qid" for qid using u(5) by blast
  then show ?thesis using flush_all_durable [OF u(2)] u by fastforce
qed

text \<open>C25. \<open>new_page\<close> hands out a page nobody uses, whether recycled or at the end of the file: it
  was not live, is now the only page that became live, is zeroed but for its own id, is pinned
  once, and no other page changes content, loses its pins or moves while pinned.\<close>

theorem new_page_fresh:
  assumes "pool_inv s" "\<not> exhausted s" "free_pages s \<noteq> [] \<or> unat (num_pages s) < 2147483647"
  shows "\<exists>pid fid t. new_page s = (Inr (pid, fid), t) \<and> pool_inv t \<and>
    \<not> live s pid \<and> (\<forall>qid. live t qid \<longleftrightarrow> live s qid \<or> qid = pid) \<and>
    view t pid = set_page_id (\<lambda>_. 0) pid \<and> (\<forall>qid. live s qid \<longrightarrow> view t qid = view s qid) \<and>
    frame_of t pid = Some fid \<and> pins t = (pins s)(pid := 1) \<and>
    (\<forall>qid f. pins s qid > 0 \<longrightarrow> frame_of s qid = Some f \<longrightarrow> frame_of t qid = Some f)"
  using new_page_run [OF assms] by blast

theorem new_page_fresh_witness:
  "\<exists>pid fid t. new_page sample_busy = (Inr (pid, fid), t) \<and> pool_inv t \<and>
    \<not> live sample_busy pid \<and> live t 1 \<and> live t pid \<and> view t 1 = view sample_busy 1"
  using new_page_fresh [OF sample_busy_ok(1,3)] sample_busy_ok(4,8) by fastforce

text \<open>\<open>delete_page\<close> puts an unpinned page on the free list and leaves every other page as it
  was, but the frame that held it is lost: \<open>evict_frame\<close> does not return it to
  \<open>free_frames_\<close>, so the pool can use one frame less from then on.\<close>

theorem delete_page_leaks_frame:
  assumes "pool_inv s" "live s pid" "pins s pid = 0" "length (free_pages s) < MAX_FREE_PAGES"
    and "frame_of s pid = Some fid"
  shows "\<exists>t. delete_page pid s = (Inr (), t) \<and> pool_inv t \<and> free_pages t = free_pages s @ [pid] \<and>
    (\<forall>qid. live t qid \<longleftrightarrow> live s qid \<and> qid \<noteq> pid) \<and> (\<forall>qid. live t qid \<longrightarrow> view t qid = view s qid) \<and>
    pins t = pins s \<and> fid \<in> usable s \<and> usable t = usable s - {fid}"
proof -
  let ?t = "saved (discarded pid s\<lparr>free_pages := free_pages s @ [pid]\<rparr>)"
  note I = delete_page_inv [OF assms(1-4)] and D = pool_invD [OF assms(1)]
  have t: "table_ok (undirty fid s)"
    unfolding undirty_def by (rule table_ok_upd_frame [OF D(1)]) simp
  have "usable ?t = usable (dropped pid fid (undirty fid s))"
    using assms(5) by (simp add: usable_def saved_def discarded_def)
  also have "\<dots> = usable s - {fid}"
    using usable_dropped [OF t, of pid fid] assms(5) by (simp add: usable_def)
  finally have "usable ?t = usable s - {fid}" .
  moreover have "fid \<in> usable s" using map_of_SomeD [OF assms(5)] by (force simp: usable_def)
  ultimately show ?thesis using delete_page_run [OF assms(1-4)] I by auto
qed

theorem delete_page_leaks_frame_witness:
  "\<exists>fid t. delete_page 1 sample_busy = (Inr (), t) \<and> fid \<in> usable sample_busy \<and>
    usable t = usable sample_busy - {fid} \<and> free_pages t = [1]"
proof -
  obtain fid where "frame_of sample_busy 1 = Some fid" using sample_busy_ok(6) by blast
  with delete_page_leaks_frame [OF sample_busy_ok(1,4,5)] sample_busy_ok(7) show ?thesis
    by fastforce
qed

text \<open>Fetching a page id the file does not have throws, leaves every page as it was and keeps
  the invariant, but again costs the pool a frame: the frame was taken before the read.\<close>

theorem fetch_page_bad_id_leaks:
  assumes "pool_inv s" "\<not> valid_pid s pid" "\<not> exhausted s"
  shows "\<exists>fid t. fetch_page pid s = (Inl Out_of_range, t) \<and> pool_inv t \<and> keeps s t \<and>
    fid \<in> usable s \<and> usable t = usable s - {fid}"
proof -
  note D = pool_invD [OF assms(1)]
  have none: "frame_of s pid = None"
    using content_okD(2) [OF D(2), of pid] assms(2) liveD by (cases "frame_of s pid") auto
  obtain fid t where t: "find_free_frame s = (Inr (Some fid), t)" "pool_inv t" "keeps s t" "unused t fid"
    "insert fid (usable t) = usable s"
    using find_free_frame_run [OF assms(1,3)] by blast
  have "num_pages t = num_pages s" using t(3) by (simp add: keeps_def)
  then have "pid <s 0 \<or> num_pages t \<le>s pid" using assms(2) not_sle [of "num_pages s" pid] by (auto simp: valid_pid_def)
  then have "fetch_page pid s = (Inl Out_of_range, t)"
    using none t(1) by (simp add: fetch_page_def read_page_def op_simps)
  moreover have "fid \<notin> usable t" using t(4) by (simp add: unused_def usable_def)
  ultimately show ?thesis using t by blast
qed

theorem fetch_page_bad_id_leaks_witness:
  "\<exists>fid t. fetch_page 2 sample_pool = (Inl Out_of_range, t) \<and> pool_inv t \<and> keeps sample_pool t \<and>
    fid \<in> usable sample_pool \<and> usable t = usable sample_pool - {fid}"
proof -
  have "valid_pid sample_pool = valid_pid sample_dm"
    by (simp add: valid_pid_def sample_pool_def sample_fl_def fun_eq_iff)
  then have "\<not> valid_pid sample_pool 2" using sample_ok(2) [of 2] by simp
  then show ?thesis using fetch_page_bad_id_leaks [OF sample_pool_ok(1) _ sample_pool_ok(2)] by blast
qed

end
