(* ===== verification/Node.thy ===== *)
theory Node
  imports Page
begin

section \<open>B+Tree nodes as slotted pages (\<open>src/src/btree/node.{h,cpp}\<close>, \<open>btree_defs.h\<close>)\<close>

text \<open>
  A node is a view of a page: a 32-byte \<open>NodeHeader\<close> at the start of the data area, an array
  of 2-byte slots growing upwards in key order, and a heap of cells growing downwards. The
  operations below work on the bytes of the page, as the source does; reads may fail with a
  failed \<open>assert\<close>, and changes are operations on the page. The operations that move cells
  between nodes and need the buffer pool (merging and stealing) are in the theory of the tree.

  Counters declared \<open>uint16_t\<close> are natural numbers; a value stored in a header field or a
  slot is truncated by \<open>put16\<close>.
\<close>

subsection \<open>Layout\<close>

definition NODE_HEADER_SIZE :: nat where "NODE_HEADER_SIZE = 32"

definition SLOT_ARRAY_START :: nat where "SLOT_ARRAY_START = NODE_HEADER_SIZE"

definition NODE_DATA_SIZE :: nat where "NODE_DATA_SIZE = DATA_SIZE"

definition NODE_USABLE_SIZE :: nat where "NODE_USABLE_SIZE = DATA_SIZE - NODE_HEADER_SIZE"

definition leaf_cell_size :: "nat \<Rightarrow> nat \<Rightarrow> nat" where
  "leaf_cell_size key_len val_len = 2 + key_len + 2 + val_len"

definition internal_cell_size :: "nat \<Rightarrow> nat" where
  "internal_cell_size key_len = 2 + key_len + 4"

definition total_cell_cost :: "nat \<Rightarrow> nat" where
  "total_cell_cost cell_payload_bytes = 2 + cell_payload_bytes"

definition num_keys :: "page \<Rightarrow> nat" where "num_keys p = get16 p (data_off 0)"

definition free_end :: "page \<Rightarrow> nat" where "free_end p = get16 p (data_off 2)"

definition cell_end :: "page \<Rightarrow> nat" where "cell_end p = get16 p (data_off 4)"

definition parent_id :: "page \<Rightarrow> page_id" where "parent_id p = get32 p (data_off 8)"

definition right_sibling :: "page \<Rightarrow> page_id" where "right_sibling p = get32 p (data_off 12)"

definition left_sibling :: "page \<Rightarrow> page_id" where "left_sibling p = get32 p (data_off 16)"

definition first_child :: "page \<Rightarrow> page_id" where "first_child p = get32 p (data_off 20)"

definition set_num_keys :: "nat \<Rightarrow> page \<Rightarrow> page" where "set_num_keys n p = put16 p (data_off 0) n"

definition set_free_end :: "nat \<Rightarrow> page \<Rightarrow> page" where "set_free_end n p = put16 p (data_off 2) n"

definition set_cell_end :: "nat \<Rightarrow> page \<Rightarrow> page" where "set_cell_end n p = put16 p (data_off 4) n"

definition set_parent_id :: "page_id \<Rightarrow> page \<Rightarrow> page" where "set_parent_id i p = put32 p (data_off 8) i"

definition set_right_sibling :: "page_id \<Rightarrow> page \<Rightarrow> page" where "set_right_sibling i p = put32 p (data_off 12) i"

definition set_left_sibling :: "page_id \<Rightarrow> page \<Rightarrow> page" where "set_left_sibling i p = put32 p (data_off 16) i"

definition set_first_child :: "page_id \<Rightarrow> page \<Rightarrow> page" where "set_first_child i p = put32 p (data_off 20) i"

definition slot_at :: "page \<Rightarrow> nat \<Rightarrow> nat" where
  "slot_at p i = get16 p (data_off (SLOT_ARRAY_START + 2 * i))"

definition set_slot :: "nat \<Rightarrow> nat \<Rightarrow> page \<Rightarrow> page" where
  "set_slot i off p = put16 p (data_off (SLOT_ARRAY_START + 2 * i)) off"

definition is_leaf :: "page \<Rightarrow> bool" where
  "is_leaf p \<longleftrightarrow> page_type p = page_type_code BTREE_LEAF"

subsection \<open>Construction\<close>

text \<open>The constructor \<open>Node(Page*)\<close> checks the type of the page it wraps.\<close>

definition Node_check :: "page \<Rightarrow> bool" where
  "Node_check p \<longleftrightarrow> page_type p = page_type_code BTREE_LEAF \<or> page_type p = page_type_code BTREE_INTERNAL"

definition node_header :: "page_id \<Rightarrow> bytes" where
  "node_header par = le 2 0 @ le 2 SLOT_ARRAY_START @ le 2 NODE_DATA_SIZE @ le 2 0 @ le 4 (unat par) @
     le 4 (unat INVALID_PAGE_ID) @ le 4 (unat INVALID_PAGE_ID) @ le 4 (unat INVALID_PAGE_ID) @ le 4 0 @ le 4 0"

definition init_leaf :: "page_id \<Rightarrow> page_id \<Rightarrow> page \<Rightarrow> page" where
  "init_leaf pid par p =
     memcpy (set_page_type (set_page_id (clear p) pid) BTREE_LEAF) (data_off 0) (node_header par)"

definition init_internal :: "page_id \<Rightarrow> page_id \<Rightarrow> page \<Rightarrow> page" where
  "init_internal pid par p =
     memcpy (set_page_type (set_page_id (clear p) pid) BTREE_INTERNAL) (data_off 0) (node_header par)"

subsection \<open>Capacity\<close>

definition free_space :: "page \<Rightarrow> exc + nat" where
  "free_space p = res_bind (res_assert (free_end p \<le> cell_end p)) (\<lambda>_. Inr (cell_end p - free_end p))"

definition is_full :: "nat \<Rightarrow> page \<Rightarrow> exc + bool" where
  "is_full new_cell_bytes p = res_bind (free_space p) (\<lambda>f. Inr (f < total_cell_cost new_cell_bytes))"

definition underflow :: "page \<Rightarrow> exc + bool" where
  "underflow p = res_bind (free_space p) (\<lambda>f. Inr (size_sub NODE_USABLE_SIZE f < NODE_USABLE_SIZE div 2))"

subsection \<open>Access and search\<close>

definition key_at :: "nat \<Rightarrow> page \<Rightarrow> exc + bytes" where
  "key_at slot p = res_bind (res_assert (slot < num_keys p)) (\<lambda>_.
     let c = data_off (slot_at p slot); klen = get16 p c in Inr (peek p (c + 2) klen))"

definition value_at :: "nat \<Rightarrow> page \<Rightarrow> exc + bytes" where
  "value_at slot p = res_bind (res_assert (is_leaf p)) (\<lambda>_.
     res_bind (res_assert (slot < num_keys p)) (\<lambda>_.
     let c = data_off (slot_at p slot); klen = get16 p c; vlen = get16 p (c + 2 + klen)
     in Inr (peek p (c + 2 + klen + 2) vlen)))"

definition child_at :: "nat \<Rightarrow> page \<Rightarrow> exc + page_id" where
  "child_at slot p = res_bind (res_assert (\<not> is_leaf p)) (\<lambda>_.
     res_bind (res_assert (slot < num_keys p)) (\<lambda>_.
     let c = data_off (slot_at p slot); klen = get16 p c in Inr (get32 p (c + 2 + klen))))"

function lower_bound_loop :: "bytes \<Rightarrow> page \<Rightarrow> nat \<Rightarrow> nat \<Rightarrow> exc + nat" where
  "lower_bound_loop key p lo hi =
     (if lo < hi then
        let mid = lo + (hi - lo) div 2
        in res_bind (key_at mid p) (\<lambda>k.
             if k < key then lower_bound_loop key p (mid + 1) hi else lower_bound_loop key p lo mid)
      else Inr lo)"
  by pat_completeness auto
termination
  by (relation "measure (\<lambda>(key, p, lo, hi). hi - lo)") auto

declare lower_bound_loop.simps [simp del]

definition lower_bound :: "bytes \<Rightarrow> page \<Rightarrow> exc + nat" where
  "lower_bound key p = lower_bound_loop key p 0 (num_keys p)"

subsection \<open>Slots and cells\<close>

fun shift_right_loop :: "nat \<Rightarrow> nat \<Rightarrow> page \<Rightarrow> page" where
  "shift_right_loop i from_slot p =
     (if i > from_slot then shift_right_loop (i - 1) from_slot (set_slot i (slot_at p (i - 1)) p) else p)"

declare shift_right_loop.simps [simp del]

definition shift_slots_right :: "nat \<Rightarrow> page \<Rightarrow> page" where
  "shift_slots_right from_slot p = shift_right_loop (num_keys p) from_slot p"

function shift_left_loop :: "nat \<Rightarrow> nat \<Rightarrow> page \<Rightarrow> page" where
  "shift_left_loop i n p =
     (if i + 1 < n then shift_left_loop (i + 1) n (set_slot i (slot_at p (i + 1)) p) else p)"
  by pat_completeness auto
termination
  by (relation "measure (\<lambda>(i, n, p). n - i)") auto

declare shift_left_loop.simps [simp del]

definition shift_slots_left :: "nat \<Rightarrow> page \<Rightarrow> page" where
  "shift_slots_left from_slot p = shift_left_loop from_slot (num_keys p) p"

text \<open>The bytes of a cell; the consecutive \<open>memcpy\<close> calls of the source write them in this
  order.\<close>

definition leaf_cell :: "bytes \<Rightarrow> bytes \<Rightarrow> bytes" where
  "leaf_cell key val = le 2 (length key) @ key @ le 2 (length val) @ val"

definition internal_cell :: "bytes \<Rightarrow> page_id \<Rightarrow> bytes" where
  "internal_cell key right_child = le 2 (length key) @ key @ le 4 (unat right_child)"

text \<open>Carve room for a cell from the heap, write it, and enter it at \<open>insert_slot\<close>: the part
  that \<open>write_leaf_cell\<close>, \<open>write_internal_cell\<close> and \<open>steal_from_left\<close> have in
  common.\<close>

definition place_cell :: "nat \<Rightarrow> nat \<Rightarrow> bytes \<Rightarrow> page \<Rightarrow> page" where
  "place_cell insert_slot payload cell p =
     (let cell_off = u16_sub (cell_end p) payload;
          p1 = set_cell_end cell_off p;
          p2 = memcpy p1 (data_off cell_off) cell;
          p3 = set_slot insert_slot cell_off (shift_slots_right insert_slot p2);
          p4 = set_free_end (free_end p3 + 2) p3
      in set_num_keys (num_keys p4 + 1) p4)"

definition write_leaf_cell :: "nat \<Rightarrow> bytes \<Rightarrow> bytes \<Rightarrow> (page, unit) op" where
  "write_leaf_cell insert_slot key val =
     (let payload = leaf_cell_size (length key) (length val) in
      op_bind (op_read (is_full payload)) (\<lambda>full.
      op_bind (op_assert (\<lambda>_. \<not> full)) (\<lambda>_.
      op_modify (place_cell insert_slot payload (leaf_cell key val)))))"

definition write_internal_cell :: "nat \<Rightarrow> bytes \<Rightarrow> page_id \<Rightarrow> (page, unit) op" where
  "write_internal_cell insert_slot key right_child =
     (let payload = internal_cell_size (length key) in
      op_bind (op_read (is_full payload)) (\<lambda>full.
      op_bind (op_assert (\<lambda>_. \<not> full)) (\<lambda>_.
      op_modify (place_cell insert_slot payload (internal_cell key right_child)))))"

text \<open>\<open>compact\<close> collects the cells, clears the page, restores the page id, the page type and
  the node header with reset counters, and writes the cells back. \<open>page_lsn\<close> is not
  restored.\<close>

definition compact_reset :: "page \<Rightarrow> page" where
  "compact_reset p =
     (let p1 = set_page_id (clear p) (page_id p);
          p2 = put32 p1 4 (page_type p);
          p3 = memcpy p2 (data_off 0) (peek p (data_off 0) NODE_HEADER_SIZE)
      in set_first_child (first_child p)
          (set_cell_end NODE_DATA_SIZE (set_free_end SLOT_ARRAY_START (set_num_keys 0 p3))))"

definition compact :: "(page, unit) op" where
  "compact = op_bind (op_gets num_keys) (\<lambda>n.
     if n = 0 then op_modify (set_cell_end NODE_DATA_SIZE)
     else op_bind (op_gets is_leaf) (\<lambda>leaf.
       if leaf then
         op_bind (op_read (\<lambda>p. res_map (\<lambda>i. res_bind (key_at i p) (\<lambda>k.
           res_bind (value_at i p) (\<lambda>v. Inr (k, v)))) [0..<n])) (\<lambda>cells.
         op_bind (op_modify compact_reset) (\<lambda>_.
         op_foreach (\<lambda>(k, v). op_bind (op_gets num_keys) (\<lambda>i. write_leaf_cell i k v)) cells))
       else
         op_bind (op_read (\<lambda>p. res_map (\<lambda>i. res_bind (key_at i p) (\<lambda>k.
           res_bind (child_at i p) (\<lambda>c. Inr (k, c)))) [0..<n])) (\<lambda>cells.
         op_bind (op_modify compact_reset) (\<lambda>_.
         op_foreach (\<lambda>(k, c). op_bind (op_gets num_keys) (\<lambda>i. write_internal_cell i k c)) cells))))"

definition remove_cell :: "nat \<Rightarrow> (page, unit) op" where
  "remove_cell slot =
     op_bind (op_assert (\<lambda>p. slot < num_keys p)) (\<lambda>_.
     op_bind (op_modify (shift_slots_left slot)) (\<lambda>_.
     op_bind (op_modify (\<lambda>p. set_num_keys (u16_sub (num_keys p) 1) p)) (\<lambda>_.
     op_modify (\<lambda>p. set_free_end (u16_sub (free_end p) 2) p))))"

subsection \<open>Insertion and update\<close>

text \<open>The end of \<open>insert_leaf_cell\<close> and of \<open>insert_separator\<close>: compact when
  fragmentation is in the way, give up when there is no room even so.\<close>

definition insert_with_room :: "nat \<Rightarrow> (page, unit) op \<Rightarrow> (page, bool) op" where
  "insert_with_room payload wr =
     op_bind (op_read (is_full payload)) (\<lambda>full.
     op_bind (if full then compact else op_return ()) (\<lambda>_.
     op_bind (op_read (is_full payload)) (\<lambda>full'.
     if full' then op_return False else op_bind wr (\<lambda>_. op_return True))))"

definition insert_leaf_cell :: "bytes \<Rightarrow> bytes \<Rightarrow> (page, bool) op" where
  "insert_leaf_cell key val =
     (let payload = leaf_cell_size (length key) (length val);
          insert_at = (\<lambda>slot. insert_with_room payload (write_leaf_cell slot key val)) in
      op_bind (op_assert is_leaf) (\<lambda>_.
      op_bind (op_read (lower_bound key)) (\<lambda>slot.
      op_bind (op_read (\<lambda>p. if slot < num_keys p
                             then res_bind (key_at slot p) (\<lambda>k. Inr (k = key)) else Inr False)) (\<lambda>present.
      if present then
        op_bind (op_read (value_at slot)) (\<lambda>old_val.
        if length old_val = length val then
          op_bind (op_modify (\<lambda>p. let c = data_off (slot_at p slot); klen = get16 p c
                                    in memcpy p (c + 2 + klen + 2) val)) (\<lambda>_.
          op_return True)
        else
          op_bind (remove_cell slot) (\<lambda>_.
          op_bind (op_read (lower_bound key)) insert_at))
      else insert_at slot))))"

definition insert_separator :: "bytes \<Rightarrow> page_id \<Rightarrow> (page, bool) op" where
  "insert_separator key right_child =
     op_bind (op_assert (\<lambda>p. \<not> is_leaf p)) (\<lambda>_.
     op_bind (op_read (lower_bound key)) (\<lambda>slot.
     insert_with_room (internal_cell_size (length key)) (write_internal_cell slot key right_child)))"

definition update_separator_key :: "nat \<Rightarrow> bytes \<Rightarrow> (page, unit) op" where
  "update_separator_key slot new_key =
     op_bind (op_assert (\<lambda>p. \<not> is_leaf p)) (\<lambda>_.
     op_bind (op_assert (\<lambda>p. slot < num_keys p)) (\<lambda>_.
     op_bind (op_read (key_at slot)) (\<lambda>k.
     op_bind (op_assert (\<lambda>_. length k = length new_key)) (\<lambda>_.
     op_modify (\<lambda>p. let c = data_off (slot_at p slot)
                      in memcpy p c (le 2 (length new_key) @ new_key))))))"

definition update_child_at :: "nat \<Rightarrow> page_id \<Rightarrow> (page, unit) op" where
  "update_child_at slot child_id =
     op_bind (op_assert (\<lambda>p. \<not> is_leaf p)) (\<lambda>_.
     op_bind (op_assert (\<lambda>p. slot < num_keys p)) (\<lambda>_.
     op_modify (\<lambda>p. let c = data_off (slot_at p slot); klen = get16 p c
                      in put32 p (c + 2 + klen) child_id)))"

subsection \<open>Splitting\<close>

text \<open>The walk that looks for the byte midpoint; \<open>cost i\<close> is the space of cell \<open>i\<close> with its
  slot.\<close>

function split_loop :: "(nat \<Rightarrow> exc + nat) \<Rightarrow> nat \<Rightarrow> nat \<Rightarrow> nat \<Rightarrow> nat \<Rightarrow> nat \<Rightarrow> exc + nat" where
  "split_loop cost half n i acc idx =
     (if i < n then res_bind (cost i) (\<lambda>cell_bytes.
        if acc + cell_bytes > half \<and> i > 0 then Inr i
        else split_loop cost half n (i + 1) (acc + cell_bytes) (i + 1))
      else Inr idx)"
  by pat_completeness auto
termination
  by (relation "measure (\<lambda>(cost, half, n, i, acc, idx). n - i)") auto

declare split_loop.simps [simp del]

definition leaf_cost :: "page \<Rightarrow> nat \<Rightarrow> exc + nat" where
  "leaf_cost p i = res_bind (key_at i p) (\<lambda>k. res_bind (value_at i p) (\<lambda>v.
     Inr (leaf_cell_size (length k) (length v) + 2)))"

definition internal_cost :: "page \<Rightarrow> nat \<Rightarrow> exc + nat" where
  "internal_cost p i = res_bind (key_at i p) (\<lambda>k. Inr (internal_cell_size (length k) + 2))"

definition split_point :: "(page \<Rightarrow> nat \<Rightarrow> exc + nat) \<Rightarrow> page \<Rightarrow> exc + nat" where
  "split_point cost p = res_bind (free_space p) (\<lambda>f.
     split_loop (cost p) (size_sub NODE_USABLE_SIZE f div 2) (num_keys p) 0 0 0)"

text \<open>The two nodes of a split are the two components of the state: \<open>this\<close> and \<open>right\<close>.\<close>

definition split_leaf :: "(page \<times> page, bytes) op" where
  "split_leaf = op_bind (op_gets (\<lambda>(p, q). num_keys p)) (\<lambda>n.
     op_bind (op_read (\<lambda>(p, q). split_point leaf_cost p)) (\<lambda>split_idx.
     op_bind (op_read (\<lambda>(p, q). key_at split_idx p)) (\<lambda>separator_key.
     op_bind (op_foreach (\<lambda>i.
       op_bind (op_read (\<lambda>(p, q). key_at i p)) (\<lambda>k.
       op_bind (op_read (\<lambda>(p, q). value_at i p)) (\<lambda>v.
       op_bind (op_snd (insert_leaf_cell k v)) (\<lambda>ok. op_assert (\<lambda>_. ok))))) [split_idx..<n]) (\<lambda>_.
     op_bind (op_foreach (\<lambda>i. op_fst (remove_cell i)) (rev [split_idx..<n])) (\<lambda>_.
     op_bind (op_modify (\<lambda>(p, q). (p, set_left_sibling (page_id p) (set_right_sibling (right_sibling p) q)))) (\<lambda>_.
     op_bind (op_modify (\<lambda>(p, q). (set_right_sibling (page_id q) p, q))) (\<lambda>_.
     op_return separator_key)))))))"

definition clamp_mid :: "nat \<Rightarrow> nat \<Rightarrow> nat" where
  "clamp_mid mid0 n = (let mid1 = (if mid0 = 0 then 1 else mid0) in if mid1 \<ge> n - 1 then n - 1 else mid1)"

definition split_internal :: "(page \<times> page, bytes) op" where
  "split_internal = op_bind (op_gets (\<lambda>(p, q). num_keys p)) (\<lambda>n.
     op_bind (op_read (\<lambda>(p, q). split_point internal_cost p)) (\<lambda>mid0.
     let mid = clamp_mid mid0 n in
     op_bind (op_read (\<lambda>(p, q). key_at mid p)) (\<lambda>separator_key.
     op_bind (op_read (\<lambda>(p, q). child_at mid p)) (\<lambda>c.
     op_bind (op_modify (\<lambda>(p, q). (p, set_first_child c q))) (\<lambda>_.
     op_bind (op_foreach (\<lambda>i.
       op_bind (op_read (\<lambda>(p, q). key_at i p)) (\<lambda>k.
       op_bind (op_read (\<lambda>(p, q). child_at i p)) (\<lambda>c.
       op_bind (op_snd (insert_separator k c)) (\<lambda>ok. op_assert (\<lambda>_. ok))))) [mid + 1..<n]) (\<lambda>_.
     op_bind (op_foreach (\<lambda>i. op_fst (remove_cell i)) (rev [mid..<n])) (\<lambda>_.
     op_return separator_key)))))))"

definition split_into :: "(page \<times> page, bytes) op" where
  "split_into =
     op_bind (op_assert (\<lambda>(p, q). num_keys p \<ge> 2)) (\<lambda>_.
     op_bind (op_assert (\<lambda>(p, q). num_keys q = 0)) (\<lambda>_.
     op_bind (op_modify (\<lambda>(p, q). (p, set_parent_id (parent_id p) q))) (\<lambda>_.
     op_bind (op_gets (\<lambda>(p, q). is_leaf p)) (\<lambda>leaf.
     if leaf then split_leaf else split_internal))))"

end
