(* ===== verification/Sorted_Map.thy ===== *)
theory Sorted_Map
  imports Prelude
begin

section \<open>Maps as lists sorted by key\<close>

text \<open>
  The abstract content of a leaf, of an internal node and of a whole tree: an association list
  with strictly increasing keys. \<open>put_key\<close> and \<open>del_key\<close> are the reference
  implementations that the operations on nodes and trees are compared with; \<open>lb\<close> is the
  position a search for the first key not below the given one has to find.
\<close>

abbreviation sorted_keys :: "('k::linorder \<times> 'v) list \<Rightarrow> bool" where
  "sorted_keys cs \<equiv> sorted_wrt (<) (map fst cs)"

fun put_key :: "'k::linorder \<Rightarrow> 'v \<Rightarrow> ('k \<times> 'v) list \<Rightarrow> ('k \<times> 'v) list" where
  "put_key k v [] = [(k, v)]"
| "put_key k v (c # cs) =
     (if fst c < k then c # put_key k v cs else if fst c = k then (k, v) # cs else (k, v) # c # cs)"

fun del_key :: "'k::linorder \<Rightarrow> ('k \<times> 'v) list \<Rightarrow> ('k \<times> 'v) list" where
  "del_key k [] = []"
| "del_key k (c # cs) = (if fst c = k then cs else c # del_key k cs)"

definition lb :: "'k::linorder \<Rightarrow> ('k \<times> 'v) list \<Rightarrow> nat" where
  "lb k cs = length (takeWhile (\<lambda>c. fst c < k) cs)"

lemma lb_simps [simp]:
  "lb k [] = 0" "lb k (c # cs) = (if fst c < k then Suc (lb k cs) else 0)"
  by (simp_all add: lb_def)

lemma lb_le [simp]: "lb k cs \<le> length cs"
  by (simp add: lb_def length_takeWhile_le)

lemma lb_iff: "sorted_keys cs \<Longrightarrow> i < length cs \<Longrightarrow> fst (cs ! i) < k \<longleftrightarrow> i < lb k cs"
proof (induction cs arbitrary: i)
  case (Cons c cs)
  then show ?case
    by (cases i) (auto, metis less_trans nth_mem)
qed simp

lemma lb_last: "sorted_keys (cs @ [c]) \<Longrightarrow> lb (fst c) cs = length cs"
  by (induction cs) auto

lemma lb_present:
  assumes "sorted_keys cs"
  shows "k \<in> fst ` set cs \<longleftrightarrow> lb k cs < length cs \<and> fst (cs ! lb k cs) = k"
  using assms
proof (induction cs)
  case (Cons c cs)
  show ?case
  proof (cases "fst c < k")
    case True
    then show ?thesis using Cons by auto
  next
    case False
    then show ?thesis using Cons.prems by (auto simp: not_less)
  qed
qed simp

lemma put_key_lb:
  assumes "sorted_keys cs"
  shows "put_key k v cs = take (lb k cs) cs @ (k, v) # drop (if k \<in> fst ` set cs then Suc (lb k cs) else lb k cs) cs"
  using assms
proof (induction cs)
  case (Cons c cs)
  then show ?case by (force simp: not_less)
qed simp

lemma del_key_lb:
  assumes "sorted_keys cs"
  shows "del_key k cs = (if k \<in> fst ` set cs then take (lb k cs) cs @ drop (Suc (lb k cs)) cs else cs)"
  using assms
proof (induction cs)
  case (Cons c cs)
  then show ?case by (force simp: not_less)
qed simp

lemma del_key_absent [simp]: "k \<notin> fst ` set cs \<Longrightarrow> del_key k cs = cs"
  by (induction cs) auto

lemma set_put_key: "fst ` set (put_key k v cs) = insert k (fst ` set cs)"
  by (induction cs) auto

lemma set_del_key: "sorted_keys cs \<Longrightarrow> fst ` set (del_key k cs) = fst ` set cs - {k}"
  by (induction cs) auto

lemma sorted_put_key [simp]: "sorted_keys cs \<Longrightarrow> sorted_keys (put_key k v cs)"
proof (induction cs)
  case (Cons c cs)
  have "x \<in> fst ` set (put_key k v cs) \<Longrightarrow> x = k \<or> x \<in> fst ` set cs" for x
    using set_put_key [of k v cs] by auto
  with Cons show ?case by (auto simp: not_less; fastforce)
qed simp

lemma del_key_subset: "set (del_key k cs) \<subseteq> set cs"
  by (induction cs) auto

lemma sorted_del_key [simp]: "sorted_keys cs \<Longrightarrow> sorted_keys (del_key k cs)"
proof (induction cs)
  case (Cons c cs)
  then show ?case using del_key_subset [of k cs] by (auto dest!: subsetD)
qed simp

lemma map_of_put_key: "sorted_keys cs \<Longrightarrow> map_of (put_key k v cs) = (map_of cs)(k \<mapsto> v)"
  by (induction cs) (auto simp: fun_eq_iff)

lemma map_of_del_key: "sorted_keys cs \<Longrightarrow> map_of (del_key k cs) = (map_of cs)(k := None)"
proof (induction cs)
  case (Cons c cs)
  then have "fst c \<notin> fst ` set cs" by auto
  then have "map_of cs (fst c) = None" by (simp add: map_of_eq_None_iff)
  with Cons show ?case by (auto simp: fun_eq_iff)
qed simp

lemma map_of_lb:
  assumes "sorted_keys cs"
  shows "map_of cs k = (if lb k cs < length cs \<and> fst (cs ! lb k cs) = k then Some (snd (cs ! lb k cs)) else None)"
proof (cases "k \<in> fst ` set cs")
  case True
  then have i: "lb k cs < length cs" "fst (cs ! lb k cs) = k" using lb_present [OF assms] by auto
  have "distinct (map fst cs)" using assms strict_sorted_iff by blast
  then have "map_of cs (fst (cs ! lb k cs)) = Some (snd (cs ! lb k cs))"
    using nth_mem [OF i(1)] by (intro map_of_is_SomeI) auto
  with i show ?thesis by simp
next
  case False
  then have "\<not> (lb k cs < length cs \<and> fst (cs ! lb k cs) = k)" "map_of cs k = None"
    using lb_present [OF assms, of k] by (simp_all add: map_of_eq_None_iff)
  then show ?thesis by presburger
qed

lemma sorted_keys_append:
  "sorted_keys (as @ bs) \<longleftrightarrow> sorted_keys as \<and> sorted_keys bs \<and> (\<forall>a \<in> set as. \<forall>b \<in> set bs. fst a < fst b)"
  by (auto simp: sorted_wrt_append)

lemma sorted_keys_take_drop: "sorted_keys cs \<Longrightarrow> sorted_keys (take i cs) \<and> sorted_keys (drop i cs)"
  by (simp add: take_map [symmetric] drop_map [symmetric] sorted_wrt_take sorted_wrt_drop)

lemma put_key_last: "sorted_keys (cs @ [(k, v)]) \<Longrightarrow> put_key k v cs = cs @ [(k, v)]"
  by (induction cs) auto

lemma put_key_absent: "sorted_keys cs \<Longrightarrow> k \<notin> fst ` set cs \<Longrightarrow>
  put_key k v cs = take (lb k cs) cs @ (k, v) # drop (lb k cs) cs"
  by (subst put_key_lb) simp_all

lemma put_key_present: "sorted_keys cs \<Longrightarrow> k \<in> fst ` set cs \<Longrightarrow> put_key k v cs = cs[lb k cs := (k, v)]"
  using lb_present [of cs k] by (simp add: put_key_lb upd_conv_take_nth_drop)

lemma put_del_key: "sorted_keys cs \<Longrightarrow> put_key k v (del_key k cs) = put_key k v cs"
proof (induction cs)
  case (Cons c cs)
  then show ?case by (cases cs) auto
qed simp

text \<open>The number of keys not above the given one: where a search goes on to the right of equal keys.\<close>

definition ubound :: "'k::linorder \<Rightarrow> ('k \<times> 'v) list \<Rightarrow> nat" where
  "ubound k cs = length (takeWhile (\<lambda>c. fst c \<le> k) cs)"

lemma ubound_lb: "sorted_keys cs \<Longrightarrow> ubound k cs = (if k \<in> fst ` set cs then Suc (lb k cs) else lb k cs)"
proof (induction cs)
  case (Cons c cs)
  show ?case
  proof (cases "fst c < k")
    case False
    then have "takeWhile (\<lambda>c. fst c \<le> k) cs = []" using Cons.prems by (cases cs) (auto simp: not_less)
    with False Cons.prems show ?thesis by (auto simp: ubound_def not_less)
  qed (use Cons in \<open>auto simp: ubound_def\<close>)
qed (simp add: ubound_def)

lemma ubound_split:
  assumes "sorted_keys cs"
  shows "ubound k cs \<le> length cs" "\<forall>c \<in> set (take (ubound k cs) cs). fst c \<le> k" "\<forall>c \<in> set (drop (ubound k cs) cs). k < fst c"
proof -
  show "ubound k cs \<le> length cs" by (simp add: ubound_def length_takeWhile_le)
  show "\<forall>c \<in> set (take (ubound k cs) cs). fst c \<le> k"
    by (auto simp: ubound_def takeWhile_eq_take [symmetric] dest: set_takeWhileD)
  show "\<forall>c \<in> set (drop (ubound k cs) cs). k < fst c"
    using assms
  proof (induction cs)
    case (Cons c cs)
    then show ?case by (auto simp: ubound_def not_le split: if_splits)
  qed simp
qed

end
