(* ===== verification/Slotted_Page.thy ===== *)
theory Slotted_Page
  imports Node Sorted_Map
begin

section \<open>The list of cells a slotted page represents\<close>

text \<open>
  \<open>slotted ft p cs\<close> says that the bytes of page \<open>p\<close> represent the list of cells
  \<open>cs\<close>: the counters agree with it, slot \<open>i\<close> points to the encoding of cell \<open>i\<close>
  inside the heap, and no two cells overlap. A cell is a key and a payload; how the payload is
  encoded after the key is the parameter \<open>ft\<close>, because leaves (values) and internal nodes
  (child pointers) differ in nothing else. Every operation of a node is shown to act on the
  represented list the way its name says, and to keep the page within its 4096 bytes.
\<close>

definition encode :: "('x \<Rightarrow> bytes) \<Rightarrow> bytes \<times> 'x \<Rightarrow> bytes" where
  "encode ft c = le 2 (length (fst c)) @ fst c @ ft (snd c)"

definition slots_of :: "page \<Rightarrow> nat list" where
  "slots_of p = map (slot_at p) [0..<num_keys p]"

definition apart :: "('x \<Rightarrow> bytes) \<Rightarrow> nat \<times> bytes \<times> 'x \<Rightarrow> nat \<times> bytes \<times> 'x \<Rightarrow> bool" where
  "apart ft e f \<longleftrightarrow> fst e + length (encode ft (snd e)) \<le> fst f \<or> fst f + length (encode ft (snd f)) \<le> fst e"

definition cell_in :: "('x \<Rightarrow> bytes) \<Rightarrow> page \<Rightarrow> nat \<Rightarrow> nat \<times> bytes \<times> 'x \<Rightarrow> bool" where
  "cell_in ft p lo e \<longleftrightarrow> lo \<le> fst e \<and> fst e + length (encode ft (snd e)) \<le> 4072 \<and>
     peek p (24 + fst e) (length (encode ft (snd e))) = encode ft (snd e)"

definition slotted :: "('x \<Rightarrow> bytes) \<Rightarrow> page \<Rightarrow> (bytes \<times> 'x) list \<Rightarrow> bool" where
  "slotted ft p cs \<longleftrightarrow> page_ok p \<and> num_keys p = length cs \<and> free_end p = 32 + 2 * length cs \<and>
     free_end p \<le> cell_end p \<and> cell_end p \<le> 4072 \<and>
     (\<forall>e \<in> set (zip (slots_of p) cs). cell_in ft p (cell_end p) e) \<and>
     sorted_wrt (apart ft) (zip (slots_of p) cs)"

text \<open>The bytes the cells need, and whether they fit on a page next to their slots.\<close>

definition used :: "('x \<Rightarrow> bytes) \<Rightarrow> (bytes \<times> 'x) list \<Rightarrow> nat" where
  "used ft cs = (\<Sum>c\<leftarrow>cs. length (encode ft c))"

definition fits :: "('x \<Rightarrow> bytes) \<Rightarrow> (bytes \<times> 'x) list \<Rightarrow> bool" where
  "fits ft cs \<longleftrightarrow> 32 + 2 * length cs + used ft cs \<le> 4072"

text \<open>The heap has no holes: it holds the cells and nothing else.\<close>

definition compacted :: "('x \<Rightarrow> bytes) \<Rightarrow> page \<Rightarrow> (bytes \<times> 'x) list \<Rightarrow> bool" where
  "compacted ft p cs \<longleftrightarrow> cell_end p + used ft cs = 4072"

text \<open>What no operation on the cells of a node changes.\<close>

definition node_meta :: "page \<Rightarrow> page_id \<times> 32 word \<times> page_id \<times> page_id \<times> page_id \<times> page_id" where
  "node_meta p = (page_id p, page_type p, parent_id p, right_sibling p, left_sibling p, first_child p)"

subsection \<open>Header fields and slots\<close>

lemma node_consts [simp]:
  "NODE_HEADER_SIZE = 32" "SLOT_ARRAY_START = 32" "NODE_DATA_SIZE = 4072" "NODE_USABLE_SIZE = 4040"
  by (simp_all add: NODE_HEADER_SIZE_def SLOT_ARRAY_START_def NODE_DATA_SIZE_def NODE_USABLE_SIZE_def)

lemmas node_get_defs = num_keys_def free_end_def cell_end_def parent_id_def right_sibling_def
  left_sibling_def first_child_def slot_at_def

lemmas node_set_defs = set_num_keys_def set_free_end_def set_cell_end_def set_parent_id_def
  set_right_sibling_def set_left_sibling_def set_first_child_def set_slot_def

lemmas node_defs = node_get_defs node_set_defs

lemma node_get_less [simp]:
  "num_keys p < 65536" "free_end p < 65536" "cell_end p < 65536" "slot_at p i < 65536"
  by (simp_all add: node_get_defs)

lemma slot_at_set_slot: "v < 65536 \<Longrightarrow> slot_at (set_slot i v p) j = (if j = i then v else slot_at p j)"
  by (auto simp: node_defs f16.get_put intro!: f16.get_put_other)

lemma set_slot_outside: "a < 56 + 2 * i \<or> 58 + 2 * i \<le> a \<Longrightarrow> set_slot i v p a = p a"
  unfolding node_defs by (rule f16.put_outside) auto

lemma slot_at_shift_right:
  "slot_at (shift_right_loop i f p) j = (if f < j \<and> j \<le> i then slot_at p (j - 1) else slot_at p j)"
proof (induction i f p rule: shift_right_loop.induct)
  case (1 i f p)
  show ?case
  proof (cases "f < i")
    case True
    then show ?thesis
      unfolding shift_right_loop.simps [of i f p] using 1 by (auto simp: slot_at_set_slot)
  qed (simp add: shift_right_loop.simps)
qed

lemma shift_right_outside:
  "a < 58 + 2 * f \<or> 58 + 2 * i \<le> a \<Longrightarrow> shift_right_loop i f p a = p a"
proof (induction i f p rule: shift_right_loop.induct)
  case (1 i f p)
  show ?case
  proof (cases "f < i")
    case True
    then have "shift_right_loop (i - 1) f (set_slot i (slot_at p (i - 1)) p) a
      = set_slot i (slot_at p (i - 1)) p a" using 1 by auto
    also have "\<dots> = p a" using 1(2) True by (intro set_slot_outside) auto
    finally show ?thesis using True by (simp add: shift_right_loop.simps [of i])
  qed (simp add: shift_right_loop.simps)
qed

lemma slot_at_shift_left:
  "slot_at (shift_left_loop i n p) j = (if i \<le> j \<and> j + 1 < n then slot_at p (j + 1) else slot_at p j)"
proof (induction i n p rule: shift_left_loop.induct)
  case (1 i n p)
  show ?case
  proof (cases "i + 1 < n")
    case True
    then show ?thesis
      unfolding shift_left_loop.simps [of i n p] using 1 by (auto simp: slot_at_set_slot)
  qed (auto simp: shift_left_loop.simps)
qed

lemma shift_left_outside:
  "a < 56 + 2 * i \<or> 54 + 2 * n \<le> a \<Longrightarrow> shift_left_loop i n p a = p a"
proof (induction i n p rule: shift_left_loop.induct)
  case (1 i n p)
  show ?case
  proof (cases "i + 1 < n")
    case True
    then have "shift_left_loop (i + 1) n (set_slot i (slot_at p (i + 1)) p) a
      = set_slot i (slot_at p (i + 1)) p a" using 1 by auto
    also have "\<dots> = p a" using 1(2) True by (intro set_slot_outside) auto
    finally show ?thesis using True by (simp add: shift_left_loop.simps [of i])
  qed (simp add: shift_left_loop.simps)
qed

lemma get16_same: "p a = q a \<Longrightarrow> p (Suc a) = q (Suc a) \<Longrightarrow> get16 p a = get16 q a"
  by (rule f16.get_local) (auto simp: numeral_2_eq_2 less_Suc_eq le_less)

lemma get32_same: "(\<And>i. a \<le> i \<Longrightarrow> i < a + 4 \<Longrightarrow> p i = q i) \<Longrightarrow> get32 p a = get32 q a"
  by (rule f32.get_local) auto

text \<open>The counters and links depend only on bytes 24 to 55, the page's own header on the first 24.\<close>

lemma header_same:
  assumes "\<And>a. 24 \<le> a \<Longrightarrow> a < 56 \<Longrightarrow> q a = p a"
  shows "num_keys q = num_keys p" "free_end q = free_end p" "cell_end q = cell_end p"
  using assms by (auto simp: node_get_defs intro!: get16_same)

lemma node_meta_same:
  assumes "\<And>a. a < 24 \<Longrightarrow> q a = p a" "\<And>a. 32 \<le> a \<Longrightarrow> a < 56 \<Longrightarrow> q a = p a"
  shows "node_meta q = node_meta p"
  using assms by (auto simp: node_meta_def node_get_defs page_field_defs intro!: get32_same)

lemma page_ok_same: "page_ok p \<Longrightarrow> (\<And>a. 4096 \<le> a \<Longrightarrow> q a = p a) \<Longrightarrow> page_ok q"
  by (simp add: page_ok_def)

lemma set_counter_simps [simp]:
  "num_keys (set_num_keys n p) = n mod 65536" "free_end (set_num_keys n p) = free_end p" "cell_end (set_num_keys n p) = cell_end p"
  "num_keys (set_free_end n p) = num_keys p" "free_end (set_free_end n p) = n mod 65536" "cell_end (set_free_end n p) = cell_end p"
  "num_keys (set_cell_end n p) = num_keys p" "free_end (set_cell_end n p) = free_end p" "cell_end (set_cell_end n p) = n mod 65536"
  "slot_at (set_num_keys n p) i = slot_at p i" "slot_at (set_free_end n p) i = slot_at p i" "slot_at (set_cell_end n p) i = slot_at p i"
  by (simp_all add: node_defs mem_simps) (simp_all add: get16_def put16_def mem_simps unle_le)

lemma set_counter_outside:
  "a < 24 \<or> 26 \<le> a \<Longrightarrow> set_num_keys n p a = p a"
  "a < 26 \<or> 28 \<le> a \<Longrightarrow> set_free_end n p a = p a"
  "a < 28 \<or> 30 \<le> a \<Longrightarrow> set_cell_end n p a = p a"
  unfolding node_defs by (rule f16.put_outside, auto)+

subsection \<open>Space\<close>

lemma length_encode_pos [simp]: "2 \<le> length (encode ft c)"
  by (simp add: encode_def)

lemma used_simps [simp]:
  "used ft [] = 0" "used ft (c # cs) = length (encode ft c) + used ft cs"
  "used ft (as @ bs) = used ft as + used ft bs"
  by (simp_all add: used_def)

lemma apart_sym: "apart ft e f \<Longrightarrow> apart ft f e"
  by (auto simp: apart_def)

text \<open>Cells that do not overlap need no more bytes than the heap they lie in.\<close>

lemma packing:
  assumes "sorted_wrt (apart ft) es" "\<forall>e \<in> set es. lo \<le> fst e \<and> fst e + length (encode ft (snd e)) \<le> hi"
  shows "used ft (map snd es) \<le> hi - lo"
proof -
  let ?I = "\<lambda>e. {fst e ..< fst e + length (encode ft (snd e))}"
  have "used ft (map snd es) = card (\<Union>e \<in> set es. ?I e) \<and> finite (\<Union>e \<in> set es. ?I e)"
    using assms(1)
  proof (induction es)
    case (Cons e es)
    have "?I e \<inter> (\<Union>f \<in> set es. ?I f) = {}"
      using Cons.prems by (fastforce simp: apart_def)
    then show ?case using Cons by (simp add: card_Un_disjoint)
  qed simp
  moreover have "(\<Union>e \<in> set es. ?I e) \<subseteq> {lo ..< hi}" using assms(2) by auto
  then have "card (\<Union>e \<in> set es. ?I e) \<le> card {lo ..< hi}" by (rule card_mono [rotated]) simp
  ultimately show ?thesis by simp
qed

lemma slottedD:
  assumes "slotted ft p cs"
  shows "page_ok p" "num_keys p = length cs" "free_end p = 32 + 2 * length cs"
    "free_end p \<le> cell_end p" "cell_end p \<le> 4072" "length (slots_of p) = length cs"
    "\<And>e. e \<in> set (zip (slots_of p) cs) \<Longrightarrow> cell_in ft p (cell_end p) e"
    "sorted_wrt (apart ft) (zip (slots_of p) cs)"
  using assms by (auto simp: slotted_def slots_of_def)

lemma slotted_cell:
  assumes "slotted ft p cs" "i < length cs"
  shows "cell_in ft p (cell_end p) (slot_at p i, cs ! i)"
proof -
  have "(slot_at p i, cs ! i) \<in> set (zip (slots_of p) cs)"
    using assms slottedD(2,6) [OF assms(1)]
    by (auto simp: in_set_zip slots_of_def intro!: exI [of _ i])
  then show ?thesis by (rule slottedD(7) [OF assms(1)])
qed

lemma slotted_used:
  assumes "slotted ft p cs"
  shows "used ft cs \<le> 4072 - cell_end p" "fits ft cs"
proof -
  have "used ft (map snd (zip (slots_of p) cs)) \<le> 4072 - cell_end p"
    by (rule packing) (use slottedD(7,8) [OF assms] in \<open>auto simp: cell_in_def\<close>)
  then show u: "used ft cs \<le> 4072 - cell_end p" using slottedD(6) [OF assms] by simp
  show "fits ft cs" using u slottedD(3-5) [OF assms] by (simp add: fits_def)
qed

lemma free_space_slotted:
  "slotted ft p cs \<Longrightarrow> free_space p = Inr (cell_end p - (32 + 2 * length cs))"
  using slottedD(3,4) [of ft p cs] by (simp add: free_space_def)

lemma is_full_slotted:
  "slotted ft p cs \<Longrightarrow> is_full n p = Inr (cell_end p < 34 + 2 * length cs + n)"
  using slottedD(3,4) [of ft p cs] by (auto simp: is_full_def free_space_slotted total_cell_cost_def)

text \<open>A page represents the same cells as another if the counters and slots agree and the heap
  has the same bytes.\<close>

lemma slotted_transfer:
  assumes "slotted ft p cs" "page_ok q" "num_keys q = num_keys p" "free_end q = free_end p"
    "cell_end q = cell_end p" "\<And>i. i < length cs \<Longrightarrow> slot_at q i = slot_at p i"
    "\<And>a. 24 + cell_end p \<le> a \<Longrightarrow> a < 4096 \<Longrightarrow> q a = p a"
  shows "slotted ft q cs"
proof -
  note D = slottedD [OF assms(1)]
  have so: "slots_of q = slots_of p" using assms(3,6) D(2) by (simp add: slots_of_def)
  have "cell_in ft q (cell_end p) e" if "e \<in> set (zip (slots_of p) cs)" for e
  proof -
    have "peek q (24 + fst e) n = peek p (24 + fst e) n"
      if "cell_end p \<le> fst e" "fst e + n \<le> 4072" for n
      using that assms(7) by (intro peek_cong) auto
    with D(7) [OF that] show ?thesis by (simp add: cell_in_def)
  qed
  with assms D so show ?thesis by (simp add: slotted_def)
qed

subsection \<open>Entering and removing a cell\<close>

lemma place_cell_bytes:
  fixes p :: page and i :: nat and bs :: bytes
  assumes "page_ok p" "free_end p = 32 + 2 * num_keys p" "free_end p + 2 + length bs \<le> cell_end p"
    "cell_end p \<le> 4072" "i \<le> num_keys p"
  defines "off \<equiv> cell_end p - length bs" and "q \<equiv> place_cell i (length bs) bs p"
  shows "num_keys q = num_keys p + 1" "free_end q = free_end p + 2" "cell_end q = off"
    "j \<le> num_keys p \<Longrightarrow> slot_at q j = (if j < i then slot_at p j else if j = i then off else slot_at p (j - 1))"
    "peek q (24 + off) (length bs) = bs" "24 + cell_end p \<le> a \<Longrightarrow> q a = p a"
    "node_meta q = node_meta p" "page_ok q"
proof -
  let ?p1 = "set_cell_end off p"
  let ?p2 = "memcpy ?p1 (24 + off) bs"
  let ?p3 = "set_slot i off (shift_right_loop (num_keys p) i ?p2)"
  have lt: "off < 65536" using assms by simp
  have m2: "?p2 a = ?p1 a" if "24 \<le> a" "a < 56" for a
    by (rule memcpy_outside) (use that assms(2,3) off_def in auto)
  have h2: "num_keys ?p2 = num_keys p" "free_end ?p2 = free_end p" "cell_end ?p2 = off"
    using header_same [OF m2] lt by simp_all
  have h3: "num_keys ?p3 = num_keys p" "free_end ?p3 = free_end p" "cell_end ?p3 = off"
    using header_same [of ?p3 ?p2] h2 by (simp_all add: set_slot_outside shift_right_outside)
  have q: "q = set_num_keys (num_keys p + 1) (set_free_end (free_end p + 2) ?p3)"
    using assms(3) h2 h3
    by (simp add: q_def place_cell_def Let_def u16_sub_eq off_def shift_slots_right_def)
  show "num_keys q = num_keys p + 1" "free_end q = free_end p + 2" "cell_end q = off"
    using assms(2-4) h3 by (simp_all add: q)
  have s2: "slot_at ?p2 k = slot_at p k" if "k < num_keys p" for k
  proof -
    have "slot_at ?p2 k = slot_at ?p1 k" unfolding slot_at_def
      by (rule f16.get_memcpy_other) (use that assms(2,3) off_def in auto)
    then show ?thesis by simp
  qed
  show "j \<le> num_keys p \<Longrightarrow> slot_at q j = (if j < i then slot_at p j else if j = i then off else slot_at p (j - 1))"
    using s2 lt assms(5) by (auto simp: q slot_at_set_slot slot_at_shift_right)
  have out: "q a = ?p2 a" if "a < 24 \<or> 28 \<le> a" "a < 56 \<or> 58 + 2 * num_keys p \<le> a" for a
    using that assms(5) by (auto simp: q set_counter_outside set_slot_outside shift_right_outside)
  have "peek q (24 + off) (length bs) = peek ?p2 (24 + off) (length bs)"
    by (rule peek_cong, rule out) (use assms(2,3) off_def in auto)
  then show "peek q (24 + off) (length bs) = bs" by (simp add: mem_simps)
  have out': "q a = p a" if "a < 24 \<or> 30 \<le> a" "a < 56 \<or> 24 + cell_end p \<le> a" for a
  proof -
    have "q a = ?p2 a" by (rule out) (use that assms(2,3) in auto)
    also have "\<dots> = ?p1 a" by (rule memcpy_outside) (use that assms(2,3) off_def in auto)
    also have "\<dots> = p a" using that by (auto intro!: set_counter_outside)
    finally show ?thesis .
  qed
  show "24 + cell_end p \<le> a \<Longrightarrow> q a = p a" using out' [of a] assms(2,3) by auto
  show "node_meta q = node_meta p" by (rule node_meta_same) (auto intro!: out')
  show "page_ok q" using assms(1) by (rule page_ok_same) (rule out', use assms(4) in auto)
qed

lemma zip_insert:
  assumes "length xs = length ys" "i \<le> length xs"
  shows "zip (take i xs @ x # drop i xs) (take i ys @ y # drop i ys)
    = take i (zip xs ys) @ (x, y) # drop i (zip xs ys)"
  using assms by (simp add: zip_append take_zip drop_zip)

lemma sorted_wrt_insert:
  assumes "sorted_wrt R xs" "\<And>a b. R a b \<Longrightarrow> R b a" "\<forall>y \<in> set xs. R x y"
  shows "sorted_wrt R (take i xs @ x # drop i xs)"
proof -
  have "sorted_wrt R (take i xs @ drop i xs)" using assms(1) by simp
  then show ?thesis
    using assms(2,3) by (auto simp: sorted_wrt_append simp del: append_take_drop_id
        dest: in_set_takeD in_set_dropD)
qed

lemma place_cell_slotted:
  assumes "slotted ft p cs" "i \<le> length cs" "34 + 2 * length cs + length (encode ft c) \<le> cell_end p"
  defines "q \<equiv> place_cell i (length (encode ft c)) (encode ft c) p"
  shows "slotted ft q (take i cs @ c # drop i cs)" "node_meta q = node_meta p"
    "cell_end q = cell_end p - length (encode ft c)"
proof -
  note D = slottedD [OF assms(1)]
  let ?off = "cell_end p - length (encode ft c)"
  have pre: "free_end p = 32 + 2 * num_keys p" "free_end p + 2 + length (encode ft c) \<le> cell_end p"
    "i \<le> num_keys p" using D assms(2,3) by auto
  note B = place_cell_bytes [OF D(1) pre(1,2) D(5) pre(3), folded q_def]
  show "node_meta q = node_meta p" "cell_end q = ?off" using B by auto
  have "slots_of q = take i (slots_of p) @ ?off # drop i (slots_of p)"
    using B(1,4) pre(3) D(2) by (intro nth_equalityI) (auto simp: slots_of_def nth_append min_def less_Suc_eq)
  then have z: "zip (slots_of q) (take i cs @ c # drop i cs)
      = take i (zip (slots_of p) cs) @ (?off, c) # drop i (zip (slots_of p) cs)"
    using zip_insert D(6) assms(2) by metis
  have old: "cell_in ft q ?off e" if "e \<in> set (zip (slots_of p) cs)" for e
  proof -
    have "peek q (24 + fst e) n = peek p (24 + fst e) n" if "cell_end p \<le> fst e" for n
      using that B(6) by (intro peek_cong) auto
    with D(7) [OF that] show ?thesis by (auto simp: cell_in_def)
  qed
  have new: "cell_in ft q ?off (?off, c)" using B(5) D(5) pre(2) by (simp add: cell_in_def)
  have far: "apart ft (?off, c) e" if "e \<in> set (zip (slots_of p) cs)" for e
    using D(7) [OF that] pre(2) by (simp add: cell_in_def apart_def)
  have "\<forall>e \<in> set (zip (slots_of q) (take i cs @ c # drop i cs)). cell_in ft q ?off e"
    unfolding z using old new by (auto dest: in_set_takeD in_set_dropD)
  moreover have "sorted_wrt (apart ft) (zip (slots_of q) (take i cs @ c # drop i cs))"
    unfolding z by (rule sorted_wrt_insert [OF D(8) apart_sym]) (use far in auto)
  moreover have "34 + 2 * length cs \<le> ?off" "?off \<le> 4072" using assms(3) D(5) by linarith+
  ultimately show "slotted ft q (take i cs @ c # drop i cs)"
    using B D pre assms(2) by (simp add: slotted_def)
qed

lemma remove_cell_slotted:
  assumes "slotted ft p cs" "i < length cs"
  shows "\<exists>q. remove_cell i p = (Inr (), q) \<and> slotted ft q (take i cs @ drop (Suc i) cs) \<and>
    node_meta q = node_meta p \<and> cell_end q = cell_end p"
proof -
  note D = slottedD [OF assms(1)]
  let ?n = "length cs"
  let ?p1 = "shift_left_loop i ?n p"
  let ?q = "set_free_end (30 + 2 * ?n) (set_num_keys (?n - 1) ?p1)"
  have bound: "32 + 2 * ?n < 65536" using D(3-5) by simp
  have out1: "?p1 a = p a" if "a < 56 \<or> 54 + 2 * ?n \<le> a" for a
    using that by (auto intro!: shift_left_outside)
  have h1: "num_keys ?p1 = ?n" "free_end ?p1 = 32 + 2 * ?n" "cell_end ?p1 = cell_end p"
    using header_same [of ?p1 p] out1 D(2,3) by auto
  have run: "remove_cell i p = (Inr (), ?q)"
    using assms(2) D(2) h1 bound
    by (simp add: remove_cell_def op_simps shift_slots_left_def u16_sub_eq)
  have hq: "num_keys ?q = ?n - 1" "free_end ?q = 30 + 2 * ?n" "cell_end ?q = cell_end p"
    using bound h1 by auto
  have outq: "?q a = p a" if "a < 24 \<or> 28 \<le> a" "a < 56 \<or> 54 + 2 * ?n \<le> a" for a
    using that out1 by (auto simp: set_counter_outside)
  have "slots_of ?q = take i (slots_of p) @ drop (Suc i) (slots_of p)"
    using hq(1) assms(2) D(2)
    by (intro nth_equalityI) (auto simp: slots_of_def nth_append slot_at_shift_left)
  then have z: "zip (slots_of ?q) (take i cs @ drop (Suc i) cs)
      = take i (zip (slots_of p) cs) @ drop (Suc i) (zip (slots_of p) cs)"
    using D(6) assms(2) by (simp add: zip_append take_zip drop_zip)
  have keep: "cell_in ft ?q (cell_end p) e" if "e \<in> set (zip (slots_of p) cs)" for e
  proof -
    have "peek ?q (24 + fst e) n = peek p (24 + fst e) n" if "cell_end p \<le> fst e" for n
      using that D(3,4) by (intro peek_cong outq) auto
    with D(7) [OF that] show ?thesis by (auto simp: cell_in_def)
  qed
  have "i < length (zip (slots_of p) cs)" using D(6) assms(2) by simp
  then have "sorted_wrt (apart ft) (take i (zip (slots_of p) cs) @ zip (slots_of p) cs ! i # drop (Suc i) (zip (slots_of p) cs))"
    using D(8) id_take_nth_drop [of i "zip (slots_of p) cs"] by metis
  then have "sorted_wrt (apart ft) (zip (slots_of ?q) (take i cs @ drop (Suc i) cs))"
    unfolding z by (auto simp: sorted_wrt_append)
  moreover have "\<forall>e \<in> set (zip (slots_of ?q) (take i cs @ drop (Suc i) cs)). cell_in ft ?q (cell_end p) e"
    unfolding z using keep by (auto dest!: in_set_takeD in_set_dropD)
  moreover have "page_ok ?q" using D(1) by (rule page_ok_same) (rule outq, use D(3-5) in auto)
  ultimately have "slotted ft ?q (take i cs @ drop (Suc i) cs)"
    using hq D(3-5) assms(2) by (simp add: slotted_def)
  moreover have "node_meta ?q = node_meta p" by (rule node_meta_same; rule outq; simp)
  ultimately show ?thesis using run hq(3) by blast
qed

subsection \<open>Reading keys and searching\<close>

lemma encode_parts:
  assumes "peek p a (length (encode ft c)) = encode ft c" "length (encode ft c) \<le> 4072"
  shows "get16 p a = length (fst c)" "peek p (a + 2) (length (fst c)) = fst c"
    "peek p (a + 2 + length (fst c)) (length (ft (snd c))) = ft (snd c)"
proof -
  have "peek p a (2 + (length (fst c) + length (ft (snd c)))) = le 2 (length (fst c)) @ fst c @ ft (snd c)"
    using assms(1) by (simp add: encode_def)
  then have "peek p a 2 = le 2 (length (fst c))" "peek p (a + 2) (length (fst c)) = fst c"
    "peek p (a + 2 + length (fst c)) (length (ft (snd c))) = ft (snd c)"
    unfolding peek_append by auto
  moreover have "length (fst c) < 65536" using assms(2) by (simp add: encode_def)
  ultimately show "get16 p a = length (fst c)" "peek p (a + 2) (length (fst c)) = fst c"
    "peek p (a + 2 + length (fst c)) (length (ft (snd c))) = ft (snd c)"
    by (simp_all add: get16_def)
qed

lemma slotted_parts:
  assumes "slotted ft p cs" "i < length cs"
  shows "get16 p (24 + slot_at p i) = length (fst (cs ! i))"
    "peek p (26 + slot_at p i) (length (fst (cs ! i))) = fst (cs ! i)"
    "peek p (26 + slot_at p i + length (fst (cs ! i))) (length (ft (snd (cs ! i)))) = ft (snd (cs ! i))"
    "length (fst (cs ! i)) + length (ft (snd (cs ! i))) < 4072"
proof -
  have c: "peek p (24 + slot_at p i) (length (encode ft (cs ! i))) = encode ft (cs ! i)"
    "length (encode ft (cs ! i)) \<le> 4072"
    using slotted_cell [OF assms] by (auto simp: cell_in_def)
  show "get16 p (24 + slot_at p i) = length (fst (cs ! i))"
    "peek p (26 + slot_at p i) (length (fst (cs ! i))) = fst (cs ! i)"
    "peek p (26 + slot_at p i + length (fst (cs ! i))) (length (ft (snd (cs ! i)))) = ft (snd (cs ! i))"
    using encode_parts [OF c] by (simp_all add: add.commute add.left_commute)
  show "length (fst (cs ! i)) + length (ft (snd (cs ! i))) < 4072" using c(2) by (simp add: encode_def)
qed

lemma key_at_slotted:
  assumes "slotted ft p cs" "i < length cs"
  shows "key_at i p = Inr (fst (cs ! i))"
  using slotted_parts(1,2) [OF assms] slottedD(2) [OF assms(1)] assms(2)
  by (simp add: key_at_def Let_def)

lemma lower_bound_loop_slotted:
  assumes "slotted ft p cs" "sorted_keys cs" "lo \<le> lb key cs" "lb key cs \<le> hi" "hi \<le> length cs"
  shows "lower_bound_loop key p lo hi = Inr (lb key cs)"
  using assms
proof (induction key p lo hi rule: lower_bound_loop.induct)
  case (1 key p lo hi)
  show ?case
  proof (cases "lo < hi")
    case True
    let ?mid = "lo + (hi - lo) div 2"
    have mid: "?mid < length cs" "?mid < hi" using True 1(7) by auto
    note k = key_at_slotted [OF 1(3) mid(1)] and less = lb_iff [OF 1(4) mid(1), of key]
    show ?thesis
    proof (cases "fst (cs ! ?mid) < key")
      case True
      then show ?thesis
        unfolding lower_bound_loop.simps [of key p lo hi]
        using 1(1) [OF \<open>lo < hi\<close> refl k True] 1(3-7) less k \<open>lo < hi\<close> by (simp add: Let_def)
    next
      case False
      then show ?thesis
        unfolding lower_bound_loop.simps [of key p lo hi]
        using 1(2) [OF \<open>lo < hi\<close> refl k False] 1(3-7) less k \<open>lo < hi\<close> mid by (simp add: Let_def)
    qed
  next
    case False
    then show ?thesis using 1(5,6) by (simp add: lower_bound_loop.simps)
  qed
qed

lemma lower_bound_slotted:
  assumes "slotted ft p cs" "sorted_keys cs"
  shows "lower_bound key p = Inr (lb key cs)"
  using lower_bound_loop_slotted [OF assms, of 0 key "length cs"] slottedD(2) [OF assms(1)]
  by (simp add: lower_bound_def)

subsection \<open>What leaves and internal nodes have in common\<close>

lemma compact_reset_slotted:
  assumes "page_ok p"
  shows "slotted ft (compact_reset p) []" "cell_end (compact_reset p) = 4072"
    "node_meta (compact_reset p) = node_meta p"
proof -
  let ?p2 = "put32 (set_page_id (clear p) (page_id p)) 4 (page_type p)"
  let ?p3 = "memcpy ?p2 24 (peek p 24 32)"
  let ?q = "set_cell_end 4072 (set_free_end 32 (set_num_keys 0 ?p3))"
  have r: "compact_reset p = set_first_child (first_child p) ?q"
    by (simp add: compact_reset_def Let_def)
  have hdr: "?p3 a = p a" if "24 \<le> a" "a < 56" for a using that by (simp add: memcpy_def)
  have "?q a = p a" if "32 \<le> a" "a < 56" for a using that hdr by (simp add: set_counter_outside)
  moreover have "put32 ?q 44 (get32 p 44) = ?q"
    using put32_idem [of ?q 44] get32_same [of 44 ?q p] calculation by simp
  ultimately have "compact_reset p = ?q" by (simp add: r node_defs)
  moreover have "page_ok ?q"
    unfolding node_defs page_field_defs using assms
    by (intro page_ok_put16 page_ok_memcpy page_ok_put32) simp_all
  moreover have "node_meta ?q = node_meta p"
  proof -
    have "page_id ?q = page_id p" "page_type ?q = page_type p"
      by (simp_all add: node_defs mem_simps) (simp_all add: page_field_defs mem_simps)
    moreover have "get32 ?q i = get32 p i" if "32 \<le> i" "i + 4 \<le> 56" for i
      using that \<open>\<And>a. 32 \<le> a \<Longrightarrow> a < 56 \<Longrightarrow> ?q a = p a\<close> by (intro get32_same) auto
    ultimately show ?thesis by (simp add: node_meta_def node_get_defs)
  qed
  ultimately show "slotted ft (compact_reset p) []" "cell_end (compact_reset p) = 4072"
    "node_meta (compact_reset p) = node_meta p"
    by (simp_all add: slotted_def slots_of_def)
qed

text \<open>
  The contract of a cell format: what a payload is, how it is read and written, and that
  \<open>compact\<close> collects and rewrites the cells. Compaction and insertion are proved from it once
  and used for leaves and for internal nodes.
\<close>

locale cell_format =
  fixes ft :: "'x \<Rightarrow> bytes"
    and kind :: "page \<Rightarrow> bool"
    and payload_at :: "nat \<Rightarrow> page \<Rightarrow> exc + 'x"
    and write_cell :: "nat \<Rightarrow> bytes \<Rightarrow> 'x \<Rightarrow> (page, unit) op"
  assumes kind_type: "page_type q = page_type p \<Longrightarrow> kind q = kind p"
    and payload_slotted: "slotted ft p cs \<Longrightarrow> kind p \<Longrightarrow> i < length cs \<Longrightarrow> payload_at i p = Inr (snd (cs ! i))"
    and write_cell_eq: "is_full (length (encode ft (k, x))) p = Inr False \<Longrightarrow>
      write_cell i k x p = (Inr (), place_cell i (length (encode ft (k, x))) (encode ft (k, x)) p)"
    and compact_eq: "kind p \<Longrightarrow> num_keys p \<noteq> 0 \<Longrightarrow> compact p =
      op_bind (op_read (\<lambda>p. res_map (\<lambda>i. res_bind (key_at i p) (\<lambda>k.
         res_bind (payload_at i p) (\<lambda>x. Inr (k, x)))) [0..<num_keys p])) (\<lambda>cells.
      op_bind (op_modify compact_reset) (\<lambda>_.
      op_foreach (\<lambda>(k, x). op_bind (op_gets num_keys) (\<lambda>i. write_cell i k x)) cells)) p"
begin

lemma write_cell_slotted:
  assumes "slotted ft p cs" "i \<le> length cs" "34 + 2 * length cs + length (encode ft (k, x)) \<le> cell_end p"
  shows "\<exists>q. write_cell i k x p = (Inr (), q) \<and> slotted ft q (take i cs @ (k, x) # drop i cs) \<and>
    node_meta q = node_meta p \<and> cell_end q = cell_end p - length (encode ft (k, x))"
  using place_cell_slotted [OF assms] write_cell_eq [of k x p i] is_full_slotted [OF assms(1)] assms(3)
  by auto

lemma kind_meta: "node_meta q = node_meta p \<Longrightarrow> kind q = kind p"
  by (rule kind_type) (simp add: node_meta_def)

lemma collect_slotted:
  assumes "slotted ft p cs" "kind p"
  shows "res_map (\<lambda>i. res_bind (key_at i p) (\<lambda>k. res_bind (payload_at i p) (\<lambda>x. Inr (k, x)))) [0..<num_keys p] = Inr cs"
proof -
  have "res_map (\<lambda>i. res_bind (key_at i p) (\<lambda>k. res_bind (payload_at i p) (\<lambda>x. Inr (k, x)))) [0..<num_keys p]
    = Inr (map ((!) cs) [0..<length cs])"
    unfolding slottedD(2) [OF assms(1)]
    by (rule res_map_Inr) (simp add: key_at_slotted [OF assms(1)] payload_slotted [OF assms])
  then show ?thesis by (simp add: map_nth)
qed

lemma rewrite_cells:
  assumes "slotted ft p []" "cell_end p = 4072" "fits ft cs"
  shows "\<exists>q. op_foreach (\<lambda>(k, x). op_bind (op_gets num_keys) (\<lambda>i. write_cell i k x)) cs p = (Inr (), q) \<and>
    slotted ft q cs \<and> compacted ft q cs \<and> node_meta q = node_meta p"
proof -
  let ?I = "\<lambda>ds q. slotted ft q ds \<and> compacted ft q ds \<and> node_meta q = node_meta p"
  have "\<exists>r. (\<lambda>(k, x). op_bind (op_gets num_keys) (\<lambda>i. write_cell i k x)) c q = (Inr (), r) \<and> ?I (ds @ [c]) r"
    if cs: "cs = ds @ c # es" and I: "?I ds q" for ds c es q
  proof -
    obtain k x where c: "c = (k, x)" by (cases c)
    have room: "34 + 2 * length ds + length (encode ft (k, x)) \<le> cell_end q"
      using assms(3) cs I c by (auto simp: fits_def compacted_def)
    obtain r where r: "write_cell (length ds) k x q = (Inr (), r)" "slotted ft r (ds @ [(k, x)])"
      "node_meta r = node_meta q" "cell_end r = cell_end q - length (encode ft (k, x))"
      using write_cell_slotted [of q ds "length ds" k x] I room by auto
    have "compacted ft r (ds @ [c])" using r(4) I room c by (simp add: compacted_def)
    then show ?thesis using r I slottedD(2) [of ft q ds] c by (simp add: op_simps)
  qed
  then show ?thesis
    using op_foreach_run [where I = ?I and us = cs and s = p] assms(1,2) by (auto simp: compacted_def)
qed

lemma compact_slotted:
  assumes "slotted ft p cs" "kind p"
  shows "\<exists>q. compact p = (Inr (), q) \<and> slotted ft q cs \<and> compacted ft q cs \<and> node_meta q = node_meta p"
proof (cases "cs = []")
  case True
  note D = slottedD [OF assms(1)]
  let ?q = "set_cell_end 4072 p"
  have "compact p = (Inr (), ?q)" using D(2) True by (simp add: compact_def op_simps)
  moreover have "page_ok ?q" by (rule page_ok_same [OF D(1)]) (simp add: set_counter_outside)
  then have "slotted ft ?q cs" using D True by (simp add: slotted_def slots_of_def)
  moreover have "node_meta ?q = node_meta p"
    by (rule node_meta_same; rule set_counter_outside; simp)
  ultimately show ?thesis using True by (auto simp: compacted_def)
next
  case False
  note D = slottedD [OF assms(1)]
  let ?r = "compact_reset p"
  have r: "slotted ft ?r []" "cell_end ?r = 4072" "node_meta ?r = node_meta p"
    using compact_reset_slotted [OF D(1)] by auto
  have "compact p = op_foreach (\<lambda>(k, x). op_bind (op_gets num_keys) (\<lambda>i. write_cell i k x)) cs ?r"
    using compact_eq [OF assms(2)] collect_slotted [OF assms] D(2) False by (simp add: op_simps)
  then show ?thesis using rewrite_cells [OF r(1,2) slotted_used(2) [OF assms(1)]] r(3) by auto
qed

lemma insert_with_room_slotted:
  fixes k :: bytes and x :: 'x
  assumes "slotted ft p cs" "kind p" "i \<le> length cs"
  defines "ds \<equiv> take i cs @ (k, x) # drop i cs"
  shows "\<exists>q. insert_with_room (length (encode ft (k, x))) (write_cell i k x) p = (Inr (fits ft ds), q) \<and>
    node_meta q = node_meta p \<and> slotted ft q (if fits ft ds then ds else cs) \<and>
    (fits ft ds \<or> compacted ft q cs)"
proof -
  let ?n = "length (encode ft (k, x))"
  have len: "length ds = Suc (length cs)" "used ft ds = used ft cs + ?n"
    using used_simps(3) [of ft "take i cs" "drop i cs"] assms(3) by (simp_all add: ds_def)
  obtain q where q: "(if cell_end p < 34 + 2 * length cs + ?n then compact else op_return ()) p = (Inr (), q)"
    "slotted ft q cs" "node_meta q = node_meta p" "cell_end p < 34 + 2 * length cs + ?n \<longrightarrow> compacted ft q cs"
    "\<not> cell_end p < 34 + 2 * length cs + ?n \<longrightarrow> q = p"
    using compact_slotted [OF assms(1,2)] assms(1) by (cases "cell_end p < 34 + 2 * length cs + ?n") (auto simp: op_simps)
  have fit: "fits ft ds \<longleftrightarrow> \<not> cell_end q < 34 + 2 * length cs + ?n"
    using q(4,5) slotted_used(1) [OF q(2)] len slottedD(5) [OF q(2)] by (auto simp: fits_def compacted_def)
  have run: "insert_with_room ?n (write_cell i k x) p =
    (if \<not> fits ft ds then op_return False else op_bind (write_cell i k x) (\<lambda>_. op_return True)) q"
    using q(1) is_full_slotted [OF assms(1)] is_full_slotted [OF q(2)] fit
    by (simp add: insert_with_room_def op_simps)
  show ?thesis
  proof (cases "fits ft ds")
    case True
    then have "34 + 2 * length cs + ?n \<le> cell_end q" using fit by simp
    from write_cell_slotted [OF q(2) assms(3) this] True run q(3) show ?thesis
      by (auto simp: op_simps ds_def)
  next
    case False
    then have "compacted ft q cs" using fit q(4,5) by auto
    then show ?thesis using False run q(2,3) by (simp add: op_simps)
  qed
qed

end

end
