(* ===== verification/Node_Ops.thy ===== *)
theory Node_Ops
  imports Slotted_Page
begin

section \<open>Leaves and internal nodes\<close>

text \<open>
  The two cell formats of the source, each with its invariant: a leaf represents a sorted list
  of keys with values, an internal node a sorted list of separators with their right children.
  Each operation of \<open>node.cpp\<close> on one page is shown to do on the represented list what it
  promises, on every branch.
\<close>

definition leaf_tail :: "bytes \<Rightarrow> bytes" where
  "leaf_tail v = le 2 (length v) @ v"

definition child_tail :: "page_id \<Rightarrow> bytes" where
  "child_tail c = le 4 (unat c)"

definition leaf_node :: "page \<Rightarrow> (bytes \<times> bytes) list \<Rightarrow> bool" where
  "leaf_node p cs \<longleftrightarrow> slotted leaf_tail p cs \<and> is_leaf p \<and> sorted_keys cs"

definition inner_node :: "page \<Rightarrow> (bytes \<times> page_id) list \<Rightarrow> bool" where
  "inner_node p cs \<longleftrightarrow> slotted child_tail p cs \<and> page_type p = page_type_code BTREE_INTERNAL \<and> sorted_keys cs"

lemma inner_not_leaf: "inner_node p cs \<Longrightarrow> \<not> is_leaf p"
  by (simp add: inner_node_def is_leaf_def)

lemma encode_leaf: "encode leaf_tail (k, v) = leaf_cell k v"
  "length (encode leaf_tail c) = leaf_cell_size (length (fst c)) (length (snd c))"
  by (simp_all add: encode_def leaf_tail_def leaf_cell_def leaf_cell_size_def)

lemma encode_child: "encode child_tail (k, c) = internal_cell k c"
  "length (encode child_tail d) = internal_cell_size (length (fst d))"
  by (simp_all add: encode_def child_tail_def internal_cell_def internal_cell_size_def)

lemma length_cells [simp]:
  "length (leaf_cell k v) = leaf_cell_size (length k) (length v)"
  "length (internal_cell k c) = internal_cell_size (length k)"
  by (simp_all add: leaf_cell_def internal_cell_def leaf_cell_size_def internal_cell_size_def)

lemma value_at_slotted:
  assumes "slotted leaf_tail p cs" "is_leaf p" "i < length cs"
  shows "value_at i p = Inr (snd (cs ! i))"
proof -
  note P = slotted_parts [OF assms(1,3)]
  let ?a = "26 + slot_at p i + length (fst (cs ! i))"
  have "peek p ?a (2 + length (snd (cs ! i))) = le 2 (length (snd (cs ! i))) @ snd (cs ! i)"
    using P(3) by (simp add: leaf_tail_def)
  then have "peek p ?a 2 = le 2 (length (snd (cs ! i)))" "peek p (?a + 2) (length (snd (cs ! i))) = snd (cs ! i)"
    unfolding peek_append by auto
  moreover have "length (snd (cs ! i)) < 65536" using P(4) by (simp add: leaf_tail_def)
  ultimately show ?thesis
    using P(1) assms slottedD(2) [OF assms(1)]
    by (simp add: value_at_def Let_def get16_def add.commute add.left_commute)
qed

lemma child_at_slotted:
  assumes "slotted child_tail p cs" "\<not> is_leaf p" "i < length cs"
  shows "child_at i p = Inr (snd (cs ! i))"
  using slotted_parts(1,3) [OF assms(1,3)] assms slottedD(2) [OF assms(1)]
  by (simp add: child_at_def Let_def get32_def child_tail_def add.commute add.left_commute)

interpretation leaf: cell_format leaf_tail is_leaf value_at write_leaf_cell
proof (unfold_locales, goal_cases)
  case (3 k x p i)
  then show ?case by (simp add: write_leaf_cell_def op_defs encode_leaf)
next
  case (4 p)
  then show ?case by (simp add: compact_def op_simps) (simp add: op_bind_def op_read_def)
qed (auto simp: is_leaf_def value_at_slotted)

interpretation inner: cell_format child_tail "\<lambda>p. \<not> is_leaf p" child_at write_internal_cell
proof (unfold_locales, goal_cases)
  case (3 k x p i)
  then show ?case by (simp add: write_internal_cell_def op_defs encode_child)
next
  case (4 p)
  then show ?case by (simp add: compact_def op_simps) (simp add: op_bind_def op_read_def)
qed (auto simp: is_leaf_def child_at_slotted)

lemma leaf_meta: "node_meta q = node_meta p \<Longrightarrow> is_leaf q = is_leaf p"
  by (rule leaf.kind_meta)

lemma meta_type: "node_meta q = node_meta p \<Longrightarrow> page_type q = page_type p"
  by (simp add: node_meta_def)

subsection \<open>Fresh nodes\<close>

lemma init_node_slotted:
  assumes "page_ok p"
  shows "slotted ft (memcpy (set_page_type (set_page_id (clear p) pid) t) 24 (node_header par)) []"
    "compacted ft (memcpy (set_page_type (set_page_id (clear p) pid) t) 24 (node_header par)) []"
    "node_meta (memcpy (set_page_type (set_page_id (clear p) pid) t) 24 (node_header par)) =
      (pid, page_type_code t, par, INVALID_PAGE_ID, INVALID_PAGE_ID, INVALID_PAGE_ID)"
proof -
  let ?p = "set_page_type (set_page_id (clear p) pid) t"
  let ?q = "memcpy ?p 24 (node_header par)"
  have len: "length (node_header par) = 32" by (simp add: node_header_def)
  have g16: "get16 ?q (24 + i) = unle (take 2 (drop i (node_header par)))" if "i + 2 \<le> 32" for i
    using that len by (simp add: get16_def peek_memcpy_inside)
  have g32: "get32 ?q (24 + i) = of_nat (unle (take 4 (drop i (node_header par))))" if "i + 4 \<le> 32" for i
    using that len by (simp add: get32_def peek_memcpy_inside)
  have "num_keys ?q = 0" "free_end ?q = 32" "cell_end ?q = 4072"
    using g16 [of 0] g16 [of 2] g16 [of 4] by (simp_all add: node_get_defs node_header_def unle_le)
  moreover have "page_ok ?q" using assms len by (intro page_ok_memcpy) auto
  ultimately show "slotted ft ?q []" "compacted ft ?q []"
    by (simp_all add: slotted_def slots_of_def compacted_def)
  have "parent_id ?q = par" "right_sibling ?q = INVALID_PAGE_ID" "left_sibling ?q = INVALID_PAGE_ID"
    "first_child ?q = INVALID_PAGE_ID"
    using g32 [of 8] g32 [of 12] g32 [of 16] g32 [of 20] by (simp_all add: node_get_defs node_header_def)
  then show "node_meta ?q = (pid, page_type_code t, par, INVALID_PAGE_ID, INVALID_PAGE_ID, INVALID_PAGE_ID)"
    by (simp add: node_meta_def mem_simps)
qed

lemma init_leaf_node:
  assumes "page_ok p"
  shows "leaf_node (init_leaf pid par p) []" "compacted leaf_tail (init_leaf pid par p) []"
    "node_meta (init_leaf pid par p) =
      (pid, page_type_code BTREE_LEAF, par, INVALID_PAGE_ID, INVALID_PAGE_ID, INVALID_PAGE_ID)"
  using init_node_slotted(1,2) [OF assms, of leaf_tail pid BTREE_LEAF par] init_node_slotted(3) [OF assms, of pid BTREE_LEAF par]
  by (auto simp: init_leaf_def leaf_node_def is_leaf_def node_meta_def)

lemma init_inner_node:
  assumes "page_ok p"
  shows "inner_node (init_internal pid par p) []" "compacted child_tail (init_internal pid par p) []"
    "node_meta (init_internal pid par p) =
      (pid, page_type_code BTREE_INTERNAL, par, INVALID_PAGE_ID, INVALID_PAGE_ID, INVALID_PAGE_ID)"
  using init_node_slotted(1,2) [OF assms, of child_tail pid BTREE_INTERNAL par] init_node_slotted(3) [OF assms, of pid BTREE_INTERNAL par]
  by (auto simp: init_internal_def inner_node_def node_meta_def)

subsection \<open>Updating a cell in place\<close>

lemma overwrite_slotted:
  assumes "slotted ft p cs" "i < length cs" "length (encode ft c) = length (encode ft (cs ! i))"
    "\<And>a. a < 24 + slot_at p i \<or> 24 + slot_at p i + length (encode ft c) \<le> a \<Longrightarrow> q a = p a"
    "peek q (24 + slot_at p i) (length (encode ft c)) = encode ft c"
  shows "slotted ft q (cs[i := c])" "node_meta q = node_meta p" "cell_end q = cell_end p"
proof -
  note D = slottedD [OF assms(1)]
  note I = slotted_cell [OF assms(1,2), unfolded cell_in_def, simplified]
  have low: "q a = p a" if "a < 56 + 2 * length cs" for a
    using that I D(3,4) by (intro assms(4)) auto
  show h: "node_meta q = node_meta p" "cell_end q = cell_end p"
    using low header_same [of q p] by (auto intro!: node_meta_same)
  have so: "slot_at q j = slot_at p j" if "j < length cs" for j
    unfolding slot_at_def using that by (intro get16_same; intro low) auto
  have nk: "num_keys q = num_keys p" "free_end q = free_end p" using low header_same [of q p] by auto
  have z: "length (zip (slots_of p) cs) = length cs"
    "\<And>j. j < length cs \<Longrightarrow> zip (slots_of p) cs ! j = (slot_at p j, cs ! j)"
    using D(2,6) by (simp_all add: slots_of_def)
  have z': "length (zip (slots_of q) (cs[i := c])) = length cs"
    "\<And>j. j < length cs \<Longrightarrow> zip (slots_of q) (cs[i := c]) ! j = (slot_at p j, if j = i then c else cs ! j)"
    using D(2,6) nk so by (simp_all add: slots_of_def)
  have ap: "apart ft (slot_at p i, cs ! i) (slot_at p j, cs ! j)" if "j < length cs" "j \<noteq> i" for j
  proof (cases "i < j")
    case True
    then show ?thesis using sorted_wrt_nth_less [OF D(8), of i j] z assms(2) that by simp
  next
    case False
    then have "apart ft (slot_at p j, cs ! j) (slot_at p i, cs ! i)"
      using sorted_wrt_nth_less [OF D(8), of j i] z assms(2) that by simp
    then show ?thesis by (rule apart_sym)
  qed
  have "cell_in ft q (cell_end p) (slot_at p j, if j = i then c else cs ! j)" if "j < length cs" for j
  proof (cases "j = i")
    case True
    then show ?thesis using I assms(3,5) by (simp add: cell_in_def)
  next
    case False
    have "peek q (24 + slot_at p j) (length (encode ft (cs ! j))) = peek p (24 + slot_at p j) (length (encode ft (cs ! j)))"
      using ap [OF that False] assms(3) by (intro peek_cong assms(4)) (auto simp: apart_def)
    then show ?thesis using slotted_cell [OF assms(1) that] False by (simp add: cell_in_def)
  qed
  then have "\<forall>e \<in> set (zip (slots_of q) (cs[i := c])). cell_in ft q (cell_end p) e"
    using z' by (metis in_set_conv_nth)
  moreover have "sorted_wrt (apart ft) (zip (slots_of q) (cs[i := c]))"
    unfolding sorted_wrt_iff_nth_less z'(1)
  proof (intro allI impI)
    fix a b assume ab: "a < b" "b < length cs"
    then have "apart ft (slot_at p a, cs ! a) (slot_at p b, cs ! b)"
      using sorted_wrt_nth_less [OF D(8), of a b] z by simp
    then show "apart ft (zip (slots_of q) (cs[i := c]) ! a) (zip (slots_of q) (cs[i := c]) ! b)"
      using ab z'(2) assms(3) by (auto simp: apart_def)
  qed
  moreover have "page_ok q" by (rule page_ok_same [OF D(1)], rule assms(4)) (use I assms(3) in auto)
  ultimately show "slotted ft q (cs[i := c])" using D nk h(2) by (simp add: slotted_def)
qed

lemma overwrite_value:
  assumes "slotted leaf_tail p cs" "i < length cs" "length v = length (snd (cs ! i))"
  defines "q \<equiv> memcpy p (24 + slot_at p i + 2 + length (fst (cs ! i)) + 2) v"
  shows "slotted leaf_tail q (cs[i := (fst (cs ! i), v)])" "node_meta q = node_meta p"
proof -
  let ?c = "(fst (cs ! i), v)" and ?a = "24 + slot_at p i"
  note P = slotted_parts [OF assms(1,2)]
  have len: "length (encode leaf_tail ?c) = length (encode leaf_tail (cs ! i))"
    using assms(3) by (simp add: encode_leaf)
  have out: "q a = p a" if "a < ?a \<or> ?a + length (encode leaf_tail ?c) \<le> a" for a
    unfolding q_def by (rule memcpy_outside) (use that in \<open>auto simp: leaf_cell_size_def encode_leaf\<close>)
  have "peek q ?a (2 + (length (fst (cs ! i)) + (2 + length v))) = encode leaf_tail ?c"
  proof -
    have "peek p ?a (2 + (length (fst (cs ! i)) + (2 + length v))) = encode leaf_tail (cs ! i)"
      using slotted_cell [OF assms(1,2)] assms(3)
      by (simp add: cell_in_def encode_leaf leaf_cell_size_def del: length_encode_pos)
    then have "peek p ?a 2 = le 2 (length (fst (cs ! i)))" "peek p (?a + 2) (length (fst (cs ! i))) = fst (cs ! i)"
      "peek p (?a + 2 + length (fst (cs ! i))) 2 = le 2 (length v)"
      unfolding peek_append using assms(3) by (auto simp: encode_def leaf_tail_def)
    moreover have "peek q (?a + 2 + length (fst (cs ! i)) + 2) (length v) = v"
      unfolding q_def by (rule peek_memcpy_same) simp
    moreover have "peek q o' n = peek p o' n" if "o' + n \<le> ?a + 2 + length (fst (cs ! i)) + 2" for o' n
      unfolding q_def by (rule peek_memcpy_other) (use that in simp)
    ultimately show ?thesis
      unfolding peek_append by (simp add: encode_def leaf_tail_def)
  qed
  then have pk: "peek q ?a (length (encode leaf_tail ?c)) = encode leaf_tail ?c"
    by (simp add: encode_leaf leaf_cell_size_def)
  show "slotted leaf_tail q (cs[i := ?c])" "node_meta q = node_meta p"
    using overwrite_slotted [OF assms(1,2) len out pk] by auto
qed

subsection \<open>Inserting into a leaf\<close>

lemma lb_del_key: "sorted_keys cs \<Longrightarrow> lb k (del_key k cs) = lb k cs"
proof (induction cs)
  case (Cons c cs)
  then show ?case by (cases cs) auto
qed simp

lemma used_length_update:
  assumes "i < length cs" "length (encode ft c) = length (encode ft (cs ! i))"
  shows "used ft (cs[i := c]) = used ft cs"
proof -
  have "used ft (take i cs @ c # drop (Suc i) cs) = used ft (take i cs @ cs ! i # drop (Suc i) cs)"
    using assms(2) by simp
  then show ?thesis using assms(1) by (simp add: upd_conv_take_nth_drop id_take_nth_drop [symmetric])
qed

text \<open>The branch of \<open>insert_leaf_cell\<close> that enters a new cell at the position found by the
  search.\<close>

lemma insert_new_leaf_cell:
  assumes "leaf_node p cs" "k \<notin> fst ` set cs"
  shows "\<exists>q. insert_with_room (leaf_cell_size (length k) (length v)) (write_leaf_cell (lb k cs) k v) p
      = (Inr (fits leaf_tail (put_key k v cs)), q) \<and> node_meta q = node_meta p \<and>
    leaf_node q (if fits leaf_tail (put_key k v cs) then put_key k v cs else cs) \<and>
    (fits leaf_tail (put_key k v cs) \<or> compacted leaf_tail q cs)"
proof -
  have L: "slotted leaf_tail p cs" "is_leaf p" "sorted_keys cs" using assms(1) by (auto simp: leaf_node_def)
  obtain q where "insert_with_room (leaf_cell_size (length k) (length v)) (write_leaf_cell (lb k cs) k v) p
      = (Inr (fits leaf_tail (put_key k v cs)), q)" "node_meta q = node_meta p"
    "slotted leaf_tail q (if fits leaf_tail (put_key k v cs) then put_key k v cs else cs)"
    "fits leaf_tail (put_key k v cs) \<or> compacted leaf_tail q cs"
    using leaf.insert_with_room_slotted [OF L(1,2) lb_le, of k v k, folded put_key_absent [OF L(3) assms(2)]]
    unfolding encode_leaf(2) fst_conv snd_conv by blast
  then show ?thesis using L leaf_meta [of q p] by (auto simp: leaf_node_def)
qed

lemma insert_leaf_cell_run:
  assumes "leaf_node p cs"
  shows "\<exists>q. insert_leaf_cell k v p = (Inr (fits leaf_tail (put_key k v cs)), q) \<and> node_meta q = node_meta p \<and>
    leaf_node q (if fits leaf_tail (put_key k v cs) then put_key k v cs else del_key k cs) \<and>
    (fits leaf_tail (put_key k v cs) \<or> compacted leaf_tail q (del_key k cs))"
proof -
  have L: "slotted leaf_tail p cs" "is_leaf p" "sorted_keys cs" using assms by (auto simp: leaf_node_def)
  let ?i = "lb k cs"
  note low = lower_bound_slotted [OF L(1,3), of k] and n = slottedD(2) [OF L(1)]
  note found = lb_present [OF L(3), of k]
  have test: "(if ?i < num_keys p then res_bind (key_at ?i p) (\<lambda>k'. Inr (k' = k)) else Inr False)
    = Inr (k \<in> fst ` set cs)"
    using found n key_at_slotted [OF L(1), of ?i] by auto
  show ?thesis
  proof (cases "k \<in> fst ` set cs")
    case False
    then have "insert_leaf_cell k v p = insert_with_room (leaf_cell_size (length k) (length v)) (write_leaf_cell ?i k v) p"
      using low test L(2) by (simp add: insert_leaf_cell_def op_defs)
    then show ?thesis using insert_new_leaf_cell [OF assms False, of v] del_key_absent [OF False] by presburger
  next
    case True
    then have i: "?i < length cs" "fst (cs ! ?i) = k" using found by auto
    note val = value_at_slotted [OF L(1,2) i(1)]
    show ?thesis
    proof (cases "length (snd (cs ! ?i)) = length v")
      case same: True
      let ?q = "memcpy p (24 + slot_at p ?i + 2 + length (fst (cs ! ?i)) + 2) v"
      have put: "put_key k v cs = cs[?i := (fst (cs ! ?i), v)]" using put_key_present [OF L(3) True] i(2) by simp
      note O = overwrite_value [OF L(1) i(1) same [symmetric]]
      have "insert_leaf_cell k v p = (Inr True, ?q)"
        using low test L(2) True val same slotted_parts(1) [OF L(1) i(1)] i(2)
        by (simp add: insert_leaf_cell_def op_defs)
      moreover have "leaf_node ?q (put_key k v cs)"
        using O L leaf_meta [OF O(2)] sorted_put_key [OF L(3), of k v] by (simp add: leaf_node_def put)
      moreover from this have "fits leaf_tail (put_key k v cs)" using slotted_used(2) by (auto simp: leaf_node_def)
      ultimately show ?thesis using O(2) by auto
    next
      case diff: False
      obtain r where r: "remove_cell ?i p = (Inr (), r)" "slotted leaf_tail r (del_key k cs)" "node_meta r = node_meta p"
        using remove_cell_slotted [OF L(1) i(1)] del_key_lb [OF L(3), of k] True by auto
      have R: "leaf_node r (del_key k cs)" using r L leaf_meta [OF r(3)] by (simp add: leaf_node_def)
      have abs: "k \<notin> fst ` set (del_key k cs)" using set_del_key [OF L(3)] by simp
      have "insert_leaf_cell k v p
        = insert_with_room (leaf_cell_size (length k) (length v)) (write_leaf_cell (lb k (del_key k cs)) k v) r"
        using low test L(2) True val diff r(1) lower_bound_slotted [OF r(2) sorted_del_key [OF L(3)], of k]
        by (simp add: insert_leaf_cell_def op_defs)
      then show ?thesis
        using insert_new_leaf_cell [OF R abs, of v] unfolding r(3) put_del_key [OF L(3)] by presburger
    qed
  qed
qed

subsection \<open>Internal nodes\<close>

lemma inner_nodeD:
  assumes "inner_node p cs"
  shows "slotted child_tail p cs" "\<not> is_leaf p" "sorted_keys cs"
  using assms inner_not_leaf by (auto simp: inner_node_def)

lemma insert_separator_run:
  assumes "inner_node p cs" "k \<notin> fst ` set cs"
  shows "\<exists>q. insert_separator k c p = (Inr (fits child_tail (put_key k c cs)), q) \<and> node_meta q = node_meta p \<and>
    inner_node q (if fits child_tail (put_key k c cs) then put_key k c cs else cs) \<and>
    (fits child_tail (put_key k c cs) \<or> compacted child_tail q cs)"
proof -
  note L = inner_nodeD [OF assms(1)]
  have "insert_separator k c p = insert_with_room (internal_cell_size (length k)) (write_internal_cell (lb k cs) k c) p"
    using lower_bound_slotted [OF L(1,3), of k] L(2) by (simp add: insert_separator_def op_defs)
  moreover obtain q where "insert_with_room (internal_cell_size (length k)) (write_internal_cell (lb k cs) k c) p
      = (Inr (fits child_tail (put_key k c cs)), q)" "node_meta q = node_meta p"
    "slotted child_tail q (if fits child_tail (put_key k c cs) then put_key k c cs else cs)"
    "fits child_tail (put_key k c cs) \<or> compacted child_tail q cs"
    using inner.insert_with_room_slotted [OF L(1,2) lb_le, of k c k, folded put_key_absent [OF L(3) assms(2)]]
    unfolding encode_child(2) fst_conv by blast
  ultimately show ?thesis using assms(1) L meta_type [of q p] by (auto simp: inner_node_def)
qed

lemma update_child_at_run:
  assumes "inner_node p cs" "i < length cs"
  shows "\<exists>q. update_child_at i c p = (Inr (), q) \<and> node_meta q = node_meta p \<and>
    inner_node q (cs[i := (fst (cs ! i), c)])"
proof -
  note L = inner_nodeD [OF assms(1)]
  let ?k = "fst (cs ! i)" and ?a = "24 + slot_at p i"
  let ?c = "(?k, c)" and ?q = "put32 p (?a + 2 + length ?k) c"
  have out: "?q a = p a" if "a < ?a \<or> ?a + length (encode child_tail ?c) \<le> a" for a
    by (rule f32.put_outside) (use that in \<open>auto simp: encode_child internal_cell_size_def\<close>)
  have "peek ?q ?a (2 + (length ?k + 4)) = encode child_tail ?c"
  proof -
    have "peek p ?a (2 + (length ?k + 4)) = encode child_tail (cs ! i)"
      using slotted_cell [OF L(1) assms(2)] by (simp add: cell_in_def encode_child internal_cell_size_def)
    then have "peek p ?a 2 = le 2 (length ?k)" "peek p (?a + 2) (length ?k) = ?k"
      unfolding peek_append by (auto simp: encode_def)
    moreover have "peek ?q (?a + 2 + length ?k) 4 = le 4 (unat c)"
      unfolding put32_def by (rule peek_memcpy_same) simp
    moreover have "peek ?q o' n = peek p o' n" if "o' + n \<le> ?a + 2 + length ?k" for o' n
      by (rule f32.peek_put_other) (use that in simp)
    ultimately show ?thesis unfolding peek_append by (simp add: encode_def child_tail_def)
  qed
  then have pk: "peek ?q ?a (length (encode child_tail ?c)) = encode child_tail ?c"
    by (simp add: encode_child internal_cell_size_def)
  have len: "length (encode child_tail ?c) = length (encode child_tail (cs ! i))" by (simp add: encode_child)
  have "map fst (cs[i := ?c]) = map fst cs" using assms(2) by (simp add: map_update list_update_same_conv)
  moreover have "update_child_at i c p = (Inr (), ?q)"
    using L assms(2) slottedD(2) [OF L(1)] slotted_parts(1) [OF L(1) assms(2)]
    by (simp add: update_child_at_def op_defs add.assoc)
  ultimately show ?thesis
    using overwrite_slotted [OF L(1) assms(2) len out pk] L meta_type [of ?q p] assms(1)
    by (auto simp: inner_node_def)
qed

lemma update_separator_key_run:
  assumes "inner_node p cs" "i < length cs" "length k = length (fst (cs ! i))" "sorted_keys (cs[i := (k, snd (cs ! i))])"
  shows "\<exists>q. update_separator_key i k p = (Inr (), q) \<and> node_meta q = node_meta p \<and> inner_node q (cs[i := (k, snd (cs ! i))])"
proof -
  note L = inner_nodeD [OF assms(1)]
  let ?c = "(k, snd (cs ! i))" and ?a = "24 + slot_at p i"
  let ?q = "memcpy p ?a (le 2 (length k) @ k)"
  have out: "?q a = p a" if "a < ?a \<or> ?a + length (encode child_tail ?c) \<le> a" for a
    by (rule memcpy_outside) (use that in \<open>auto simp: encode_child internal_cell_size_def\<close>)
  have "peek ?q ?a (2 + length k + 4) = encode child_tail ?c"
  proof -
    have "peek p ?a (2 + length k + 4) = encode child_tail (cs ! i)"
      using slotted_cell [OF L(1) assms(2)] assms(3) by (simp add: cell_in_def encode_child internal_cell_size_def)
    then have "peek p (?a + (2 + length k)) 4 = child_tail (snd (cs ! i))"
      unfolding peek_append using assms(3) by (auto simp: encode_def)
    moreover have "peek ?q ?a (2 + length k) = le 2 (length k) @ k" by (rule peek_memcpy_same) simp
    moreover have "peek ?q (?a + (2 + length k)) 4 = peek p (?a + (2 + length k)) 4" by (rule peek_memcpy_other) simp
    ultimately show ?thesis unfolding peek_append [of ?q ?a "2 + length k"] by (simp add: encode_def)
  qed
  then have pk: "peek ?q ?a (length (encode child_tail ?c)) = encode child_tail ?c"
    by (simp add: encode_child internal_cell_size_def)
  have len: "length (encode child_tail ?c) = length (encode child_tail (cs ! i))" using assms(3) by (simp add: encode_child)
  have "update_separator_key i k p = (Inr (), ?q)"
    using L assms(2,3) slottedD(2) [OF L(1)] key_at_slotted [OF L(1) assms(2)]
    by (simp add: update_separator_key_def op_defs)
  then show ?thesis
    using overwrite_slotted [OF L(1) assms(2) len out pk] L meta_type [of ?q p] assms(1,4)
    by (auto simp: inner_node_def)
qed

subsection \<open>The pieces of a split\<close>

lemma split_loop_run:
  assumes "\<And>j. j < n \<Longrightarrow> cost j = Inr (ws ! j)" "length ws = n" "half < sum_list ws"
    "i < n" "acc = sum_list (take i ws)" "i = 0 \<longrightarrow> 2 \<le> n" "i \<le> 1 \<or> acc \<le> half"
  shows "\<exists>m. split_loop cost half n i acc idx = Inr m \<and> 0 < m \<and> m < n \<and>
    (m = 1 \<or> sum_list (take m ws) \<le> half) \<and> half < sum_list (take (Suc m) ws)"
  using assms
proof (induction cost half n i acc idx rule: split_loop.induct)
  case (1 cost half n i acc idx)
  have next_acc: "acc + ws ! i = sum_list (take (Suc i) ws)"
    using 1(3,5,6) by (simp add: take_Suc_conv_app_nth)
  show ?case
  proof (cases "acc + ws ! i > half \<and> i > 0")
    case True
    then show ?thesis
      using 1(2,5,6,8) next_acc by (subst split_loop.simps) auto
  next
    case False
    have "i + 1 < n"
    proof (rule ccontr)
      assume "\<not> i + 1 < n"
      then have "Suc i = n" using 1(5) by simp
      then have "acc + ws ! i = sum_list ws" using next_acc 1(3) by simp
      with False 1(4,7) \<open>Suc i = n\<close> show False by auto
    qed
    moreover have "split_loop cost half n i acc idx = split_loop cost half n (i + 1) (acc + ws ! i) (i + 1)"
      using 1(2,5) False by (subst split_loop.simps) auto
    moreover have "i + 1 \<le> 1 \<or> acc + ws ! i \<le> half" using False by auto
    ultimately show ?thesis
      using 1(1) [of "ws ! i", OF 1(5) 1(2) [OF 1(5)] False] 1(2-4) next_acc by simp
  qed
qed

lemma fits_append: "fits ft (as @ bs) \<Longrightarrow> fits ft as \<and> fits ft bs"
  by (simp add: fits_def)

lemma copy_loop:
  assumes "\<And>i. i < length cs \<Longrightarrow> rk i p = Inr (fst (cs ! i)) \<and> rx i p = Inr (snd (cs ! i))"
    and ins: "\<And>q ds k x. N q ds \<Longrightarrow> sorted_keys (ds @ [(k, x)]) \<Longrightarrow> fits ft (ds @ [(k, x)]) \<Longrightarrow>
      \<exists>r. ins k x q = (Inr True, r) \<and> N r (ds @ [(k, x)]) \<and> node_meta r = node_meta q"
    and "sorted_keys cs" "fits ft cs" "N q []" "m \<le> length cs"
  shows "\<exists>r. op_foreach (\<lambda>i. op_bind (op_read (\<lambda>(p, q). rk i p)) (\<lambda>k. op_bind (op_read (\<lambda>(p, q). rx i p)) (\<lambda>x.
      op_bind (op_snd (ins k x)) (\<lambda>ok. op_assert (\<lambda>_. ok))))) [m..<length cs] (p, q) = (Inr (), (p, r)) \<and>
    N r (drop m cs) \<and> node_meta r = node_meta q"
proof -
  let ?f = "\<lambda>i. op_bind (op_read (\<lambda>(p, q). rk i p)) (\<lambda>k. op_bind (op_read (\<lambda>(p, q). rx i p)) (\<lambda>x.
      op_bind (op_snd (ins k x)) (\<lambda>ok. op_assert (\<lambda>_. ok))))"
  let ?I = "\<lambda>js s. fst s = p \<and> N (snd s) (take (length js) (drop m cs)) \<and> node_meta (snd s) = node_meta q"
  have "\<exists>t. ?f i s = (Inr (), t) \<and> ?I (js @ [i]) t" if us: "[m..<length cs] = js @ i # is" and I: "?I js s" for js i "is" s
  proof -
    obtain r where s: "s = (p, r)" "N r (take (length js) (drop m cs))" "node_meta r = node_meta q"
      using I by (cases s) auto
    have lj: "length js < length [m..<length cs]" using us by simp
    have i: "i = m + length js" "i < length cs"
      using arg_cong [OF us, of "\<lambda>l. l ! length js"] lj by simp_all
    let ?ds = "take (length js) (drop m cs)"
    have app: "take (Suc (length js)) (drop m cs) = ?ds @ [cs ! i]"
      using i by (simp add: take_Suc_conv_app_nth)
    have split: "cs = take m cs @ (?ds @ [cs ! i]) @ drop (Suc (length js)) (drop m cs)"
      unfolding app [symmetric] append_take_drop_id ..
    have "sorted_keys (?ds @ [cs ! i])" "fits ft (?ds @ [cs ! i])"
      using assms(3,4) sorted_keys_append fits_append by (subst (asm) split, blast)+
    then obtain t where "ins (fst (cs ! i)) (snd (cs ! i)) r = (Inr True, t)" "N t (?ds @ [cs ! i])" "node_meta t = node_meta r"
      using ins [OF s(2), of "fst (cs ! i)" "snd (cs ! i)"] by auto
    then show ?thesis using assms(1) [OF i(2)] s app by (simp add: op_bind_def op_read_def op_snd_def op_assert_def)
  qed
  moreover have "?I [] (p, q)" using assms(5) by simp
  ultimately obtain t where "op_foreach ?f [m..<length cs] (p, q) = (Inr (), t)" "?I [m..<length cs] t"
    using op_foreach_run [where I = ?I and us = "[m..<length cs]" and s = "(p, q)" and f = ?f] by blast
  then show ?thesis by (cases t) auto
qed

lemma remove_loop:
  assumes "slotted ft p cs" "m \<le> length cs"
  shows "\<exists>r. op_foreach (\<lambda>i. op_fst (remove_cell i)) (rev [m..<length cs]) (p, q) = (Inr (), (r, q)) \<and>
    slotted ft r (take m cs) \<and> node_meta r = node_meta p"
proof -
  let ?us = "rev [m..<length cs]"
  let ?I = "\<lambda>js s. snd s = q \<and> slotted ft (fst s) (take (length cs - length js) cs) \<and> node_meta (fst s) = node_meta p"
  have "\<exists>t. op_fst (remove_cell i) s = (Inr (), t) \<and> ?I (js @ [i]) t" if us: "?us = js @ i # is" and I: "?I js s" for js i "is" s
  proof -
    obtain r where s: "s = (r, q)" "slotted ft r (take (length cs - length js) cs)" "node_meta r = node_meta p"
      using I by (cases s) auto
    have lj: "length js < length ?us" using us by simp
    have i: "Suc i = length cs - length js"
      using arg_cong [OF us, of "\<lambda>l. l ! length js"] lj by (simp add: rev_nth)
    then have "i < length (take (length cs - length js) cs)" by simp
    moreover have "take i (take (length cs - length js) cs) @ drop (Suc i) (take (length cs - length js) cs)
      = take i cs" using i by (simp add: min_def)
    moreover have "length cs - length (js @ [i]) = i" using i by simp
    ultimately show ?thesis using remove_cell_slotted [OF s(2), of i] s(1,3) by (auto simp: op_fst_def)
  qed
  moreover have "?I [] (p, q)" using assms(1) by simp
  ultimately obtain t where "op_foreach (\<lambda>i. op_fst (remove_cell i)) ?us (p, q) = (Inr (), t)" "?I ?us t"
    using op_foreach_run [where I = ?I and us = ?us and s = "(p, q)" and f = "\<lambda>i. op_fst (remove_cell i)"] by blast
  then show ?thesis using assms(2) by (cases t) auto
qed

subsection \<open>Link fields\<close>

lemma slotted_put_link:
  assumes "slotted ft p cs" "32 \<le> o'" "o' + 4 \<le> 56"
  shows "slotted ft (put32 p o' w) cs" "cell_end (put32 p o' w) = cell_end p"
proof -
  note D = slottedD [OF assms(1)]
  have same: "put32 p o' w a = p a" if "a < 32 \<or> 56 \<le> a" for a
    by (rule f32.put_outside) (use that assms(2,3) in auto)
  have g: "get16 (put32 p o' w) a = get16 p a" if "a + 2 \<le> 32 \<or> 56 \<le> a" for a
    by (rule get16_put32) (use that assms(2,3) in auto)
  show "slotted ft (put32 p o' w) cs"
    by (rule slotted_transfer [OF assms(1)])
      (use g same D in \<open>auto simp: node_get_defs intro!: page_ok_same [OF D(1)]\<close>)
  show "cell_end (put32 p o' w) = cell_end p" using g by (simp add: node_get_defs)
qed

lemma slotted_set_link [simp]:
  "slotted ft p cs \<Longrightarrow> slotted ft (set_parent_id i p) cs"
  "slotted ft p cs \<Longrightarrow> slotted ft (set_right_sibling i p) cs"
  "slotted ft p cs \<Longrightarrow> slotted ft (set_left_sibling i p) cs"
  "slotted ft p cs \<Longrightarrow> slotted ft (set_first_child i p) cs"
  by (simp_all add: node_set_defs slotted_put_link)

lemma link_simps [simp]:
  "parent_id (set_parent_id i p) = i" "right_sibling (set_parent_id i p) = right_sibling p"
  "left_sibling (set_parent_id i p) = left_sibling p" "first_child (set_parent_id i p) = first_child p"
  "parent_id (set_right_sibling i p) = parent_id p" "right_sibling (set_right_sibling i p) = i"
  "left_sibling (set_right_sibling i p) = left_sibling p" "first_child (set_right_sibling i p) = first_child p"
  "parent_id (set_left_sibling i p) = parent_id p" "right_sibling (set_left_sibling i p) = right_sibling p"
  "left_sibling (set_left_sibling i p) = i" "first_child (set_left_sibling i p) = first_child p"
  "parent_id (set_first_child i p) = parent_id p" "right_sibling (set_first_child i p) = right_sibling p"
  "left_sibling (set_first_child i p) = left_sibling p" "first_child (set_first_child i p) = i"
  "page_id (set_parent_id i p) = page_id p" "page_id (set_right_sibling i p) = page_id p"
  "page_id (set_left_sibling i p) = page_id p" "page_id (set_first_child i p) = page_id p"
  "page_type (set_parent_id i p) = page_type p" "page_type (set_right_sibling i p) = page_type p"
  "page_type (set_left_sibling i p) = page_type p" "page_type (set_first_child i p) = page_type p"
  by (simp_all add: node_defs mem_simps)

lemma is_leaf_link [simp]:
  "is_leaf (set_parent_id i p) = is_leaf p" "is_leaf (set_right_sibling i p) = is_leaf p"
  "is_leaf (set_left_sibling i p) = is_leaf p" "is_leaf (set_first_child i p) = is_leaf p"
  by (simp_all add: is_leaf_def)

lemma node_link [simp]:
  "leaf_node p cs \<Longrightarrow> leaf_node (set_parent_id i p) cs" "leaf_node p cs \<Longrightarrow> leaf_node (set_right_sibling i p) cs"
  "leaf_node p cs \<Longrightarrow> leaf_node (set_left_sibling i p) cs"
  "inner_node p ds \<Longrightarrow> inner_node (set_parent_id i p) ds" "inner_node p ds \<Longrightarrow> inner_node (set_first_child i p) ds"
  by (simp_all add: leaf_node_def inner_node_def)

subsection \<open>Splitting a node\<close>

text \<open>The space a cell takes together with its slot.\<close>

definition cost :: "('x \<Rightarrow> bytes) \<Rightarrow> bytes \<times> 'x \<Rightarrow> nat" where
  "cost ft c = length (encode ft c) + 2"

definition space :: "('x \<Rightarrow> bytes) \<Rightarrow> (bytes \<times> 'x) list \<Rightarrow> nat" where
  "space ft cs = (\<Sum>c\<leftarrow>cs. cost ft c)"

lemma space_eq: "space ft cs = used ft cs + 2 * length cs"
  by (induction cs) (simp_all add: space_def used_def cost_def)

lemma space_put_key: "space ft (put_key k v cs) \<le> space ft cs + cost ft (k, v)"
  by (induction cs) (auto simp: space_def)

lemma fits_space: "fits ft cs \<longleftrightarrow> space ft cs \<le> 4040"
  by (auto simp: fits_def space_eq)

lemma space_append: "space ft (as @ bs) = space ft as + space ft bs"
  by (simp add: space_def)

text \<open>When cells are at most a quarter of a node, either half of a split has room for one more.\<close>

lemma split_room:
  assumes "slotted ft p cs" "m < length cs" "m = 1 \<or> space ft (take m cs) \<le> space ft cs div 2"
    and "space ft cs div 2 < space ft (take (Suc m) cs)"
    and "\<forall>c \<in> set cs. cost ft c \<le> 1010" "cost ft (k, v) \<le> 1010"
  shows "fits ft (put_key k v (take m cs)) \<and> fits ft (put_key k v (drop m cs)) \<and> fits ft (put_key k v (drop (Suc m) cs))"
proof -
  have total: "space ft cs \<le> 4040" using slotted_used(2) [OF assms(1)] by (simp add: fits_space)
  have cm: "cost ft (cs ! m) \<le> 1010" using assms(2,5) by simp
  have next_: "space ft (take (Suc m) cs) = space ft (take m cs) + cost ft (cs ! m)"
    using assms(2) by (simp add: take_Suc_conv_app_nth space_append) (simp add: space_def)
  have sum: "space ft cs = space ft (take m cs) + space ft (drop m cs)"
    using space_append [of ft "take m cs" "drop m cs"] by simp
  have one: "space ft (take 1 cs) \<le> 1010"
    using assms(2,5) by (cases cs) (auto simp: space_def)
  have "space ft (take m cs) \<le> 2020" using assms(3) one total by auto
  moreover have "space ft (drop m cs) \<le> 2020 + 1010" using sum next_ assms(4) cm total by linarith
  moreover have "space ft (drop (Suc m) cs) \<le> space ft (drop m cs)"
    using assms(2) by (simp add: Cons_nth_drop_Suc [symmetric] space_def)
  ultimately show ?thesis
    using space_put_key [of ft k v "take m cs"] space_put_key [of ft k v "drop m cs"]
      space_put_key [of ft k v "drop (Suc m) cs"] assms(6)
    by (simp add: fits_space)
qed

text \<open>A node that cannot take a small cell holds several.\<close>

lemma overflow_length:
  assumes "\<not> fits ft (put_key k v cs)" "\<forall>c \<in> set cs. cost ft c \<le> 1010" "cost ft (k, v) \<le> 1010"
  shows "2 \<le> length cs"
proof (rule ccontr)
  assume "\<not> 2 \<le> length cs"
  then have "cs = [] \<or> (\<exists>c. cs = [c])" by (cases cs rule: list.exhaust; cases "tl cs") auto
  then have "space ft cs \<le> 1010" using assms(2) by (auto simp: space_def)
  then show False using assms(1,3) space_put_key [of ft k v cs] by (simp add: fits_space)
qed

lemma split_point_run:
  assumes "slotted ft p cs" "compacted ft p cs" "2 \<le> length cs"
    "\<forall>i < length cs. cst p i = Inr (cost ft (cs ! i))"
  shows "\<exists>m. split_point cst p = Inr m \<and> 0 < m \<and> m < length cs \<and>
    (m = 1 \<or> space ft (take m cs) \<le> space ft cs div 2) \<and> space ft cs div 2 < space ft (take (Suc m) cs)"
proof -
  note D = slottedD [OF assms(1)]
  let ?ws = "map (cost ft) cs"
  have ce: "cell_end p + used ft cs = 4072" using assms(2) by (simp add: compacted_def)
  have "free_space p = Inr (4040 - space ft cs)"
    using free_space_slotted [OF assms(1)] ce by (simp add: space_eq)
  moreover have "space ft cs \<le> 4040" using ce D(3-5) by (simp add: space_eq)
  moreover have "0 < space ft cs" using assms(3) by (auto simp: space_eq)
  moreover have "cs \<noteq> []" using assms(3) by auto
  moreover have "sum_list ?ws = space ft cs" "sum_list (take j ?ws) = space ft (take j cs)" for j
    by (simp_all add: space_def take_map)
  ultimately show ?thesis
    using split_loop_run [of "length cs" "cst p" ?ws "space ft cs div 2" 0 0 0] assms(3,4) D(2)
    by (simp add: split_point_def)
qed

lemma split_leaf_run:
  assumes "leaf_node p cs" "compacted leaf_tail p cs" "2 \<le> length cs" "leaf_node q []"
  shows "\<exists>m p' q'. split_into (p, q) = (Inr (fst (cs ! m)), (p', q')) \<and> 0 < m \<and> m < length cs \<and>
    leaf_node p' (take m cs) \<and> leaf_node q' (drop m cs) \<and>
    node_meta p' = node_meta (set_right_sibling (page_id q) p) \<and>
    node_meta q' = node_meta (set_left_sibling (page_id p) (set_right_sibling (right_sibling p) (set_parent_id (parent_id p) q))) \<and>
    (m = 1 \<or> space leaf_tail (take m cs) \<le> space leaf_tail cs div 2) \<and>
    space leaf_tail cs div 2 < space leaf_tail (take (Suc m) cs)"
proof -
  have L: "slotted leaf_tail p cs" "is_leaf p" "sorted_keys cs" using assms(1) by (auto simp: leaf_node_def)
  let ?q1 = "set_parent_id (parent_id p) q"
  have lc: "\<forall>i < length cs. leaf_cost p i = Inr (cost leaf_tail (cs ! i))"
    using key_at_slotted [OF L(1)] value_at_slotted [OF L(1,2)] by (simp add: leaf_cost_def cost_def encode_leaf)
  obtain m where m: "split_point leaf_cost p = Inr m" "0 < m" "m < length cs"
    "m = 1 \<or> space leaf_tail (take m cs) \<le> space leaf_tail cs div 2"
    "space leaf_tail cs div 2 < space leaf_tail (take (Suc m) cs)"
    using split_point_run [OF L(1) assms(2,3), of leaf_cost, OF lc] by (elim exE conjE) (rule that; assumption)
  have ins: "\<exists>r. insert_leaf_cell k x q = (Inr True, r) \<and> leaf_node r (ds @ [(k, x)]) \<and> node_meta r = node_meta q"
    if "leaf_node q ds" "sorted_keys (ds @ [(k, x)])" "fits leaf_tail (ds @ [(k, x)])" for q ds k x
    using insert_leaf_cell_run [OF that(1), of k x] that(3) unfolding put_key_last [OF that(2)] by auto
  obtain r where r: "op_foreach (\<lambda>i. op_bind (op_read (\<lambda>(p, q). key_at i p)) (\<lambda>k.
       op_bind (op_read (\<lambda>(p, q). value_at i p)) (\<lambda>v.
       op_bind (op_snd (insert_leaf_cell k v)) (\<lambda>ok. op_assert (\<lambda>_. ok))))) [m..<length cs] (p, ?q1) = (Inr (), (p, r))"
    "leaf_node r (drop m cs)" "node_meta r = node_meta ?q1"
    using copy_loop [of cs key_at p value_at leaf_node leaf_tail insert_leaf_cell ?q1 m]
      key_at_slotted [OF L(1)] value_at_slotted [OF L(1,2)] ins L(3) slotted_used(2) [OF L(1)] assms(4) m(3)
    by auto
  obtain p1 where p1: "op_foreach (\<lambda>i. op_fst (remove_cell i)) (rev [m..<length cs]) (p, r) = (Inr (), (p1, r))"
    "slotted leaf_tail p1 (take m cs)" "node_meta p1 = node_meta p"
    using remove_loop [OF L(1), of m r] m(3) by auto
  have lp1: "leaf_node p1 (take m cs)"
    using p1 L leaf_meta [OF p1(3)] sorted_keys_take_drop [OF L(3)] by (simp add: leaf_node_def)
  let ?q' = "set_left_sibling (page_id p1) (set_right_sibling (right_sibling p1) r)"
  let ?p' = "set_right_sibling (page_id ?q') p1"
  have "num_keys p = length cs" "num_keys q = 0"
    using slottedD(2) [OF L(1)] assms(4) slottedD(2) [of leaf_tail q "[]"] by (auto simp: leaf_node_def)
  then have "split_into (p, q) = (Inr (fst (cs ! m)), (?p', ?q'))"
    using assms(3) L(2) m(1) r(1) p1(1) key_at_slotted [OF L(1) m(3)]
    by (simp add: split_into_def split_leaf_def op_simps op_assert_def)
  moreover have "node_meta ?p' = node_meta (set_right_sibling (page_id q) p)"
    using p1(3) r(3) by (simp add: node_meta_def)
  moreover have "node_meta ?q' = node_meta (set_left_sibling (page_id p) (set_right_sibling (right_sibling p) ?q1))"
    using p1(3) r(3) by (simp add: node_meta_def)
  ultimately show ?thesis using lp1 r(2) m(2-) by (intro exI conjI) (assumption | simp)+
qed

lemma split_internal_run:
  assumes "inner_node p cs" "compacted child_tail p cs" "2 \<le> length cs" "inner_node q []"
  shows "\<exists>m p' q'. split_into (p, q) = (Inr (fst (cs ! m)), (p', q')) \<and> 0 < m \<and> m < length cs \<and>
    inner_node p' (take m cs) \<and> inner_node q' (drop (Suc m) cs) \<and> node_meta p' = node_meta p \<and>
    node_meta q' = node_meta (set_first_child (snd (cs ! m)) (set_parent_id (parent_id p) q)) \<and>
    (m = 1 \<or> space child_tail (take m cs) \<le> space child_tail cs div 2) \<and>
    space child_tail cs div 2 < space child_tail (take (Suc m) cs)"
proof -
  note L = inner_nodeD [OF assms(1)]
  have ic: "\<forall>i < length cs. internal_cost p i = Inr (cost child_tail (cs ! i))"
    using key_at_slotted [OF L(1)] by (simp add: internal_cost_def cost_def encode_child)
  obtain m where m: "split_point internal_cost p = Inr m" "0 < m" "m < length cs"
    "m = 1 \<or> space child_tail (take m cs) \<le> space child_tail cs div 2"
    "space child_tail cs div 2 < space child_tail (take (Suc m) cs)"
    using split_point_run [OF L(1) assms(2,3), of internal_cost, OF ic] by (elim exE conjE) (rule that; assumption)
  let ?q1 = "set_first_child (snd (cs ! m)) (set_parent_id (parent_id p) q)"
  have ins: "\<exists>r. insert_separator k x q = (Inr True, r) \<and> inner_node r (ds @ [(k, x)]) \<and> node_meta r = node_meta q"
    if "inner_node q ds" "sorted_keys (ds @ [(k, x)])" "fits child_tail (ds @ [(k, x)])" for q ds k x
  proof -
    have "k \<notin> fst ` set ds" using that(2) by (auto simp: sorted_wrt_append)
    then show ?thesis
      using insert_separator_run [OF that(1), of k x] that(3) unfolding put_key_last [OF that(2)] by auto
  qed
  obtain r where r: "op_foreach (\<lambda>i. op_bind (op_read (\<lambda>(p, q). key_at i p)) (\<lambda>k.
       op_bind (op_read (\<lambda>(p, q). child_at i p)) (\<lambda>c.
       op_bind (op_snd (insert_separator k c)) (\<lambda>ok. op_assert (\<lambda>_. ok))))) [Suc m..<length cs] (p, ?q1) = (Inr (), (p, r))"
    "inner_node r (drop (Suc m) cs)" "node_meta r = node_meta ?q1"
    using copy_loop [of cs key_at p child_at inner_node child_tail insert_separator ?q1 "Suc m"]
      key_at_slotted [OF L(1)] child_at_slotted [OF L(1,2)] ins L(3) slotted_used(2) [OF L(1)] assms(4) m(3)
    by auto
  obtain p1 where p1: "op_foreach (\<lambda>i. op_fst (remove_cell i)) (rev [m..<length cs]) (p, r) = (Inr (), (p1, r))"
    "slotted child_tail p1 (take m cs)" "node_meta p1 = node_meta p"
    using remove_loop [OF L(1), of m r] m(3) by auto
  have lp1: "inner_node p1 (take m cs)"
    using p1 assms(1) meta_type [OF p1(3)] sorted_keys_take_drop [OF L(3)] by (simp add: inner_node_def)
  have "num_keys p = length cs" "num_keys q = 0"
    using slottedD(2) [OF L(1)] slottedD(2) [OF inner_nodeD(1) [OF assms(4)]] by auto
  moreover have "clamp_mid m (length cs) = m" using m(2,3) by (auto simp: clamp_mid_def)
  ultimately have "split_into (p, q) = (Inr (fst (cs ! m)), (p1, r))"
    using assms(3) L(2) m(1,2) r(1) p1(1) key_at_slotted [OF L(1) m(3)] child_at_slotted [OF L(1,2) m(3)]
    by (simp add: split_into_def split_internal_def op_simps op_assert_def)
  then show ?thesis using lp1 p1(3) r(2,3) m(2-) by (intro exI conjI) (assumption | simp)+
qed

end
