(* ===== verification/Node_Props.thy ===== *)
theory Node_Props
  imports Node_Ops
begin

section \<open>Properties of B+Tree nodes\<close>

text \<open>
  What the tree relies on: searching, inserting, removing, compacting and splitting a node do to
  the represented list of cells what they promise, never touch a byte outside the page
  (\<open>page_ok\<close> is part of \<open>leaf_node\<close> and \<open>inner_node\<close>).
\<close>

subsection \<open>Two small nodes used by the witnesses\<close>

definition sample_leaf :: page where
  "sample_leaf = snd (op_bind (insert_leaf_cell [1] [10]) (\<lambda>_. op_bind (insert_leaf_cell [2] [20]) (\<lambda>_. compact))
     (init_leaf 1 INVALID_PAGE_ID new_Page))"

definition sample_cells :: "(bytes \<times> bytes) list" where
  "sample_cells = [([1], [10]), ([2], [20])]"

definition sample_inner :: page where
  "sample_inner = snd (op_bind (insert_separator [1] 10) (\<lambda>_. op_bind (insert_separator [2] 20) (\<lambda>_. compact))
     (init_internal 1 INVALID_PAGE_ID new_Page))"

lemma sample_leaf_ok:
  "leaf_node sample_leaf [([1], [10]), ([2], [20])]" "compacted leaf_tail sample_leaf [([1], [10]), ([2], [20])]"
proof -
  let ?p = "init_leaf 1 INVALID_PAGE_ID new_Page"
  have l: "leaf_node ?p []" by (rule init_leaf_node) simp
  have f: "fits leaf_tail [([1], [10])]" "fits leaf_tail [([1], [10]), ([2], [20])]"
    by (simp_all add: fits_def encode_leaf leaf_cell_size_def)
  obtain q where q: "insert_leaf_cell [1] [10] ?p = (Inr True, q)" "leaf_node q [([1], [10])]"
    using insert_leaf_cell_run [OF l, of "[1]" "[10]"] f by auto
  obtain r where r: "insert_leaf_cell [2] [20] q = (Inr True, r)" "leaf_node r [([1], [10]), ([2], [20])]"
    using insert_leaf_cell_run [OF q(2), of "[2]" "[20]"] f by auto
  obtain s where s: "compact r = (Inr (), s)" "slotted leaf_tail s [([1], [10]), ([2], [20])]"
    "compacted leaf_tail s [([1], [10]), ([2], [20])]" "node_meta s = node_meta r"
    using leaf.compact_slotted [of r "[([1], [10]), ([2], [20])]"] r(2) unfolding leaf_node_def by blast
  have "sample_leaf = s" using q(1) r(1) s(1) by (simp add: sample_leaf_def op_bind_def)
  then show "leaf_node sample_leaf [([1], [10]), ([2], [20])]"
    "compacted leaf_tail sample_leaf [([1], [10]), ([2], [20])]"
    using s r(2) leaf_meta [OF s(4)] by (simp_all add: leaf_node_def)
qed

lemma sample_inner_ok:
  "inner_node sample_inner [([1], 10), ([2], 20)]" "compacted child_tail sample_inner [([1], 10), ([2], 20)]"
proof -
  let ?p = "init_internal 1 INVALID_PAGE_ID new_Page"
  have l: "inner_node ?p []" by (rule init_inner_node) simp
  have f: "fits child_tail [([1], 10)]" "fits child_tail [([1], 10), ([2], 20)]"
    by (simp_all add: fits_def encode_child internal_cell_size_def)
  obtain q where q: "insert_separator [1] 10 ?p = (Inr True, q)" "inner_node q [([1], 10)]"
    using insert_separator_run [OF l, of "[1]" 10] f by auto
  obtain r where r: "insert_separator [2] 20 q = (Inr True, r)" "inner_node r [([1], 10), ([2], 20)]"
    using insert_separator_run [OF q(2), of "[2]" 20] f by auto
  obtain s where s: "compact r = (Inr (), s)" "slotted child_tail s [([1], 10), ([2], 20)]"
    "compacted child_tail s [([1], 10), ([2], 20)]" "node_meta s = node_meta r"
    using inner.compact_slotted [OF inner_nodeD(1,2) [OF r(2)]] by blast
  have "sample_inner = s" using q(1) r(1) s(1) by (simp add: sample_inner_def op_bind_def)
  then show "inner_node sample_inner [([1], 10), ([2], 20)]" "compacted child_tail sample_inner [([1], 10), ([2], 20)]"
    using s r(2) meta_type [OF s(4)] by (simp_all add: inner_node_def)
qed

subsection \<open>Search\<close>

text \<open>C26. The binary search returns, without failing an assertion, the first slot whose key is not
  below the one searched for: every key before it is smaller, every key from it on is not.\<close>

theorem lower_bound_correct:
  assumes "slotted ft p cs" "sorted_keys cs"
  shows "\<exists>i \<le> length cs. lower_bound key p = Inr i \<and> (\<forall>j < i. fst (cs ! j) < key) \<and>
    (\<forall>j. i \<le> j \<longrightarrow> j < length cs \<longrightarrow> key \<le> fst (cs ! j))"
proof (intro exI [of _ "lb key cs"] conjI allI impI)
  show "lower_bound key p = Inr (lb key cs)" by (rule lower_bound_slotted [OF assms])
  show "fst (cs ! j) < key" if "j < lb key cs" for j
    using that less_le_trans [OF that lb_le] lb_iff [OF assms(2), of j key] by simp
  show "key \<le> fst (cs ! j)" if "lb key cs \<le> j" "j < length cs" for j
    using that lb_iff [OF assms(2) that(2), of key] by (simp add: not_less)
qed simp

theorem lower_bound_correct_witness:
  "\<exists>i \<le> length sample_cells. lower_bound [2] sample_leaf = Inr i \<and> (\<forall>j < i. fst (sample_cells ! j) < [2]) \<and>
    (\<forall>j. i \<le> j \<longrightarrow> j < length sample_cells \<longrightarrow> [2] \<le> fst (sample_cells ! j))"
  by (rule lower_bound_correct [where ft = leaf_tail])
    (use sample_leaf_ok(1) in \<open>simp_all add: leaf_node_def sample_cells_def\<close>)

subsection \<open>Changing a leaf\<close>

text \<open>C12. \<open>insert_leaf_cell\<close> refines the update of a sorted association list, on every branch:
  in place, removal and re-insertion, insertion with or without compaction, and refusal. It
  returns true exactly if the updated list fits on the page. When it refuses, an old value of the
  key is already gone, and the heap is left without holes. The page's id, type and links never
  change, and whatever the sizes of key and value, nothing outside the page is written.\<close>

theorem insert_leaf_cell_correct:
  assumes "leaf_node p cs"
  shows "\<exists>q. insert_leaf_cell k v p = (Inr (fits leaf_tail (put_key k v cs)), q) \<and> node_meta q = node_meta p \<and>
    (if fits leaf_tail (put_key k v cs) then leaf_node q (put_key k v cs) \<and> map_of (put_key k v cs) = (map_of cs)(k \<mapsto> v)
     else leaf_node q (del_key k cs) \<and> compacted leaf_tail q (del_key k cs))"
proof -
  have "sorted_keys cs" using assms by (simp add: leaf_node_def)
  from insert_leaf_cell_run [OF assms, of k v] map_of_put_key [OF this, of k v] show ?thesis by auto
qed

theorem insert_leaf_cell_correct_witness:
  "\<exists>q. insert_leaf_cell [1] [7, 8] sample_leaf = (Inr True, q) \<and> leaf_node q [([1], [7, 8]), ([2], [20])]"
proof -
  have "fits leaf_tail (put_key [1] [7, 8] [([1], [10]), ([2], [20])])"
    by (simp add: fits_def encode_leaf leaf_cell_size_def)
  then show ?thesis using insert_leaf_cell_correct [OF sample_leaf_ok(1), of "[1]" "[7, 8]"] by auto
qed

text \<open>What was inserted is found: after a successful insertion the search leads to a slot with
  exactly that key and that value.\<close>

theorem insert_leaf_cell_lookup:
  assumes "leaf_node p cs" "insert_leaf_cell k v p = (Inr True, q)"
  shows "\<exists>i. lower_bound k q = Inr i \<and> i < num_keys q \<and> key_at i q = Inr k \<and> value_at i q = Inr v"
proof -
  have s: "sorted_keys cs" using assms(1) by (simp add: leaf_node_def)
  have q: "leaf_node q (put_key k v cs)"
    using insert_leaf_cell_run [OF assms(1), of k v] assms(2) by auto
  then have Q: "slotted leaf_tail q (put_key k v cs)" "is_leaf q" "sorted_keys (put_key k v cs)"
    by (auto simp: leaf_node_def)
  let ?i = "lb k (put_key k v cs)"
  have "map_of (put_key k v cs) k = Some v" using map_of_put_key [OF s] by simp
  then have i: "?i < length (put_key k v cs)" "fst (put_key k v cs ! ?i) = k" "snd (put_key k v cs ! ?i) = v"
    using map_of_lb [OF Q(3), of k] by (auto split: if_splits)
  show ?thesis
    using lower_bound_slotted [OF Q(1,3)] key_at_slotted [OF Q(1) i(1)] value_at_slotted [OF Q(1,2) i(1)] i
      slottedD(2) [OF Q(1)] by auto
qed

theorem insert_leaf_cell_lookup_witness:
  "\<exists>q i. insert_leaf_cell [3] [30] sample_leaf = (Inr True, q) \<and> lower_bound [3] q = Inr i \<and>
    key_at i q = Inr [3] \<and> value_at i q = Inr [30]"
proof -
  have "fits leaf_tail (put_key [3] [30] [([1], [10]), ([2], [20])])"
    by (simp add: fits_def encode_leaf leaf_cell_size_def)
  then obtain q where "insert_leaf_cell [3] [30] sample_leaf = (Inr True, q)"
    using insert_leaf_cell_run [OF sample_leaf_ok(1), of "[3]" "[30]"] by auto
  then show ?thesis using insert_leaf_cell_lookup [OF sample_leaf_ok(1)] by blast
qed

text \<open>\<open>remove_cell\<close> removes exactly the cell of its slot, whatever the format of the node, and
  changes neither the other cells nor the links; a slot that does not exist fails the
  assertion.\<close>

theorem remove_cell_correct:
  assumes "slotted ft p cs"
  shows "\<exists>q. remove_cell i p = (if i < length cs then Inr () else Inl Assertion_failure, q) \<and>
    node_meta q = node_meta p \<and> slotted ft q (take i cs @ drop (Suc i) cs)"
proof (cases "i < length cs")
  case True
  then show ?thesis using remove_cell_slotted [OF assms True] by auto
next
  case False
  then show ?thesis
    using assms slottedD(2) [OF assms] by (auto simp: remove_cell_def op_defs)
qed

theorem remove_cell_correct_witness:
  "\<exists>q. remove_cell 0 sample_leaf = (Inr (), q) \<and> node_meta q = node_meta sample_leaf \<and>
    slotted leaf_tail q [([2], [20])]"
  using remove_cell_correct [of leaf_tail sample_leaf "[([1], [10]), ([2], [20])]" 0] sample_leaf_ok(1)
  by (auto simp: leaf_node_def)

text \<open>C30. \<open>compact\<close> keeps every cell and every link and leaves no hole in the heap, so that the
  free space is all the space the cells do not need.\<close>

theorem compact_correct:
  assumes "leaf_node p cs \<or> inner_node p ds"
  shows "\<exists>q. compact p = (Inr (), q) \<and> node_meta q = node_meta p \<and>
    (leaf_node p cs \<longrightarrow> leaf_node q cs \<and> free_space q = Inr (4040 - space leaf_tail cs)) \<and>
    (inner_node p ds \<longrightarrow> inner_node q ds \<and> free_space q = Inr (4040 - space child_tail ds))"
proof (cases "leaf_node p cs")
  case True
  then have L: "slotted leaf_tail p cs" "is_leaf p" "sorted_keys cs" by (auto simp: leaf_node_def)
  obtain q where q: "compact p = (Inr (), q)" "slotted leaf_tail q cs" "compacted leaf_tail q cs" "node_meta q = node_meta p"
    using leaf.compact_slotted [OF L(1,2)] by blast
  then have "leaf_node q cs" "free_space q = Inr (4040 - space leaf_tail cs)"
    using L leaf_meta [OF q(4)] free_space_slotted [OF q(2)] by (auto simp: leaf_node_def compacted_def space_eq)
  then show ?thesis using q(1,4) inner_not_leaf [of p ds] L(2) by blast
next
  case False
  then have I: "inner_node p ds" using assms by blast
  obtain q where q: "compact p = (Inr (), q)" "slotted child_tail q ds" "compacted child_tail q ds" "node_meta q = node_meta p"
    using inner.compact_slotted [OF inner_nodeD(1,2) [OF I]] by blast
  then have "inner_node q ds" "free_space q = Inr (4040 - space child_tail ds)"
    using I meta_type [OF q(4)] free_space_slotted [OF q(2)] by (auto simp: inner_node_def compacted_def space_eq)
  then show ?thesis using q(1,4) False by blast
qed

theorem compact_correct_witness:
  "\<exists>q. compact sample_leaf = (Inr (), q) \<and> leaf_node q [([1], [10]), ([2], [20])] \<and> free_space q = Inr 4024"
proof -
  have "space leaf_tail [([1], [10]), ([2], [20])] = 16" by (simp add: space_def cost_def encode_leaf leaf_cell_size_def)
  then show ?thesis using compact_correct [of sample_leaf "[([1], [10]), ([2], [20])]" "[]"] sample_leaf_ok(1) by auto
qed

text \<open>The log sequence number of a page does not survive compaction: \<open>compact\<close> clears the page
  and restores the id and the type only, although its comment names \<open>page_lsn\<close> among the
  fields that must be restored.\<close>

theorem compact_loses_lsn:
  assumes "page_ok p"
  shows "page_lsn (compact_reset p) = 0"
proof -
  have "page_lsn (compact_reset p) = page_lsn (set_page_id (clear p) (page_id p))"
    by (simp add: compact_reset_def Let_def node_set_defs page_lsn_def mem_simps)
  also have "\<dots> = page_lsn (\<lambda>_. 0)" using assms by simp
  also have "\<dots> = 0" by (simp add: page_lsn_def get64_def peek_numeral peek_Suc)
  finally show ?thesis .
qed

theorem compact_loses_lsn_witness:
  "page_lsn (set_page_lsn new_Page 5) = 5 \<and> page_lsn (compact_reset (set_page_lsn new_Page 5)) = 0"
  using compact_loses_lsn [of "set_page_lsn new_Page 5"] by simp

subsection \<open>Splitting\<close>

text \<open>C16. Splitting a compacted leaf of at least two cells into a fresh leaf: the cells are divided
  in order between the two, neither half is empty, the separator is the first key of the right
  half, the two are linked to each other and to the old right sibling, they share the parent, and
  the left half is the longest prefix that does not exceed half of the space (or a single cell).\<close>

theorem split_leaf_correct:
  assumes "leaf_node p cs" "compacted leaf_tail p cs" "2 \<le> length cs" "leaf_node q []"
  shows "\<exists>m p' q'. split_into (p, q) = (Inr (fst (cs ! m)), (p', q')) \<and> 0 < m \<and> m < length cs \<and>
    leaf_node p' (take m cs) \<and> leaf_node q' (drop m cs) \<and>
    right_sibling p' = page_id q \<and> left_sibling q' = page_id p \<and> right_sibling q' = right_sibling p \<and>
    left_sibling p' = left_sibling p \<and> parent_id q' = parent_id p \<and> parent_id p' = parent_id p \<and>
    page_id p' = page_id p \<and> page_id q' = page_id q \<and>
    (m = 1 \<or> space leaf_tail (take m cs) \<le> space leaf_tail cs div 2) \<and>
    space leaf_tail cs div 2 < space leaf_tail (take (Suc m) cs)"
proof -
  obtain m p' q' where S: "split_into (p, q) = (Inr (fst (cs ! m)), (p', q'))" "0 < m" "m < length cs"
    "leaf_node p' (take m cs)" "leaf_node q' (drop m cs)"
    "node_meta p' = node_meta (set_right_sibling (page_id q) p)"
    "node_meta q' = node_meta (set_left_sibling (page_id p) (set_right_sibling (right_sibling p) (set_parent_id (parent_id p) q)))"
    "m = 1 \<or> space leaf_tail (take m cs) \<le> space leaf_tail cs div 2"
    "space leaf_tail cs div 2 < space leaf_tail (take (Suc m) cs)"
    using split_leaf_run [OF assms] by (elim exE conjE) (rule that; assumption)
  from S(6,7) have "right_sibling p' = page_id q" "left_sibling p' = left_sibling p" "parent_id p' = parent_id p"
    "page_id p' = page_id p" "left_sibling q' = page_id p" "right_sibling q' = right_sibling p"
    "parent_id q' = parent_id p" "page_id q' = page_id q" by (simp_all add: node_meta_def)
  with S(1-5,8,9) show ?thesis by (intro exI conjI) (assumption | simp)+
qed

theorem split_leaf_correct_witness:
  "\<exists>p' q'. split_into (sample_leaf, init_leaf 2 INVALID_PAGE_ID new_Page) = (Inr [2], (p', q')) \<and>
    leaf_node p' [([1], [10])] \<and> leaf_node q' [([2], [20])] \<and> right_sibling p' = 2"
proof -
  have q: "leaf_node (init_leaf 2 INVALID_PAGE_ID new_Page) []" "page_id (init_leaf 2 INVALID_PAGE_ID new_Page) = 2"
    using init_leaf_node(1,3) [of new_Page 2 INVALID_PAGE_ID] by (simp_all add: node_meta_def)
  show ?thesis using split_leaf_correct [OF sample_leaf_ok _ q(1)] q(2) by (auto simp: less_Suc_eq)
qed

text \<open>Splitting a compacted internal node of at least two separators into a fresh one: one
  separator is promoted and kept by neither half, its right child becomes the first child of the
  right half, and the others are divided in order.\<close>

theorem split_internal_correct:
  assumes "inner_node p cs" "compacted child_tail p cs" "2 \<le> length cs" "inner_node q []"
  shows "\<exists>m p' q'. split_into (p, q) = (Inr (fst (cs ! m)), (p', q')) \<and> 0 < m \<and> m < length cs \<and>
    inner_node p' (take m cs) \<and> inner_node q' (drop (Suc m) cs) \<and>
    first_child q' = snd (cs ! m) \<and> parent_id q' = parent_id p \<and> page_id q' = page_id q \<and>
    node_meta p' = node_meta p"
proof -
  obtain m p' q' where S: "split_into (p, q) = (Inr (fst (cs ! m)), (p', q'))" "0 < m" "m < length cs"
    "inner_node p' (take m cs)" "inner_node q' (drop (Suc m) cs)" "node_meta p' = node_meta p"
    "node_meta q' = node_meta (set_first_child (snd (cs ! m)) (set_parent_id (parent_id p) q))"
    using split_internal_run [OF assms] by (elim exE conjE) (rule that; assumption)
  from S(7) have "first_child q' = snd (cs ! m)" "parent_id q' = parent_id p" "page_id q' = page_id q"
    by (simp_all add: node_meta_def)
  with S(1-6) show ?thesis by (intro exI conjI) (assumption | simp)+
qed

theorem split_internal_correct_witness:
  "\<exists>p' q'. split_into (sample_inner, init_internal 2 INVALID_PAGE_ID new_Page) = (Inr [2], (p', q')) \<and>
    inner_node p' [([1], 10)] \<and> inner_node q' [] \<and> first_child q' = 20"
proof -
  have q: "inner_node (init_internal 2 INVALID_PAGE_ID new_Page) []"
    using init_inner_node(1) [of new_Page 2 INVALID_PAGE_ID] by simp
  show ?thesis using split_internal_correct [OF sample_inner_ok _ q] by (auto simp: less_Suc_eq)
qed

text \<open>Cells that are too large cannot always be separated: a leaf that holds one cell and has no room for a second one
  cannot be split, the assertion of \<open>split_into\<close> fails. Two values of 2100 bytes are enough.\<close>

theorem split_single_cell_fails:
  assumes "leaf_node p [c]" "leaf_node q []"
  shows "split_into (p, q) = (Inl Assertion_failure, (p, q))"
proof -
  have "num_keys p = 1" using assms(1) slottedD(2) by (fastforce simp: leaf_node_def)
  then show ?thesis by (simp add: split_into_def op_defs)
qed

theorem split_single_cell_fails_witness:
  "\<exists>p. leaf_node p [([1], replicate 2100 0)] \<and>
    fst (insert_leaf_cell [2] (replicate 2100 0) p) = Inr False \<and>
    split_into (p, init_leaf 2 INVALID_PAGE_ID new_Page)
      = (Inl Assertion_failure, (p, init_leaf 2 INVALID_PAGE_ID new_Page))"
proof -
  let ?v = "replicate 2100 (0 :: byte)"
  have e: "leaf_node (init_leaf i INVALID_PAGE_ID new_Page) []" for i by (rule init_leaf_node) simp
  have "fits leaf_tail [([1], ?v)]" by (simp add: fits_def encode_leaf leaf_cell_size_def)
  then obtain p where p: "leaf_node p [([1], ?v)]"
    using insert_leaf_cell_run [OF e, of "[1]" ?v 1] by auto
  have "\<not> fits leaf_tail (put_key [2] ?v [([1], ?v)])"
    by (simp add: fits_def encode_leaf leaf_cell_size_def)
  then have "fst (insert_leaf_cell [2] ?v p) = Inr False"
    using insert_leaf_cell_run [OF p, of "[2]" ?v] by auto
  with p split_single_cell_fails [OF p e] show ?thesis by blast
qed

subsection \<open>Internal nodes\<close>

text \<open>\<open>insert_separator\<close> refines insertion into a sorted list for a separator that is not
  there yet, and refuses exactly if the node with the new separator would not fit on the page,
  leaving the node unchanged.\<close>

theorem insert_separator_correct:
  assumes "inner_node p cs" "k \<notin> fst ` set cs"
  shows "\<exists>q. insert_separator k c p = (Inr (fits child_tail (put_key k c cs)), q) \<and> node_meta q = node_meta p \<and>
    inner_node q (if fits child_tail (put_key k c cs) then put_key k c cs else cs)"
  using insert_separator_run [OF assms] by blast

theorem insert_separator_correct_witness:
  "\<exists>q. insert_separator [3] 30 sample_inner = (Inr True, q) \<and> inner_node q [([1], 10), ([2], 20), ([3], 30)]"
proof -
  have "fits child_tail (put_key [3] 30 [([1], 10), ([2], 20)])"
    by (simp add: fits_def encode_child internal_cell_size_def)
  then show ?thesis using insert_separator_correct [OF sample_inner_ok(1), of "[3]" 30] by auto
qed

text \<open>\<open>update_child_at\<close> replaces the child of one separator in place and nothing else.\<close>

theorem update_child_at_correct:
  assumes "inner_node p cs" "i < length cs"
  shows "\<exists>q. update_child_at i c p = (Inr (), q) \<and> node_meta q = node_meta p \<and>
    inner_node q (cs[i := (fst (cs ! i), c)]) \<and> child_at i q = Inr c"
proof -
  obtain q where q: "update_child_at i c p = (Inr (), q)" "node_meta q = node_meta p"
    "inner_node q (cs[i := (fst (cs ! i), c)])" using update_child_at_run [OF assms] by blast
  then show ?thesis using child_at_slotted [OF inner_nodeD(1,2) [OF q(3)], of i] assms(2) by simp
qed

theorem update_child_at_correct_witness:
  "\<exists>q. update_child_at 1 99 sample_inner = (Inr (), q) \<and> inner_node q [([1], 10), ([2], 99)] \<and> child_at 1 q = Inr 99"
  using update_child_at_correct [OF sample_inner_ok(1), of 1 99] by auto

end
