(* ===== verification/Wal_Defs.thy ===== *)
theory Wal_Defs
  imports Page
begin

section \<open>Transaction ids and log records (\<open>src/src/wal/wal_defs.h\<close>)\<close>

text \<open>
  The types that the log, the lock manager, recovery and the transactions share. The enumeration
  \<open>WalRecordType\<close> is stored as 32 bits, and a reader may find any value there, so a record
  keeps the raw code.
\<close>

type_synonym txn_id = "64 word"

definition INVALID_TXN_ID :: txn_id where "INVALID_TXN_ID = - 1"

datatype WalRecordType = WAL_INVALID | WAL_BEGIN | WAL_WRITE | WAL_COMMIT | WAL_ABORT

fun wal_type_code :: "WalRecordType \<Rightarrow> 32 word" where
  "wal_type_code WAL_INVALID = 0"
| "wal_type_code WAL_BEGIN = 1"
| "wal_type_code WAL_WRITE = 2"
| "wal_type_code WAL_COMMIT = 3"
| "wal_type_code WAL_ABORT = 4"

record wal_record_header =
  hdr_lsn :: lsn
  hdr_txn_id :: txn_id
  hdr_type :: "32 word"
  hdr_key_len :: "32 word"
  hdr_before_len :: "32 word"
  hdr_after_len :: "32 word"

definition WAL_HEADER_SIZE :: nat where "WAL_HEADER_SIZE = 32"

record wal_record =
  rec_lsn :: lsn
  rec_txn_id :: txn_id
  rec_type :: "32 word"
  rec_key :: bytes
  rec_before_val :: bytes
  rec_after_val :: bytes
  rec_before_exists :: bool

lemma wal_type_code_inj [simp]: "wal_type_code a = wal_type_code b \<longleftrightarrow> a = b"
  by (cases a; cases b) auto

lemma wal_header_size [simp]: "WAL_HEADER_SIZE = 32"
  by (simp add: WAL_HEADER_SIZE_def)

end
