(* ===== verification/Transition_System.thy ===== *)
theory Transition_System
  imports Main
begin

section \<open>Transition systems\<close>

text \<open>
  The interface of the concurrent parts: a predicate for the initial states and a relation for
  the atomic steps. What holds initially and is kept by every step holds in every state that can
  be reached, and after any further steps from there.
\<close>

locale transition_system =
  fixes init :: "'s \<Rightarrow> bool"
    and step :: "'s \<Rightarrow> 's \<Rightarrow> bool"
begin

definition reachable :: "'s \<Rightarrow> bool" where
  "reachable s \<longleftrightarrow> (\<exists>s0. init s0 \<and> step\<^sup>*\<^sup>* s0 s)"

lemma reachable_init: "init s \<Longrightarrow> reachable s"
  by (auto simp: reachable_def)

lemma reachable_step: "reachable s \<Longrightarrow> step s t \<Longrightarrow> reachable t"
  by (meson reachable_def rtranclp.rtrancl_into_rtrancl)

lemma steps_invariant:
  assumes "step\<^sup>*\<^sup>* s t" "I s" "\<And>s t. I s \<Longrightarrow> step s t \<Longrightarrow> I t"
  shows "I t"
  using assms(1,2) by (induction rule: rtranclp_induct) (auto intro: assms(3))

lemma reachable_invariant:
  assumes "reachable s" "\<And>s. init s \<Longrightarrow> I s" "\<And>s t. I s \<Longrightarrow> step s t \<Longrightarrow> I t"
  shows "I s"
  using assms steps_invariant [of _ s I] by (auto simp: reachable_def)

end

end
