(* ===== verification/Lock_Manager.thy ===== *)
theory Lock_Manager
  imports Wal_Defs Transition_System
begin

section \<open>The lock manager (\<open>src/src/txn/lock_manager.{h,cpp}\<close>)\<close>

text \<open>
  Key-level shared and exclusive locks. Every method runs under one mutex, which is released only
  while a caller waits on the condition variable; the code between two such points is one atomic
  step. \<open>lock_attempt\<close> is one round of the loop of \<open>lock\<close>: look up or create the entry,
  and either record the lock or go to sleep. A sleeping request is re-examined after a wake-up, or
  gives up when its deadline has passed; when that happens is up to the scheduler, so both are
  always possible steps of the transition system below.
\<close>

datatype LockMode = SHARED | EXCLUSIVE

record lock_state =
  shared_holders :: "txn_id list"
  exclusive_holder :: txn_id

record lock_manager =
  lock_table :: "bytes \<Rightarrow> lock_state option"
  txn_locks :: "txn_id \<Rightarrow> bytes list option"

definition LockManager_new :: lock_manager where
  "LockManager_new = \<lparr>lock_table = (\<lambda>_. None), txn_locks = (\<lambda>_. None)\<rparr>"

definition new_LockState :: lock_state where
  "new_LockState = \<lparr>shared_holders = [], exclusive_holder = INVALID_TXN_ID\<rparr>"

definition can_grant :: "lock_state \<Rightarrow> txn_id \<Rightarrow> LockMode \<Rightarrow> bool" where
  "can_grant ls t mode =
     (case mode of
        SHARED \<Rightarrow> if exclusive_holder ls = INVALID_TXN_ID then True else exclusive_holder ls = t
      | EXCLUSIVE \<Rightarrow>
          if exclusive_holder ls \<noteq> INVALID_TXN_ID then exclusive_holder ls = t
          else if shared_holders ls = [] then True
          else length (shared_holders ls) = 1 \<and> t \<in> set (shared_holders ls))"

text \<open>\<open>operator[]\<close> creates an empty entry when there is none.\<close>

definition get_or_create :: "bytes \<Rightarrow> lock_manager \<Rightarrow> lock_state \<times> lock_manager" where
  "get_or_create key s = (case lock_table s key of
       Some ls \<Rightarrow> (ls, s)
     | None \<Rightarrow> (new_LockState, s\<lparr>lock_table := (lock_table s)(key \<mapsto> new_LockState)\<rparr>))"

definition push_lock :: "txn_id \<Rightarrow> bytes \<Rightarrow> lock_manager \<Rightarrow> lock_manager" where
  "push_lock t key s = s\<lparr>txn_locks := (txn_locks s)(t \<mapsto>
     (case txn_locks s t of None \<Rightarrow> [] | Some ks \<Rightarrow> ks) @ [key])\<rparr>"

definition record_lock :: "txn_id \<Rightarrow> bytes \<Rightarrow> LockMode \<Rightarrow> lock_state \<Rightarrow> lock_manager \<Rightarrow> lock_manager" where
  "record_lock t key mode ls s =
     (case mode of
        SHARED \<Rightarrow>
          if exclusive_holder ls = t then s
          else push_lock t key (s\<lparr>lock_table := (lock_table s)(key \<mapsto>
                 ls\<lparr>shared_holders := List.insert t (shared_holders ls)\<rparr>)\<rparr>)
      | EXCLUSIVE \<Rightarrow>
          push_lock t key (s\<lparr>lock_table := (lock_table s)(key \<mapsto>
            ls\<lparr>shared_holders := removeAll t (shared_holders ls), exclusive_holder := t\<rparr>)\<rparr>))"

definition lock_attempt :: "txn_id \<Rightarrow> bytes \<Rightarrow> LockMode \<Rightarrow> lock_manager \<Rightarrow> bool \<times> lock_manager" where
  "lock_attempt t key mode s =
     (let (ls, s1) = get_or_create key s
      in if can_grant ls t mode then (True, record_lock t key mode ls s1) else (False, s1))"

text \<open>The deadline has passed: remove the entry if it is empty (and throw
  \<open>DeadlockException\<close>).\<close>

definition is_empty_state :: "lock_state \<Rightarrow> bool" where
  "is_empty_state ls \<longleftrightarrow> shared_holders ls = [] \<and> exclusive_holder ls = INVALID_TXN_ID"

definition lock_timeout :: "bytes \<Rightarrow> lock_manager \<Rightarrow> lock_manager" where
  "lock_timeout key s = (case lock_table s key of
       None \<Rightarrow> s
     | Some ls \<Rightarrow> if is_empty_state ls then s\<lparr>lock_table := (lock_table s)(key := None)\<rparr> else s)"

definition release_key :: "txn_id \<Rightarrow> bytes \<Rightarrow> lock_manager \<Rightarrow> lock_manager" where
  "release_key t key s = (case lock_table s key of
       None \<Rightarrow> s
     | Some ls \<Rightarrow>
         (let ls' = ls\<lparr>shared_holders := removeAll t (shared_holders ls),
                        exclusive_holder := (if exclusive_holder ls = t then INVALID_TXN_ID else exclusive_holder ls)\<rparr>
          in s\<lparr>lock_table := (lock_table s)(key := if is_empty_state ls' then None else Some ls')\<rparr>))"

definition release_all :: "txn_id \<Rightarrow> lock_manager \<Rightarrow> lock_manager" where
  "release_all t s = (case txn_locks s t of
       None \<Rightarrow> s
     | Some keys \<Rightarrow> (fold (release_key t) keys s)\<lparr>txn_locks := (txn_locks s)(t := None)\<rparr>)"

definition holds_lock :: "txn_id \<Rightarrow> bytes \<Rightarrow> lock_manager \<Rightarrow> bool" where
  "holds_lock t key s = (case lock_table s key of
       None \<Rightarrow> False
     | Some ls \<Rightarrow> t \<in> set (shared_holders ls) \<or> exclusive_holder ls = t)"

definition holds_exclusive :: "txn_id \<Rightarrow> bytes \<Rightarrow> lock_manager \<Rightarrow> bool" where
  "holds_exclusive t key s = (case lock_table s key of
       None \<Rightarrow> False
     | Some ls \<Rightarrow> exclusive_holder ls = t)"

subsection \<open>Concurrent requests\<close>

text \<open>The state of the system: the lock manager and the requests that sleep. Transaction ids come
  from the log manager and are never \<open>INVALID_TXN_ID\<close>.\<close>

type_synonym request = "txn_id \<times> bytes \<times> LockMode"

inductive lm_step :: "lock_manager \<times> request set \<Rightarrow> lock_manager \<times> request set \<Rightarrow> bool" where
  Lock: "t \<noteq> INVALID_TXN_ID \<Longrightarrow> lock_attempt t key mode s = (granted, s') \<Longrightarrow>
    lm_step (s, W) (s', if granted then W else insert (t, key, mode) W)"
| Wake: "(t, key, mode) \<in> W \<Longrightarrow> lock_attempt t key mode s = (granted, s') \<Longrightarrow>
    lm_step (s, W) (s', if granted then W - {(t, key, mode)} else W)"
| Timeout: "(t, key, mode) \<in> W \<Longrightarrow> lm_step (s, W) (lock_timeout key s, W - {(t, key, mode)})"
| Release: "t \<noteq> INVALID_TXN_ID \<Longrightarrow> lm_step (s, W) (release_all t s, W)"

definition lm_init :: "lock_manager \<times> request set \<Rightarrow> bool" where
  "lm_init sW \<longleftrightarrow> sW = (LockManager_new, {})"

interpretation lm: transition_system lm_init lm_step .

subsection \<open>The abstract lock table\<close>

text \<open>Which mode a transaction holds on a key. A mode is compatible with what another transaction
  holds if that is nothing, or both are shared.\<close>

definition mode_of :: "lock_state \<Rightarrow> txn_id \<Rightarrow> LockMode option" where
  "mode_of ls t = (if exclusive_holder ls = t then Some EXCLUSIVE
     else if t \<in> set (shared_holders ls) then Some SHARED else None)"

definition held :: "lock_manager \<Rightarrow> txn_id \<Rightarrow> bytes \<Rightarrow> LockMode option" where
  "held s t key = (case lock_table s key of None \<Rightarrow> None | Some ls \<Rightarrow> mode_of ls t)"

definition compatible :: "LockMode \<Rightarrow> LockMode option \<Rightarrow> bool" where
  "compatible mode h \<longleftrightarrow> h = None \<or> mode = SHARED \<and> h = Some SHARED"

definition stronger :: "LockMode \<Rightarrow> LockMode option \<Rightarrow> LockMode" where
  "stronger mode h = (if h = Some EXCLUSIVE then EXCLUSIVE else mode)"

text \<open>The invariant: an exclusive holder excludes shared ones, no transaction is listed twice, and
  every held lock is on its transaction's list.\<close>

definition entry_ok :: "lock_state \<Rightarrow> bool" where
  "entry_ok ls \<longleftrightarrow> distinct (shared_holders ls) \<and> INVALID_TXN_ID \<notin> set (shared_holders ls) \<and>
     (exclusive_holder ls \<noteq> INVALID_TXN_ID \<longrightarrow> shared_holders ls = [])"

definition lm_ok :: "lock_manager \<Rightarrow> bool" where
  "lm_ok s \<longleftrightarrow> (\<forall>key ls. lock_table s key = Some ls \<longrightarrow> entry_ok ls) \<and>
     (\<forall>t key. t \<noteq> INVALID_TXN_ID \<longrightarrow> held s t key \<noteq> None \<longrightarrow>
        (\<exists>keys. txn_locks s t = Some keys \<and> key \<in> set keys))"

lemma new_LockState_simps [simp]: "shared_holders new_LockState = []" "exclusive_holder new_LockState = INVALID_TXN_ID"
  by (simp_all add: new_LockState_def)

lemma lm_ok_new: "lm_ok LockManager_new"
  by (simp add: lm_ok_def LockManager_new_def held_def)

lemma held_update:
  "held (s\<lparr>lock_table := (lock_table s)(key := x)\<rparr>) t k =
     (if k = key then (case x of None \<Rightarrow> None | Some ls \<Rightarrow> mode_of ls t) else held s t k)"
  by (simp add: held_def)

lemma held_push [simp]: "held (push_lock u key s) t k = held s t k"
  by (simp add: held_def push_lock_def)

lemma mode_of_empty: "t \<noteq> INVALID_TXN_ID \<Longrightarrow> is_empty_state ls \<Longrightarrow> mode_of ls t = None"
  by (auto simp: mode_of_def is_empty_state_def)

lemma get_or_create_held:
  assumes "get_or_create key s = (ls, s1)" "lm_ok s"
  shows "t \<noteq> INVALID_TXN_ID \<Longrightarrow> held s1 t k = held s t k" "lm_ok s1" "lock_table s1 key = Some ls" "entry_ok ls"
    "txn_locks s1 = txn_locks s"
proof -
  show h: "held s1 t k = held s t k" if "t \<noteq> INVALID_TXN_ID" for t k
    using assms(1) that mode_of_empty [of t new_LockState]
    by (cases "lock_table s key") (auto simp: get_or_create_def held_update is_empty_state_def, simp add: held_def)
  show "lock_table s1 key = Some ls" "txn_locks s1 = txn_locks s"
    using assms(1) by (auto simp: get_or_create_def split: option.splits)
  show "entry_ok ls" using assms by (auto simp: get_or_create_def lm_ok_def entry_ok_def split: option.splits)
  have "lock_table s1 k = Some ls' \<Longrightarrow> entry_ok ls'" for k ls'
    using assms by (auto simp: get_or_create_def lm_ok_def entry_ok_def split: option.splits if_splits)
  then show "lm_ok s1" using assms(2) h \<open>txn_locks s1 = txn_locks s\<close> by (auto simp: lm_ok_def)
qed

text \<open>A request is granted exactly if it is compatible with what every other transaction holds.\<close>

lemma can_grant_iff:
  assumes "entry_ok ls" "lock_table s key = Some ls" "t \<noteq> INVALID_TXN_ID"
  shows "can_grant ls t mode \<longleftrightarrow> (\<forall>u. u \<noteq> t \<longrightarrow> u \<noteq> INVALID_TXN_ID \<longrightarrow> compatible mode (held s u key))"
proof (cases mode)
  case SHARED
  then show ?thesis using assms by (auto simp: can_grant_def compatible_def held_def mode_of_def entry_ok_def)
next
  case EXCLUSIVE
  have one: "length xs = 1 \<and> t \<in> set xs \<longleftrightarrow> (\<forall>u \<in> set xs. u = t)" if "distinct xs" "xs \<noteq> []" for xs :: "txn_id list"
  proof
    assume "\<forall>u \<in> set xs. u = t"
    then have "set xs = {t}" using that(2) by (cases xs) auto
    then show "length xs = 1 \<and> t \<in> set xs" using that(1) distinct_card [of xs] by simp
  next
    assume "length xs = 1 \<and> t \<in> set xs"
    then show "\<forall>u \<in> set xs. u = t" by (cases xs) auto
  qed
  show ?thesis
  proof (cases "exclusive_holder ls = INVALID_TXN_ID")
    case True
    have "can_grant ls t mode \<longleftrightarrow> (\<forall>u \<in> set (shared_holders ls). u = t)"
      using True EXCLUSIVE one [of "shared_holders ls"] assms(1) by (auto simp: can_grant_def entry_ok_def)
    then show ?thesis using True EXCLUSIVE assms by (auto simp: compatible_def held_def mode_of_def entry_ok_def)
  next
    case False
    then show ?thesis using EXCLUSIVE assms by (auto simp: can_grant_def compatible_def held_def mode_of_def entry_ok_def)
  qed
qed

text \<open>Recording a granted lock changes what the requester holds on that key, and nothing else.\<close>

lemma record_lock_held:
  assumes "lock_table s key = Some ls" "entry_ok ls" "can_grant ls t mode" "t \<noteq> INVALID_TXN_ID" "u \<noteq> INVALID_TXN_ID"
  shows "held (record_lock t key mode ls s) u k =
    (if u = t \<and> k = key then Some (stronger mode (held s t key)) else held s u k)"
proof (cases mode)
  case SHARED
  have h: "held s v key = mode_of ls v" for v using assms(1) by (simp add: held_def)
  show ?thesis
  proof (cases "exclusive_holder ls = t")
    case True
    then have "mode_of ls t = Some EXCLUSIVE" by (simp add: mode_of_def)
    then show ?thesis using SHARED True h by (simp add: record_lock_def stronger_def)
  next
    case False
    then have x: "exclusive_holder ls = INVALID_TXN_ID" using assms(3) SHARED by (simp add: can_grant_def split: if_splits)
    have "mode_of (ls\<lparr>shared_holders := List.insert t (shared_holders ls)\<rparr>) u = (if u = t then Some SHARED else mode_of ls u)"
      using x assms(4,5) by (simp add: mode_of_def)
    moreover have "stronger mode (mode_of ls t) = SHARED" using False SHARED by (simp add: stronger_def mode_of_def)
    ultimately show ?thesis using SHARED False h by (cases "u = t") (simp_all add: record_lock_def held_update)
  qed
next
  case EXCLUSIVE
  have h: "held s v key = mode_of ls v" for v using assms(1) by (simp add: held_def)
  have "mode_of ls u = None" if "u \<noteq> t"
    using can_grant_iff [OF assms(2,1,4), of mode] assms(3,5) that EXCLUSIVE h by (simp add: compatible_def)
  then have "mode_of (ls\<lparr>shared_holders := removeAll t (shared_holders ls), exclusive_holder := t\<rparr>) u
    = (if u = t then Some EXCLUSIVE else mode_of ls u)"
    by (cases "u = t") (auto simp: mode_of_def split: if_splits)
  then show ?thesis
    using EXCLUSIVE h by (cases "u = t") (simp_all add: record_lock_def held_update stronger_def)
qed

lemma record_lock_ok:
  assumes "lm_ok s" "lock_table s key = Some ls" "can_grant ls t mode" "t \<noteq> INVALID_TXN_ID"
  shows "lm_ok (record_lock t key mode ls s)"
proof -
  have e: "entry_ok ls" using assms(1,2) by (simp add: lm_ok_def)
  have "entry_ok ls'" if "lock_table (record_lock t key mode ls s) k = Some ls'" for k ls'
    using that assms e
    by (auto simp: record_lock_def push_lock_def lm_ok_def entry_ok_def can_grant_def
        split: LockMode.splits if_splits) (auto simp: length_Suc_conv)
  moreover have "\<exists>keys. txn_locks (record_lock t key mode ls s) u = Some keys \<and> k \<in> set keys"
    if "u \<noteq> INVALID_TXN_ID" "held (record_lock t key mode ls s) u k \<noteq> None" for u k
  proof (cases "record_lock t key mode ls s = s")
    case True
    then show ?thesis using that assms(1) by (simp add: lm_ok_def)
  next
    case False
    then have tl: "txn_locks (record_lock t key mode ls s)
      = (txn_locks s)(t \<mapsto> (case txn_locks s t of None \<Rightarrow> [] | Some ks \<Rightarrow> ks) @ [key])"
      by (auto simp: record_lock_def push_lock_def split: LockMode.splits if_splits)
    have "u = t \<and> k = key \<or> held s u k \<noteq> None"
      using record_lock_held [OF assms(2) e assms(3,4) that(1), of k] that(2) by (auto split: if_splits)
    moreover have "held s u k \<noteq> None \<Longrightarrow> \<exists>keys. txn_locks s u = Some keys \<and> k \<in> set keys"
      using assms(1) that(1) by (simp add: lm_ok_def)
    ultimately show ?thesis unfolding tl by (cases "u = t") auto
  qed
  ultimately show ?thesis by (simp add: lm_ok_def)
qed

lemma lock_attempt_run:
  assumes "lm_ok s" "t \<noteq> INVALID_TXN_ID" "lock_attempt t key mode s = (granted, s')"
  shows "lm_ok s'"
    "granted \<longleftrightarrow> (\<forall>u. u \<noteq> t \<longrightarrow> u \<noteq> INVALID_TXN_ID \<longrightarrow> compatible mode (held s u key))"
    "u \<noteq> INVALID_TXN_ID \<Longrightarrow> held s' u k =
      (if granted \<and> u = t \<and> k = key then Some (stronger mode (held s t key)) else held s u k)"
proof -
  obtain ls s1 where g: "get_or_create key s = (ls, s1)" by (cases "get_or_create key s")
  note G = get_or_create_held [OF g assms(1)]
  have s': "granted = can_grant ls t mode" "s' = (if can_grant ls t mode then record_lock t key mode ls s1 else s1)"
    using assms(3) g by (auto simp: lock_attempt_def split: if_splits)
  show "lm_ok s'" using s'(2) record_lock_ok [OF G(2,3) _ assms(2)] G(2) by simp
  show "granted \<longleftrightarrow> (\<forall>u. u \<noteq> t \<longrightarrow> u \<noteq> INVALID_TXN_ID \<longrightarrow> compatible mode (held s u key))"
    using s'(1) can_grant_iff [OF G(4,3) assms(2), of mode] G(1) by simp
  show "held s' u k = (if granted \<and> u = t \<and> k = key then Some (stronger mode (held s t key)) else held s u k)"
    if "u \<noteq> INVALID_TXN_ID"
    using s' record_lock_held [OF G(3,4) _ assms(2) that, of mode k] G(1) [OF that] G(1) [OF assms(2), of key]
    by (cases "can_grant ls t mode") auto
qed

lemma lock_timeout_run:
  assumes "lm_ok s"
  shows "lm_ok (lock_timeout key s)" "u \<noteq> INVALID_TXN_ID \<Longrightarrow> held (lock_timeout key s) u k = held s u k"
proof -
  show h: "held (lock_timeout key s) u k = held s u k" if "u \<noteq> INVALID_TXN_ID" for u k
    using mode_of_empty [OF that] by (auto simp: lock_timeout_def held_update split: option.split) (simp add: held_def)
  have "lock_table (lock_timeout key s) k = Some ls \<Longrightarrow> lock_table s k = Some ls" for k ls
    by (auto simp: lock_timeout_def split: option.splits if_splits)
  moreover have "txn_locks (lock_timeout key s) = txn_locks s"
    by (auto simp: lock_timeout_def split: option.split)
  ultimately show "lm_ok (lock_timeout key s)" using assms h unfolding lm_ok_def by metis
qed

subsection \<open>Releasing\<close>

lemma release_key_run:
  assumes "\<forall>k ls. lock_table s k = Some ls \<longrightarrow> entry_ok ls" "t \<noteq> INVALID_TXN_ID"
  shows "\<forall>k ls. lock_table (release_key t key s) k = Some ls \<longrightarrow> entry_ok ls"
    "u \<noteq> INVALID_TXN_ID \<Longrightarrow> held (release_key t key s) u k = (if u = t \<and> k = key then None else held s u k)"
proof -
  show "\<forall>k ls. lock_table (release_key t key s) k = Some ls \<longrightarrow> entry_ok ls"
    using assms by (auto simp: release_key_def Let_def entry_ok_def distinct_removeAll split: option.splits if_splits)
  show "held (release_key t key s) u k = (if u = t \<and> k = key then None else held s u k)" if "u \<noteq> INVALID_TXN_ID"
  proof (cases "lock_table s key")
    case None
    then show ?thesis by (auto simp: release_key_def held_def)
  next
    case (Some ls)
    let ?ls = "ls\<lparr>shared_holders := removeAll t (shared_holders ls),
      exclusive_holder := (if exclusive_holder ls = t then INVALID_TXN_ID else exclusive_holder ls)\<rparr>"
    have "held s u key = mode_of ls u" using Some by (simp add: held_def)
    moreover have "mode_of ?ls u = (if u = t then None else mode_of ls u)" using that by (auto simp: mode_of_def)
    ultimately show ?thesis
      using Some mode_of_empty [OF that, of ?ls] by (auto simp: release_key_def Let_def held_update)
  qed
qed

lemma release_fold_run:
  assumes "\<forall>k ls. lock_table s k = Some ls \<longrightarrow> entry_ok ls" "t \<noteq> INVALID_TXN_ID"
  shows "(\<forall>k ls. lock_table (fold (release_key t) keys s) k = Some ls \<longrightarrow> entry_ok ls) \<and>
    (\<forall>u k. u \<noteq> INVALID_TXN_ID \<longrightarrow>
      held (fold (release_key t) keys s) u k = (if u = t \<and> k \<in> set keys then None else held s u k))"
  using assms(1)
proof (induction keys arbitrary: s)
  case (Cons key keys)
  note R = release_key_run [OF Cons.prems assms(2)]
  from Cons.IH [OF R(1)] show ?case by (auto simp: R(2))
qed simp

lemma release_all_run:
  assumes "lm_ok s" "t \<noteq> INVALID_TXN_ID"
  shows "lm_ok (release_all t s)"
    "u \<noteq> INVALID_TXN_ID \<Longrightarrow> held (release_all t s) u k = (if u = t then None else held s u k)"
proof -
  have e: "\<forall>k ls. lock_table s k = Some ls \<longrightarrow> entry_ok ls" using assms(1) by (simp add: lm_ok_def)
  have lt: "held (s'\<lparr>txn_locks := x\<rparr>) = held s'" for s' x by (simp add: held_def fun_eq_iff cong: option.case_cong)
  show h: "held (release_all t s) u k = (if u = t then None else held s u k)" if "u \<noteq> INVALID_TXN_ID" for u k
  proof (cases "txn_locks s t")
    case None
    then have "held s t k = None" using assms unfolding lm_ok_def by fastforce
    then show ?thesis using None by (simp add: release_all_def)
  next
    case (Some keys)
    then have "k \<notin> set keys \<Longrightarrow> held s t k = None" using assms unfolding lm_ok_def by fastforce
    then show ?thesis using Some release_fold_run [OF e assms(2), of keys] that by (auto simp: release_all_def lt)
  qed
  have "\<forall>k ls. lock_table (release_all t s) k = Some ls \<longrightarrow> entry_ok ls"
    using e release_fold_run [OF e assms(2)] by (auto simp: release_all_def split: option.splits)
  moreover have "txn_locks (release_all t s) = (txn_locks s)(t := None)"
    by (auto simp: release_all_def fun_upd_idem split: option.split)
  ultimately show "lm_ok (release_all t s)" using assms(1) h unfolding lm_ok_def by (auto split: if_splits)
qed

lemmas lm_runs = lock_attempt_run lock_timeout_run release_all_run

lemma lm_step_ok:
  assumes "lm_step sW tW" "lm_ok (fst sW)" "\<forall>r \<in> snd sW. fst r \<noteq> INVALID_TXN_ID"
  shows "lm_ok (fst tW) \<and> (\<forall>r \<in> snd tW. fst r \<noteq> INVALID_TXN_ID)"
  using assms
proof (cases rule: lm_step.cases)
  case (Wake t key mode W s granted s')
  then show ?thesis using assms lock_attempt_run(1) [of s t key mode granted s'] by (auto split: if_splits)
qed (auto intro: lm_runs split: if_splits)

lemma lm_reachable_ok: "lm.reachable sW \<Longrightarrow> lm_ok (fst sW) \<and> (\<forall>r \<in> snd sW. fst r \<noteq> INVALID_TXN_ID)"
  by (rule lm.reachable_invariant) (auto simp: lm_init_def lm_ok_new dest: lm_step_ok)

end
