(* ===== verification/Lock_Props.thy ===== *)
theory Lock_Props
  imports Lock_Manager
begin

section \<open>Properties of the lock manager\<close>

text \<open>
  Mutual exclusion in every interleaving of lock requests, wake-ups, timeouts and releases; what
  exactly a request needs to be granted and what granting changes; that a release gives back
  everything; and that a request is never refused because of its own locks.
\<close>

text \<open>A state of the witnesses: transaction 1 holds key \<open>[7]\<close> exclusively, transaction 2 waits
  for it.\<close>

definition sample_locked :: lock_manager where
  "sample_locked = snd (lock_attempt 1 [7] EXCLUSIVE LockManager_new)"

lemma valid_txn [simp]: "(1 :: txn_id) \<noteq> INVALID_TXN_ID" "(2 :: txn_id) \<noteq> INVALID_TXN_ID"
  by (simp_all add: INVALID_TXN_ID_def)

lemma sample_locked_eq: "sample_locked =
  \<lparr>lock_table = (\<lambda>_. None)([7] \<mapsto> \<lparr>shared_holders = [], exclusive_holder = 1\<rparr>), txn_locks = (\<lambda>_. None)(1 \<mapsto> [[7]])\<rparr>"
  by (simp add: sample_locked_def lock_attempt_def get_or_create_def LockManager_new_def can_grant_def
      record_lock_def push_lock_def new_LockState_def INVALID_TXN_ID_def)

lemma sample_locked_step: "lock_attempt 1 [7] EXCLUSIVE LockManager_new = (True, sample_locked)"
  by (simp add: sample_locked_def lock_attempt_def get_or_create_def LockManager_new_def can_grant_def new_LockState_def)

lemma sample_locked_reachable: "lm.reachable (sample_locked, {})"
proof -
  have "lm.reachable (LockManager_new, {})" by (rule lm.reachable_init) (simp add: lm_init_def)
  moreover have "lm_step (LockManager_new, {}) (sample_locked, {})"
    using lm_step.Lock [OF valid_txn(1) sample_locked_step, of "{}"] by simp
  ultimately show ?thesis by (rule lm.reachable_step)
qed

lemma sample_locked_ok: "lm_ok sample_locked"
  using lm_reachable_ok [OF sample_locked_reachable] by simp

text \<open>C14. Mutual exclusion: in every state that any interleaving of requests, wake-ups, timeouts and
  releases can reach, a transaction that holds a key exclusively is the only one that holds it.\<close>

theorem lock_mutual_exclusion:
  assumes "lm.reachable (s, W)" "t \<noteq> INVALID_TXN_ID" "holds_exclusive t key s" "holds_lock u key s"
  shows "u = t"
proof -
  have "lm_ok s" using lm_reachable_ok [OF assms(1)] by simp
  with assms(2-4) show ?thesis
    by (auto simp: lm_ok_def entry_ok_def holds_exclusive_def holds_lock_def split: option.splits)
qed

theorem lock_mutual_exclusion_witness:
  "holds_exclusive 1 [7] sample_locked \<and> \<not> holds_lock 2 [7] sample_locked"
proof -
  have "holds_exclusive 1 [7] sample_locked" by (simp add: sample_locked_eq holds_exclusive_def)
  then show ?thesis using lock_mutual_exclusion [OF sample_locked_reachable valid_txn(1), of _ 2] by auto
qed

text \<open>C15. One round of \<open>lock\<close> implements the abstract lock table: the request is granted exactly if
  its mode is compatible with what every other transaction holds on the key; if granted, the
  requester holds the stronger of its old and its new mode there (an upgrade replaces the shared
  lock), and no other lock changes; if not, no lock changes at all.\<close>

theorem lock_attempt_correct:
  assumes "lm_ok s" "t \<noteq> INVALID_TXN_ID" "lock_attempt t key mode s = (granted, s')"
  shows "lm_ok s' \<and>
    (granted \<longleftrightarrow> (\<forall>u. u \<noteq> t \<longrightarrow> u \<noteq> INVALID_TXN_ID \<longrightarrow> compatible mode (held s u key))) \<and>
    (\<forall>u k. u \<noteq> INVALID_TXN_ID \<longrightarrow> held s' u k =
      (if granted \<and> u = t \<and> k = key then Some (stronger mode (held s t key)) else held s u k))"
  using lock_attempt_run [OF assms] by blast

theorem lock_attempt_correct_witness:
  "fst (lock_attempt 2 [7] SHARED sample_locked) = False \<and> lm_ok (snd (lock_attempt 2 [7] SHARED sample_locked))"
  using lock_attempt_correct [OF sample_locked_ok valid_txn(2), of "[7]" SHARED]
  by (auto simp: sample_locked_eq lock_attempt_def get_or_create_def can_grant_def INVALID_TXN_ID_def)

text \<open>\<open>release_all\<close> gives back every lock of its transaction, whatever was recorded how often,
  and touches no lock of any other.\<close>

theorem release_all_correct:
  assumes "lm_ok s" "t \<noteq> INVALID_TXN_ID"
  shows "lm_ok (release_all t s) \<and> (\<forall>key. \<not> holds_lock t key (release_all t s)) \<and>
    (\<forall>u key. u \<noteq> t \<longrightarrow> u \<noteq> INVALID_TXN_ID \<longrightarrow> held (release_all t s) u key = held s u key)"
proof -
  have "\<not> holds_lock t key (release_all t s)" for key
    using release_all_run(2) [OF assms assms(2), of key]
    by (auto simp: holds_lock_def held_def mode_of_def split: option.splits if_splits)
  then show ?thesis using release_all_run [OF assms] by simp
qed

theorem release_all_correct_witness:
  "holds_lock 1 [7] sample_locked \<and> \<not> holds_lock 1 [7] (release_all 1 sample_locked)"
  using release_all_correct [OF sample_locked_ok valid_txn(1)] by (simp add: sample_locked_eq holds_lock_def)

text \<open>A waiting request whose conflicting holders have all released is granted at its next
  wake-up; in particular a transaction never waits for itself, whatever it holds.\<close>

theorem lock_granted_when_free:
  assumes "lm.reachable (s, W)" "(t, key, mode) \<in> W" "\<And>u. u \<noteq> t \<Longrightarrow> \<not> holds_lock u key s"
  shows "\<exists>s'. lm_step (s, W) (s', W - {(t, key, mode)}) \<and> holds_lock t key s'"
proof -
  have ok: "lm_ok s" "t \<noteq> INVALID_TXN_ID" using lm_reachable_ok [OF assms(1)] assms(2) by auto
  obtain granted s' where a: "lock_attempt t key mode s = (granted, s')" by (cases "lock_attempt t key mode s")
  note R = lock_attempt_run [OF ok a]
  have "held s u key = None" if "u \<noteq> t" "u \<noteq> INVALID_TXN_ID" for u
    using assms(3) [OF that(1)] by (auto simp: holds_lock_def held_def mode_of_def split: option.split)
  then have g: "granted" using R(2) by (simp add: compatible_def)
  then have "held s' t key \<noteq> None" using R(3) [OF ok(2), of key] by simp
  then have "holds_lock t key s'"
    by (auto simp: holds_lock_def held_def mode_of_def split: option.splits if_splits)
  moreover have "lm_step (s, W) (s', W - {(t, key, mode)})" using lm_step.Wake [OF assms(2) a] g by simp
  ultimately show ?thesis by blast
qed

theorem lock_granted_when_free_witness:
  "\<exists>s'. lm_step (release_all 1 sample_locked, {(2, [7], SHARED)}) (s', {}) \<and> holds_lock 2 [7] s'"
proof -
  have "lock_attempt 2 [7] SHARED sample_locked = (False, sample_locked)"
    by (simp add: sample_locked_eq lock_attempt_def get_or_create_def can_grant_def INVALID_TXN_ID_def)
  then have "lm_step (sample_locked, {}) (sample_locked, {(2, [7], SHARED)})"
    using lm_step.Lock [OF valid_txn(2), of "[7]" SHARED sample_locked False sample_locked "{}"] by simp
  then have "lm.reachable (sample_locked, {(2, [7], SHARED)})"
    by (rule lm.reachable_step [OF sample_locked_reachable])
  then have r: "lm.reachable (release_all 1 sample_locked, {(2, [7], SHARED)})"
    using lm.reachable_step lm_step.Release [OF valid_txn(1)] by blast
  have "\<not> holds_lock u [7] (release_all 1 sample_locked)" for u
    by (simp add: sample_locked_eq release_all_def release_key_def holds_lock_def is_empty_state_def)
  then show ?thesis using lock_granted_when_free [OF r, of 2 "[7]" SHARED] by auto
qed

text \<open>Locking a key again that is already held exclusively is granted and changes no lock, but it
  is not the no-op its comment promises: the key is recorded once more, so that the list of a
  transaction grows with every write to the same key.\<close>

theorem relock_records_again:
  assumes "lock_table s key = Some ls" "exclusive_holder ls = t" "t \<noteq> INVALID_TXN_ID" "txn_locks s t = Some keys"
  shows "\<exists>s'. lock_attempt t key EXCLUSIVE s = (True, s') \<and> txn_locks s' t = Some (keys @ [key])"
  using assms by (simp add: lock_attempt_def get_or_create_def can_grant_def record_lock_def push_lock_def)

theorem relock_records_again_witness:
  "\<exists>s'. lock_attempt 1 [7] EXCLUSIVE sample_locked = (True, s') \<and> txn_locks s' 1 = Some [[7], [7]]"
  using relock_records_again [of sample_locked "[7]" "\<lparr>shared_holders = [], exclusive_holder = 1\<rparr>" 1 "[[7]]"]
  by (simp add: sample_locked_eq)

end
