(* ===== verification/Log_Manager.thy ===== *)
theory Log_Manager
  imports Wal_Defs Disk_Manager
begin

section \<open>The write-ahead log (\<open>src/src/wal/log_manager.{h,cpp}\<close>)\<close>

text \<open>
  An append-only file of records, each a 32-byte packed header followed by key, before-image and
  after-image. The file is its bytes; as for the database file, \<open>wal_faults\<close> are the outcomes
  of the system calls still to come. Every method holds the log's mutex, so that a method is one
  atomic step.
\<close>

record log_manager =
  wal_file :: bytes
  wal_faults :: "io_outcome list"
  next_lsn :: lsn
  next_txn_id :: txn_id

subsection \<open>System calls\<close>

definition wal_io :: "(log_manager, io_outcome) op" where
  "wal_io s = (case wal_faults s of
       [] \<Rightarrow> (Inr IO_ok, s)
     | x # xs \<Rightarrow> (Inr x, s\<lparr>wal_faults := xs\<rparr>))"

definition wal_pread :: "nat \<Rightarrow> nat \<Rightarrow> (log_manager, bytes option) op" where
  "wal_pread n off = op_bind wal_io (\<lambda>r. op_gets (\<lambda>s.
     let there = take n (drop off (wal_file s)) in
     case r of IO_fail \<Rightarrow> None | IO_ok \<Rightarrow> Some there | IO_short k \<Rightarrow> Some (take k there)))"

definition wal_append :: "bytes \<Rightarrow> (log_manager, nat option) op" where
  "wal_append bs = op_bind wal_io (\<lambda>r. case r of
       IO_fail \<Rightarrow> op_return None
     | IO_ok \<Rightarrow> op_bind (op_modify (\<lambda>s. s\<lparr>wal_file := wal_file s @ bs\<rparr>)) (\<lambda>_. op_return (Some (length bs)))
     | IO_short k \<Rightarrow> op_bind (op_modify (\<lambda>s. s\<lparr>wal_file := wal_file s @ take k bs\<rparr>))
         (\<lambda>_. op_return (Some (min k (length bs)))))"

subsection \<open>The record format\<close>

definition encode_header :: "wal_record_header \<Rightarrow> bytes" where
  "encode_header h = le 8 (unat (hdr_lsn h)) @ le 8 (unat (hdr_txn_id h)) @ le 4 (unat (hdr_type h)) @
     le 4 (unat (hdr_key_len h)) @ le 4 (unat (hdr_before_len h)) @ le 4 (unat (hdr_after_len h))"

definition decode_header :: "bytes \<Rightarrow> wal_record_header" where
  "decode_header bs = \<lparr>hdr_lsn = of_nat (unle (take 8 bs)), hdr_txn_id = of_nat (unle (take 8 (drop 8 bs))),
     hdr_type = of_nat (unle (take 4 (drop 16 bs))), hdr_key_len = of_nat (unle (take 4 (drop 20 bs))),
     hdr_before_len = of_nat (unle (take 4 (drop 24 bs))), hdr_after_len = of_nat (unle (take 4 (drop 28 bs)))\<rparr>"

definition record_header :: "wal_record \<Rightarrow> wal_record_header" where
  "record_header r = \<lparr>hdr_lsn = rec_lsn r, hdr_txn_id = rec_txn_id r, hdr_type = rec_type r,
     hdr_key_len = of_nat (length (rec_key r)), hdr_before_len = of_nat (length (rec_before_val r)),
     hdr_after_len = of_nat (length (rec_after_val r))\<rparr>"

definition encode_record :: "wal_record \<Rightarrow> bytes" where
  "encode_record r = encode_header (record_header r) @ rec_key r @ rec_before_val r @ rec_after_val r"

subsection \<open>Writing\<close>

definition append_record_locked :: "wal_record \<Rightarrow> (log_manager, lsn) op" where
  "append_record_locked rec0 =
     op_bind (op_gets next_lsn) (\<lambda>l.
     op_bind (op_modify (\<lambda>s. s\<lparr>next_lsn := next_lsn s + 1\<rparr>)) (\<lambda>_.
     let buf = encode_record (rec0\<lparr>rec_lsn := l\<rparr>) in
     op_bind wal_io (\<lambda>r. if r = IO_fail then op_throw System_error else
     op_bind (wal_append buf) (\<lambda>n. case n of
         None \<Rightarrow> op_throw System_error
       | Some n \<Rightarrow> if n \<noteq> length buf then op_throw Runtime_error else op_return l))))"

definition new_WalRecord :: wal_record where
  "new_WalRecord = \<lparr>rec_lsn = 0, rec_txn_id = INVALID_TXN_ID, rec_type = wal_type_code WAL_INVALID, rec_key = [],
     rec_before_val = [], rec_after_val = [], rec_before_exists = False\<rparr>"

definition begin_txn :: "(log_manager, txn_id \<times> lsn) op" where
  "begin_txn = op_bind (op_gets next_txn_id) (\<lambda>t.
     op_bind (op_modify (\<lambda>s. s\<lparr>next_txn_id := next_txn_id s + 1\<rparr>)) (\<lambda>_.
     op_bind (append_record_locked (new_WalRecord\<lparr>rec_txn_id := t, rec_type := wal_type_code WAL_BEGIN\<rparr>)) (\<lambda>l.
     op_return (t, l))))"

definition append_write :: "txn_id \<Rightarrow> bytes \<Rightarrow> bool \<Rightarrow> bytes \<Rightarrow> bytes \<Rightarrow> (log_manager, lsn) op" where
  "append_write t key before_exists before_val after_val =
     append_record_locked (new_WalRecord\<lparr>rec_txn_id := t, rec_type := wal_type_code WAL_WRITE, rec_key := key,
       rec_before_exists := before_exists, rec_before_val := (if before_exists then before_val else []),
       rec_after_val := after_val\<rparr>)"

definition append_commit :: "txn_id \<Rightarrow> (log_manager, lsn) op" where
  "append_commit t = append_record_locked (new_WalRecord\<lparr>rec_txn_id := t, rec_type := wal_type_code WAL_COMMIT\<rparr>)"

definition append_abort :: "txn_id \<Rightarrow> (log_manager, lsn) op" where
  "append_abort t = append_record_locked (new_WalRecord\<lparr>rec_txn_id := t, rec_type := wal_type_code WAL_ABORT\<rparr>)"

definition wal_flush :: "(log_manager, unit) op" where
  "wal_flush = op_bind wal_io (\<lambda>r. if r = IO_fail then op_throw System_error else op_return ())"

definition wal_truncate :: "(log_manager, unit) op" where
  "wal_truncate = op_bind wal_io (\<lambda>r. if r = IO_fail then op_throw System_error else
     op_modify (\<lambda>s. s\<lparr>wal_file := [], next_lsn := 1, next_txn_id := 1\<rparr>))"

subsection \<open>Reading\<close>

text \<open>A payload field: nothing is read for length 0, and a read that does not return every byte
  throws.\<close>

definition read_field :: "32 word \<Rightarrow> nat \<Rightarrow> (log_manager, bytes) op" where
  "read_field len off =
     (if len = 0 then op_return []
      else op_bind (wal_pread (unat len) off) (\<lambda>r. case r of
          None \<Rightarrow> op_throw Runtime_error
        | Some bs \<Rightarrow> if length bs \<noteq> unat len then op_throw Runtime_error else op_return bs))"

definition read_record :: "wal_record_header \<Rightarrow> nat \<Rightarrow> (log_manager, wal_record) op" where
  "read_record h off =
     op_bind (read_field (hdr_key_len h) off) (\<lambda>key.
     op_bind (read_field (hdr_before_len h) (off + unat (hdr_key_len h))) (\<lambda>bv.
     op_bind (read_field (hdr_after_len h) (off + unat (hdr_key_len h) + unat (hdr_before_len h))) (\<lambda>av.
     op_return \<lparr>rec_lsn = hdr_lsn h, rec_txn_id = hdr_txn_id h, rec_type = hdr_type h, rec_key = key,
       rec_before_val = bv, rec_after_val = av, rec_before_exists = (hdr_before_len h \<noteq> 0)\<rparr>)))"

definition payload_len :: "wal_record_header \<Rightarrow> nat" where
  "payload_len h = unat (hdr_key_len h) + unat (hdr_before_len h) + unat (hdr_after_len h)"

text \<open>Reading never changes the file; the loops below end because each round moves the offset at
  least 32 bytes further into it.\<close>

lemma wal_io_file: "wal_io s = (r, t) \<Longrightarrow> wal_file t = wal_file s"
  by (auto simp: wal_io_def split: list.splits)

lemma wal_pread_file:
  assumes "wal_pread n off s = (r, t)"
  shows "wal_file t = wal_file s" "r = Inr (Some bs) \<Longrightarrow> length bs \<le> length (wal_file s) - off"
proof -
  obtain x u where u: "wal_io s = (x, u)" by (cases "wal_io s")
  note f = wal_io_file [OF u]
  show "wal_file t = wal_file s"
    using assms u f by (auto simp: wal_pread_def op_bind_def op_gets_def split: sum.splits)
  show "r = Inr (Some bs) \<Longrightarrow> length bs \<le> length (wal_file s) - off"
    using assms u f by (auto simp: wal_pread_def op_bind_def op_gets_def Let_def split: sum.splits io_outcome.splits)
qed

lemma read_field_file: "read_field len off s = (r, t) \<Longrightarrow> wal_file t = wal_file s"
  using wal_pread_file(1) [of "unat len" off s]
  by (auto simp: read_field_def op_bind_def op_return_def op_throw_def split: if_splits prod.splits sum.splits option.splits)

lemma read_record_file: "read_record h off s = (r, t) \<Longrightarrow> wal_file t = wal_file s"
  by (auto simp: read_record_def op_bind_def op_return_def split: prod.splits sum.splits dest!: read_field_file)

lemma wal_step_less:
  assumes "(Inr (Some bs), s1) = wal_pread 32 off s" "\<not> length bs < 32" "wal_file s2 = wal_file s1"
  shows "length (wal_file s2) - (off + 32 + n) < length (wal_file s) - off"
  using wal_pread_file [OF assms(1) [symmetric]] assms(2,3) by fastforce

function read_all_loop :: "nat \<Rightarrow> wal_record list \<Rightarrow> (log_manager, wal_record list) op" where
  "read_all_loop off acc s =
     (case wal_pread WAL_HEADER_SIZE off s of
        (Inr (Some bs), s1) \<Rightarrow>
          if length bs < WAL_HEADER_SIZE then (Inr acc, s1)
          else let h = decode_header bs in
            if hdr_type h = wal_type_code WAL_INVALID then (Inr acc, s1)
            else (case read_record h (off + WAL_HEADER_SIZE) s1 of
                (Inl e, s2) \<Rightarrow> (Inl e, s2)
              | (Inr r, s2) \<Rightarrow> read_all_loop (off + WAL_HEADER_SIZE + payload_len h) (acc @ [r]) s2)
      | (Inr None, s1) \<Rightarrow> (Inr acc, s1)
      | (Inl e, s1) \<Rightarrow> (Inl e, s1))"
  by pat_completeness auto
termination
  by (relation "measure (\<lambda>(off, acc, s). length (wal_file s) - off)")
    (auto intro!: wal_step_less dest: read_record_file [OF sym])

declare read_all_loop.simps [simp del]

definition read_all :: "(log_manager, wal_record list) op" where
  "read_all = read_all_loop 0 []"

function scan_loop :: "nat \<Rightarrow> lsn \<Rightarrow> txn_id \<Rightarrow> (log_manager, lsn \<times> txn_id) op" where
  "scan_loop off max_lsn max_txn s =
     (case wal_pread WAL_HEADER_SIZE off s of
        (Inr (Some bs), s1) \<Rightarrow>
          if length bs < WAL_HEADER_SIZE then (Inr (max_lsn, max_txn), s1)
          else let h = decode_header bs in
            if hdr_type h = wal_type_code WAL_INVALID then (Inr (max_lsn, max_txn), s1)
            else scan_loop (off + WAL_HEADER_SIZE + payload_len h)
                   (if max_lsn <s hdr_lsn h then hdr_lsn h else max_lsn)
                   (if max_txn <s hdr_txn_id h then hdr_txn_id h else max_txn) s1
      | (Inr None, s1) \<Rightarrow> (Inr (max_lsn, max_txn), s1)
      | (Inl e, s1) \<Rightarrow> (Inl e, s1))"
  by pat_completeness auto
termination
  by (relation "measure (\<lambda>(off, l, t, s). length (wal_file s) - off)")
    (auto intro!: wal_step_less)

declare scan_loop.simps [simp del]

definition scan_for_max_ids :: "(log_manager, unit) op" where
  "scan_for_max_ids = op_bind (scan_loop 0 0 0) (\<lambda>(max_lsn, max_txn).
     op_bind (op_modify (\<lambda>s. if 0 <s max_lsn then s\<lparr>next_lsn := max_lsn + 1\<rparr> else s)) (\<lambda>_.
     op_modify (\<lambda>s. if 0 <s max_txn then s\<lparr>next_txn_id := max_txn + 1\<rparr> else s)))"

definition LogManager_open :: "bytes \<Rightarrow> io_outcome list \<Rightarrow> exc + log_manager" where
  "LogManager_open f faults =
     (let m = op_bind wal_io (\<lambda>r. if r = IO_fail then op_throw System_error else scan_for_max_ids)
      in case m \<lparr>wal_file = f, wal_faults = faults, next_lsn = 1, next_txn_id = 1\<rparr> of
           (Inl e, _) \<Rightarrow> Inl e | (Inr _, s) \<Rightarrow> Inr s)"

subsection \<open>What the file contains\<close>

text \<open>A record that can be read back: its type is set and its fields have 32-bit lengths. What is
  read back is the record with \<open>before_exists\<close> recomputed from the length of the before-image,
  the only trace the file keeps of it.\<close>

definition wal_wf :: "wal_record \<Rightarrow> bool" where
  "wal_wf r \<longleftrightarrow> rec_type r \<noteq> 0 \<and> length (rec_key r) < 2 ^ 32 \<and> length (rec_before_val r) < 2 ^ 32 \<and>
     length (rec_after_val r) < 2 ^ 32"

definition stored :: "wal_record \<Rightarrow> wal_record" where
  "stored r = r\<lparr>rec_before_exists := (rec_before_val r \<noteq> [])\<rparr>"

definition log_bytes :: "wal_record list \<Rightarrow> bytes" where
  "log_bytes rs = concat (map encode_record rs)"

lemma log_bytes_simps [simp]:
  "log_bytes [] = []" "log_bytes (r # rs) = encode_record r @ log_bytes rs"
  "log_bytes (as @ bs) = log_bytes as @ log_bytes bs"
  by (simp_all add: log_bytes_def)

lemma length_encode_header [simp]: "length (encode_header h) = 32"
  by (simp add: encode_header_def)

lemma decode_encode_header: "decode_header (encode_header h) = h"
  by (simp add: decode_header_def encode_header_def)

lemma unat_of_nat32: "n < 4294967296 \<Longrightarrow> unat (of_nat n :: 32 word) = n"
  by (simp add: unat_of_nat)

lemma payload_len_record:
  "wal_wf r \<Longrightarrow> payload_len (record_header r) = length (rec_key r) + length (rec_before_val r) + length (rec_after_val r)"
  by (simp add: payload_len_def record_header_def wal_wf_def unat_of_nat32)

lemma length_encode_record:
  "wal_wf r \<Longrightarrow> length (encode_record r) = 32 + payload_len (record_header r)"
  by (simp add: encode_record_def payload_len_record)

lemma wal_pread_run [op_simps]:
  "wal_faults s = [] \<Longrightarrow> wal_pread n off s = (Inr (Some (take n (drop off (wal_file s)))), s)"
  by (simp add: wal_pread_def wal_io_def op_defs)

lemma read_field_run:
  assumes "wal_faults s = []" "unat len = length bs" "drop off (wal_file s) = bs @ rest"
  shows "read_field len off s = (Inr bs, s)"
proof (cases "len = 0")
  case True
  then have "bs = []" using assms(2) by simp
  then show ?thesis using True by (simp add: read_field_def op_simps)
next
  case False
  then show ?thesis using assms by (simp add: read_field_def op_simps)
qed

lemma drop_more: "drop off xs = ys @ zs \<Longrightarrow> drop (off + length ys) xs = zs"
  by (metis append_eq_conv_conj drop_drop add.commute)

lemma read_record_run:
  assumes "wal_faults s = []" "wal_wf r" "drop off (wal_file s) = rec_key r @ rec_before_val r @ rec_after_val r @ rest"
  shows "read_record (record_header r) off s = (Inr (stored r), s)"
proof -
  let ?h = "record_header r"
  have len: "unat (hdr_key_len ?h) = length (rec_key r)" "unat (hdr_before_len ?h) = length (rec_before_val r)"
    "unat (hdr_after_len ?h) = length (rec_after_val r)"
    using assms(2) by (simp_all add: record_header_def wal_wf_def unat_of_nat32)
  note k = read_field_run [OF assms(1) len(1) assms(3)]
  note d1 = drop_more [OF assms(3)]
  note b = read_field_run [OF assms(1) len(2) d1]
  note a = read_field_run [OF assms(1) len(3) drop_more [OF d1]]
  have "hdr_before_len ?h \<noteq> 0 \<longleftrightarrow> rec_before_val r \<noteq> []" using len(2) by (auto simp: unat_eq_0)
  then show ?thesis
    using k b a len by (simp add: read_record_def op_simps stored_def) (simp add: record_header_def)
qed

lemma header_at:
  assumes "wal_faults s = []" "drop off (wal_file s) = encode_record r @ rest"
  shows "wal_pread 32 off s = (Inr (Some (encode_header (record_header r))), s)"
  using assms by (simp add: op_simps encode_record_def)

lemma read_all_loop_prefix:
  assumes "wal_faults s = []" "\<forall>r \<in> set rs. wal_wf r" "drop off (wal_file s) = log_bytes rs @ rest"
  shows "read_all_loop off acc s = read_all_loop (off + length (log_bytes rs)) (acc @ map stored rs) s"
  using assms(2,3)
proof (induction rs arbitrary: off acc)
  case (Cons r rs)
  let ?h = "record_header r"
  have wf: "wal_wf r" using Cons.prems by simp
  have dr: "drop off (wal_file s) = encode_record r @ log_bytes rs @ rest" using Cons.prems by simp
  have "drop (off + length (encode_header ?h)) (wal_file s)
    = rec_key r @ rec_before_val r @ rec_after_val r @ log_bytes rs @ rest"
    using dr by (intro drop_more) (simp add: encode_record_def)
  then have "drop (off + 32) (wal_file s) = rec_key r @ rec_before_val r @ rec_after_val r @ log_bytes rs @ rest"
    by simp
  note rr = read_record_run [OF assms(1) wf this]
  have "hdr_type ?h \<noteq> 0" using wf by (simp add: record_header_def wal_wf_def)
  then have "read_all_loop off acc s = read_all_loop (off + 32 + payload_len ?h) (acc @ [stored r]) s"
    using header_at [OF assms(1) dr] rr
    by (subst read_all_loop.simps) (simp add: decode_encode_header)
  also have "\<dots> = read_all_loop (off + length (encode_record r)) (acc @ [stored r]) s"
    using length_encode_record [OF wf] by (simp add: add.assoc)
  finally show ?case
    using Cons.IH [OF _ drop_more [OF dr], of "acc @ [stored r]"] Cons.prems(1) by (simp add: add.assoc)
qed simp

lemma read_all_loop_end:
  assumes "wal_faults s = []" "length (wal_file s) - off < 32"
  shows "read_all_loop off acc s = (Inr acc, s)"
  using assms by (subst read_all_loop.simps) (simp add: op_simps)

subsection \<open>The log as its clients see it\<close>

text \<open>The state of a healthy log that contains the records \<open>rs\<close>, in order, with increasing
  sequence numbers below the next one.\<close>

definition log_inv :: "log_manager \<Rightarrow> wal_record list \<Rightarrow> bool" where
  "log_inv s rs \<longleftrightarrow> wal_faults s = [] \<and> wal_file s = log_bytes rs \<and> (\<forall>r \<in> set rs. wal_wf r) \<and>
     sorted_wrt (<) (map (unat \<circ> rec_lsn) rs) \<and> (\<forall>r \<in> set rs. unat (rec_lsn r) < unat (next_lsn s)) \<and>
     unat (next_lsn s) < 2 ^ 63"

text \<open>The contract of an append-only log: appending adds one record at the end and returns its
  sequence number, reading returns the records in the order they were appended. A client that
  appends several records reads all of them back.\<close>

locale append_log =
  fixes append_rec :: "wal_record \<Rightarrow> ('s, lsn) op"
    and read_recs :: "('s, wal_record list) op"
    and holds :: "'s \<Rightarrow> wal_record list \<Rightarrow> bool"
    and room :: "'s \<Rightarrow> nat \<Rightarrow> bool"
    and ok :: "wal_record \<Rightarrow> bool"
  assumes append_ok: "holds s rs \<Longrightarrow> room s (Suc n) \<Longrightarrow> ok r \<Longrightarrow>
      \<exists>l t. append_rec r s = (Inr l, t) \<and> holds t (rs @ [r\<lparr>rec_lsn := l\<rparr>]) \<and> room t n"
    and read_ok: "holds s rs \<Longrightarrow> read_recs s = (Inr (map stored rs), s)"
begin

lemma append_many:
  assumes "holds s rs" "room s (length ns)" "\<forall>r \<in> set ns. ok r"
  shows "\<exists>t ms. op_foreach (\<lambda>r. op_bind (append_rec r) (\<lambda>_. op_return ())) ns s = (Inr (), t) \<and> holds t (rs @ ms) \<and>
    map (\<lambda>r. r\<lparr>rec_lsn := 0\<rparr>) ms = map (\<lambda>r. r\<lparr>rec_lsn := 0\<rparr>) ns"
  using assms
proof (induction ns arbitrary: s rs)
  case (Cons r ns)
  obtain l t where t: "append_rec r s = (Inr l, t)" "holds t (rs @ [r\<lparr>rec_lsn := l\<rparr>])" "room t (length ns)"
    using append_ok [of s rs "length ns" r] Cons.prems by auto
  obtain u ms where "op_foreach (\<lambda>r. op_bind (append_rec r) (\<lambda>_. op_return ())) ns t = (Inr (), u)"
    "holds u ((rs @ [r\<lparr>rec_lsn := l\<rparr>]) @ ms)" "map (\<lambda>r. r\<lparr>rec_lsn := 0\<rparr>) ms = map (\<lambda>r. r\<lparr>rec_lsn := 0\<rparr>) ns"
    using Cons.IH [OF t(2,3)] Cons.prems(3) by auto
  then show ?case using t(1) by (intro exI [of _ u] exI [of _ "r\<lparr>rec_lsn := l\<rparr> # ms"]) (simp add: op_defs)
qed (auto simp: op_simps)

end

lemma append_record_run:
  assumes "log_inv s rs" "wal_wf r" "unat (next_lsn s) + 1 < 2 ^ 63"
  defines "t \<equiv> s\<lparr>next_lsn := next_lsn s + 1, wal_file := wal_file s @ encode_record (r\<lparr>rec_lsn := next_lsn s\<rparr>)\<rparr>"
  shows "append_record_locked r s = (Inr (next_lsn s), t)" "log_inv t (rs @ [r\<lparr>rec_lsn := next_lsn s\<rparr>])"
proof -
  show "append_record_locked r s = (Inr (next_lsn s), t)"
    using assms(1) by (simp add: append_record_locked_def log_inv_def t_def wal_append_def wal_io_def op_defs)
  have n: "unat (next_lsn s + 1) = unat (next_lsn s) + 1"
    using assms(3) by (simp add: unat_inc64)
  have "wal_wf (r\<lparr>rec_lsn := next_lsn s\<rparr>)" using assms(2) by (simp add: wal_wf_def)
  then show "log_inv t (rs @ [r\<lparr>rec_lsn := next_lsn s\<rparr>])"
    using assms(1,3) n by (auto simp: log_inv_def t_def sorted_wrt_append less_Suc_eq)
qed

lemma read_all_file:
  assumes "wal_faults s = []" "wal_file s = log_bytes rs" "\<forall>r \<in> set rs. wal_wf r"
  shows "read_all s = (Inr (map stored rs), s)"
proof -
  have "read_all s = read_all_loop (0 + length (log_bytes rs)) ([] @ map stored rs) s"
    unfolding read_all_def by (rule read_all_loop_prefix [OF assms(1,3), of 0 "[]"]) (simp add: assms(2))
  then show ?thesis using read_all_loop_end [OF assms(1), of "length (log_bytes rs)"] assms(2) by simp
qed

lemma read_all_run: "log_inv s rs \<Longrightarrow> read_all s = (Inr (map stored rs), s)"
  by (rule read_all_file) (auto simp: log_inv_def)

interpretation wal: append_log append_record_locked read_all log_inv
  "\<lambda>s n. unat (next_lsn s) + n < 2 ^ 63" wal_wf
proof (unfold_locales, goal_cases)
  case (1 s rs n r)
  have l: "unat (next_lsn s) + 1 < 2 ^ 63" using 1(2) by simp
  have "unat (next_lsn s + 1) = unat (next_lsn s) + 1"
    using l by (simp add: unat_inc64)
  then show ?case using append_record_run [OF 1(1,3) l] 1(2) by auto
next
  case (2 s rs)
  then show ?case by (rule read_all_run)
qed

end
