(* ===== verification/Wal_Props.thy ===== *)
theory Wal_Props
  imports Log_Manager
begin

section \<open>Properties of the write-ahead log\<close>

text \<open>
  What recovery and the transactions rely on: appended records come back in order, an incomplete
  header at the end of the file is ignored, reopening continues with fresh ids; and the three ways
  in which the log does not keep what its comments promise.
\<close>

definition sample_log :: log_manager where
  "sample_log = \<lparr>wal_file = [], wal_faults = [], next_lsn = 1, next_txn_id = 1\<rparr>"

lemma sample_log_ok: "log_inv sample_log []"
  by (simp add: log_inv_def sample_log_def)

definition sample_record :: wal_record where
  "sample_record = \<lparr>rec_lsn = 1, rec_txn_id = 1, rec_type = wal_type_code WAL_WRITE, rec_key = [5],
     rec_before_val = [], rec_after_val = [6], rec_before_exists = False\<rparr>"

lemma sample_record_wf: "wal_wf sample_record"
  by (simp add: wal_wf_def sample_record_def)

text \<open>C19. A write that is logged is read back after everything logged before it, with its
  transaction, key and images, under a sequence number larger than any in the log. The
  before-image reads back as present exactly if it is not empty.\<close>

theorem append_write_read_all:
  assumes "log_inv s rs" "unat (next_lsn s) + 1 < 2 ^ 63"
    "length key < 2 ^ 32" "length before_val < 2 ^ 32" "length after_val < 2 ^ 32"
  shows "\<exists>t. append_write tid key before_exists before_val after_val s = (Inr (next_lsn s), t) \<and>
    (\<forall>r \<in> set rs. unat (rec_lsn r) < unat (next_lsn s)) \<and>
    read_all t = (Inr (map stored rs @ [\<lparr>rec_lsn = next_lsn s, rec_txn_id = tid, rec_type = wal_type_code WAL_WRITE,
      rec_key = key, rec_before_val = (if before_exists then before_val else []), rec_after_val = after_val,
      rec_before_exists = (before_exists \<and> before_val \<noteq> [])\<rparr>]), t)"
proof -
  let ?r = "new_WalRecord\<lparr>rec_txn_id := tid, rec_type := wal_type_code WAL_WRITE, rec_key := key,
       rec_before_exists := before_exists, rec_before_val := (if before_exists then before_val else []),
       rec_after_val := after_val\<rparr>"
  have "wal_wf ?r" using assms(3-5) by (simp add: wal_wf_def)
  note A = append_record_run [OF assms(1) this assms(2)]
  show ?thesis
    using A(1) read_all_run [OF A(2)] assms(1)
    by (auto simp: append_write_def stored_def new_WalRecord_def log_inv_def)
qed

theorem append_write_read_all_witness:
  "\<exists>t. append_write 7 [1] True [2] [3] sample_log = (Inr 1, t) \<and>
    read_all t = (Inr [\<lparr>rec_lsn = 1, rec_txn_id = 7, rec_type = 2, rec_key = [1], rec_before_val = [2],
      rec_after_val = [3], rec_before_exists = True\<rparr>], t)"
  using append_write_read_all [OF sample_log_ok, of "[1]" "[2]" "[3]" 7 True] by (auto simp: sample_log_def)

text \<open>A crash in the middle of a header is harmless: whatever fewer than 32 bytes follow the last
  complete record, \<open>read_all\<close> returns exactly the complete records.\<close>

theorem read_all_torn_header:
  assumes "wal_faults s = []" "wal_file s = log_bytes rs @ rest" "\<forall>r \<in> set rs. wal_wf r" "length rest < 32"
  shows "read_all s = (Inr (map stored rs), s)"
proof -
  have "read_all s = read_all_loop (0 + length (log_bytes rs)) ([] @ map stored rs) s"
    unfolding read_all_def by (rule read_all_loop_prefix [OF assms(1,3), of 0 rest]) (simp add: assms(2))
  then show ?thesis using read_all_loop_end [OF assms(1), of "length (log_bytes rs)"] assms(2,4) by simp
qed

theorem read_all_torn_header_witness:
  "read_all \<lparr>wal_file = encode_record sample_record @ [1, 2, 3], wal_faults = [], next_lsn = 2, next_txn_id = 2\<rparr>
    = (Inr [stored sample_record], \<lparr>wal_file = encode_record sample_record @ [1, 2, 3], wal_faults = [], next_lsn = 2, next_txn_id = 2\<rparr>)"
  using read_all_torn_header [of _ "[sample_record]" "[1, 2, 3]"] sample_record_wf by simp

lemma read_field_short:
  assumes "wal_faults s = []" "length (drop off (wal_file s)) < unat len"
  shows "read_field len off s = (Inl Runtime_error, s)"
proof -
  have "len \<noteq> 0" using assms(2) by auto
  with assms show ?thesis by (simp add: read_field_def op_simps)
qed

lemma read_record_torn:
  assumes "wal_faults s = []" "wal_wf r" "n < length (rec_key r @ rec_before_val r @ rec_after_val r)"
    "drop off (wal_file s) = take n (rec_key r @ rec_before_val r @ rec_after_val r)"
  shows "read_record (record_header r) off s = (Inl Runtime_error, s)"
proof -
  let ?h = "record_header r" and ?k = "length (rec_key r)" and ?b = "length (rec_before_val r)"
  have len: "unat (hdr_key_len ?h) = ?k" "unat (hdr_before_len ?h) = ?b"
    "unat (hdr_after_len ?h) = length (rec_after_val r)"
    using assms(2) by (simp_all add: record_header_def wal_wf_def unat_of_nat32)
  have left: "length (drop (off + i) (wal_file s)) = n - i" for i
  proof -
    have "length (drop off (wal_file s)) = n" using assms(3,4) by simp
    then show ?thesis by simp
  qed
  show ?thesis
  proof (cases "n < ?k")
    case True
    then show ?thesis using read_field_short [OF assms(1), of off] left [of 0] len by (simp add: read_record_def op_simps)
  next
    case False
    then have d: "drop off (wal_file s) = rec_key r @ take (n - ?k) (rec_before_val r @ rec_after_val r)"
      using assms(4) by simp
    note k = read_field_run [OF assms(1) len(1) d]
    show ?thesis
    proof (cases "n < ?k + ?b")
      case True
      then show ?thesis using k read_field_short [OF assms(1), of "off + ?k"] left [of ?k] len False
        by (simp add: read_record_def op_simps)
    next
      case False
      have "drop (off + ?k) (wal_file s) = rec_before_val r @ take (n - ?k - ?b) (rec_after_val r)"
        using drop_more [OF d] False by simp
      note b = read_field_run [OF assms(1) len(2) this]
      have "length (drop (off + ?k + ?b) (wal_file s)) < length (rec_after_val r)"
        using left [of "?k + ?b"] assms(3) False by (simp add: add.assoc)
      then show ?thesis using k b read_field_short [OF assms(1), of "off + ?k + ?b"] len
        by (simp add: read_record_def op_simps)
    qed
  qed
qed

text \<open>A crash in the middle of a payload is not: if the file ends after a complete header but
  before the end of its record, \<open>read_all\<close> throws, and with it recovery and opening the
  database.\<close>

theorem read_all_torn_payload:
  assumes "wal_faults s = []" "\<forall>r \<in> set rs. wal_wf r" "wal_wf r" "32 \<le> n" "n < length (encode_record r)"
    "wal_file s = log_bytes rs @ take n (encode_record r)"
  shows "read_all s = (Inl Runtime_error, s)"
proof -
  let ?h = "record_header r" and ?p = "rec_key r @ rec_before_val r @ rec_after_val r"
  let ?off = "length (log_bytes rs)"
  have enc: "take n (encode_record r) = encode_header ?h @ take (n - 32) ?p" using assms(4) by (simp add: encode_record_def)
  have d: "drop ?off (wal_file s) = encode_header ?h @ take (n - 32) ?p" using assms(6) enc by simp
  have d': "drop (?off + 32) (wal_file s) = take (n - 32) ?p" using drop_more [OF d] by simp
  have "hdr_type ?h \<noteq> 0" using assms(3) by (simp add: record_header_def wal_wf_def)
  moreover have "n - 32 < length ?p" using assms(4,5) by (simp add: encode_record_def)
  ultimately have "read_all_loop ?off (map stored rs) s = (Inl Runtime_error, s)"
    using read_record_torn [OF assms(1,3) _ d'] assms(1) d
    by (subst read_all_loop.simps) (simp add: op_simps decode_encode_header)
  moreover have "read_all s = read_all_loop (0 + ?off) ([] @ map stored rs) s"
    unfolding read_all_def by (rule read_all_loop_prefix [OF assms(1,2), of 0 "take n (encode_record r)"]) (simp add: assms(6))
  ultimately show ?thesis by simp
qed

theorem read_all_torn_payload_witness:
  "fst (read_all \<lparr>wal_file = take 33 (encode_record sample_record), wal_faults = [], next_lsn = 1, next_txn_id = 1\<rparr>)
    = Inl Runtime_error"
  using read_all_torn_payload [of "\<lparr>wal_file = take 33 (encode_record sample_record), wal_faults = [], next_lsn = 1, next_txn_id = 1\<rparr>"
      "[]" sample_record 33] sample_record_wf
  by (simp add: encode_record_def sample_record_def)

text \<open>An I/O error while a header is read is taken for the end of the log: \<open>read_all\<close> returns
  normally with the records before it, and everything after it is silently lost.\<close>

theorem read_all_hides_io_error:
  assumes "wal_faults s = IO_fail # fs"
  shows "read_all s = (Inr [], s\<lparr>wal_faults := fs\<rparr>)"
  using assms unfolding read_all_def
  by (subst read_all_loop.simps) (simp add: wal_pread_def wal_io_def op_defs)

theorem read_all_hides_io_error_witness:
  "fst (read_all \<lparr>wal_file = encode_record sample_record, wal_faults = [IO_fail], next_lsn = 2, next_txn_id = 2\<rparr>) = Inr []"
  using read_all_hides_io_error [of "\<lparr>wal_file = encode_record sample_record, wal_faults = [IO_fail], next_lsn = 2, next_txn_id = 2\<rparr>" "[]"]
  by simp

subsection \<open>Reopening\<close>

definition smax :: "64 word \<Rightarrow> 64 word \<Rightarrow> 64 word" where
  "smax a b = (if a <s b then b else a)"

lemma sint_smax: "sint (smax a b) = max (sint a) (sint b)"
  by (simp add: smax_def word_sless_alt max_def)

lemma fold_smax_ge:
  "sint m \<le> sint (fold (\<lambda>x m. smax m x) xs m) \<and> (\<forall>x \<in> set xs. sint x \<le> sint (fold (\<lambda>x m. smax m x) xs m))"
  by (induction xs arbitrary: m) (auto simp: sint_smax, (metis max.bounded_iff order_refl sint_smax)+)

lemma fold_smax_in: "fold (\<lambda>x m. smax m x) xs m \<in> insert m (set xs)"
  by (induction xs arbitrary: m) (auto simp: smax_def)

lemma scan_loop_run:
  assumes "wal_faults s = []" "\<forall>r \<in> set rs. wal_wf r" "drop off (wal_file s) = log_bytes rs"
  shows "scan_loop off l t s =
    (Inr (fold (\<lambda>x m. smax m x) (map rec_lsn rs) l, fold (\<lambda>x m. smax m x) (map rec_txn_id rs) t), s)"
  using assms(2,3)
proof (induction rs arbitrary: off l t)
  case Nil
  then show ?case using assms(1) by (subst scan_loop.simps) (simp add: op_simps)
next
  case (Cons r rs)
  let ?h = "record_header r"
  have wf: "wal_wf r" and dr: "drop off (wal_file s) = encode_record r @ log_bytes rs" using Cons.prems by simp_all
  have "hdr_type ?h \<noteq> 0" using wf by (simp add: record_header_def wal_wf_def)
  then have "scan_loop off l t s = scan_loop (off + 32 + payload_len ?h) (smax l (rec_lsn r)) (smax t (rec_txn_id r)) s"
    using header_at [OF assms(1) dr]
    by (subst scan_loop.simps) (simp add: decode_encode_header smax_def record_header_def)
  also have "off + 32 + payload_len ?h = off + length (encode_record r)"
    using length_encode_record [OF wf] by (simp add: add.assoc)
  finally show ?case using Cons.IH [OF _ drop_more [OF dr]] Cons.prems(1) by simp
qed

lemma sint_inc:
  fixes w :: "64 word"
  assumes "sint w < 2 ^ 63 - 1"
  shows "sint (w + 1) = sint w + 1"
proof -
  have "sint (w + 1) = signed_take_bit 63 (sint w + 1)"
    by (simp add: sint_word_ariths)
  also have "\<dots> = sint w + 1"
    using assms sint_ge [of w] by (intro signed_take_bit_int_eq_self) simp_all
  finally show ?thesis .
qed

text \<open>C20. Reopening the log never reuses an id: the next sequence number and the next transaction
  id lie above those of every record in the file, and start at 1 for an empty file.\<close>

theorem reopen_ids_fresh:
  assumes "\<forall>r \<in> set rs. wal_wf r \<and> sint (rec_lsn r) < 2 ^ 63 - 1 \<and> sint (rec_txn_id r) < 2 ^ 63 - 1"
  shows "\<exists>s. LogManager_open (log_bytes rs) [] = Inr s \<and> wal_file s = log_bytes rs \<and>
    0 < sint (next_lsn s) \<and> 0 < sint (next_txn_id s) \<and>
    (\<forall>r \<in> set rs. sint (rec_lsn r) < sint (next_lsn s) \<and> sint (rec_txn_id r) < sint (next_txn_id s))"
proof -
  let ?s = "\<lparr>wal_file = log_bytes rs, wal_faults = [], next_lsn = 1, next_txn_id = 1\<rparr>"
  let ?l = "fold (\<lambda>x m. smax m x) (map rec_lsn rs) 0" and ?t = "fold (\<lambda>x m. smax m x) (map rec_txn_id rs) 0"
  have scan: "scan_loop 0 0 0 ?s = (Inr (?l, ?t), ?s)" using assms by (intro scan_loop_run) auto
  have above: "0 < sint (if 0 <s m then m + 1 else 1) \<and> sint x < sint (if 0 <s m then m + 1 else 1)"
    if "sint x \<le> sint m" "sint m < 2 ^ 63 - 1" for m x :: "64 word"
    using that sint_inc [of m] by (auto simp: word_sless_alt)
  have "?l \<in> insert 0 (set (map rec_lsn rs))" "?t \<in> insert 0 (set (map rec_txn_id rs))" by (rule fold_smax_in)+
  then have bound: "sint ?l < 2 ^ 63 - 1" "sint ?t < 2 ^ 63 - 1" using assms by auto
  have ge: "sint (rec_lsn r) \<le> sint ?l" "sint (rec_txn_id r) \<le> sint ?t" if "r \<in> set rs" for r
    using fold_smax_ge [of 0 "map rec_lsn rs"] fold_smax_ge [of 0 "map rec_txn_id rs"] that by auto
  let ?u = "\<lparr>wal_file = log_bytes rs, wal_faults = [], next_lsn = (if 0 <s ?l then ?l + 1 else 1),
    next_txn_id = (if 0 <s ?t then ?t + 1 else 1)\<rparr>"
  have "LogManager_open (log_bytes rs) [] = Inr ?u"
    using scan by (simp add: LogManager_open_def scan_for_max_ids_def wal_io_def op_defs)
  then show ?thesis
    using above [OF order_refl bound(1)] above [OF order_refl bound(2)] above [OF ge(1) bound(1)] above [OF ge(2) bound(2)]
    by (intro exI [of _ ?u]) simp
qed

theorem reopen_ids_fresh_witness:
  "\<exists>s. LogManager_open (log_bytes [sample_record]) [] = Inr s \<and> 1 < sint (next_lsn s) \<and> 1 < sint (next_txn_id s)"
  using reopen_ids_fresh [of "[sample_record]"] sample_record_wf by (auto simp: sample_record_def)

end
