(* ===== verification/Btree.thy ===== *)
theory Btree
  imports Buffer_Pool Node_Ops
begin

section \<open>The B+Tree (\<open>src/src/btree/btree.{h,cpp}\<close>, and the pool-dependent part of \<open>node.cpp\<close>)\<close>

text \<open>
  The tree lives in the pages of the buffer pool; its own state is the id of the root page, which
  extends the state of the pool. A \<open>Node\<close> is the frame its \<open>Page*\<close> points to:
  \<open>at_frame\<close> runs an operation of a node on the page in a frame. The breadcrumbs, a vector
  used as a stack, are a list whose head is the back of the vector.

  \<open>find_leaf\<close> follows child pointers read from pages and does not end if they form a cycle,
  so its loop has fuel: the number of pages of the file, which a path without repetition cannot
  exceed.
\<close>

record btree = buffer_pool +
  tree_root :: page_id

definition at_frame :: "nat \<Rightarrow> (page, 'x) op \<Rightarrow> ('a buffer_pool_scheme, 'x) op" where
  "at_frame fid m = (\<lambda>s. case m (fr_page (frames s ! fid)) of (r, p) \<Rightarrow> (r, write_frame fid p s))"

definition at_frames :: "nat \<Rightarrow> nat \<Rightarrow> (page \<times> page, 'x) op \<Rightarrow> ('a buffer_pool_scheme, 'x) op" where
  "at_frames f g m = (\<lambda>s. case m (fr_page (frames s ! f), fr_page (frames s ! g)) of
     (r, (p, q)) \<Rightarrow> (r, write_frame g q (write_frame f p s)))"

definition page_get :: "nat \<Rightarrow> (page \<Rightarrow> 'x) \<Rightarrow> ('a buffer_pool_scheme, 'x) op" where
  "page_get fid f = op_gets (\<lambda>s. f (fr_page (frames s ! fid)))"

definition page_read :: "nat \<Rightarrow> (page \<Rightarrow> exc + 'x) \<Rightarrow> ('a buffer_pool_scheme, 'x) op" where
  "page_read fid f = op_read (\<lambda>s. f (fr_page (frames s ! fid)))"

definition page_set :: "nat \<Rightarrow> (page \<Rightarrow> page) \<Rightarrow> ('a buffer_pool_scheme, unit) op" where
  "page_set fid f = op_modify (\<lambda>s. write_frame fid (f (fr_page (frames s ! fid))) s)"

text \<open>Fetching a page and asserting that the pointer is not null; constructing a \<open>Node\<close>.\<close>

definition fetch_checked :: "page_id \<Rightarrow> ('a buffer_pool_scheme, nat) op" where
  "fetch_checked pid = op_bind (fetch_page pid) (\<lambda>r. case r of
     None \<Rightarrow> op_throw Assertion_failure | Some fid \<Rightarrow> op_return fid)"

definition mk_node :: "nat \<Rightarrow> ('a buffer_pool_scheme, unit) op" where
  "mk_node fid = op_assert (\<lambda>s. Node_check (fr_page (frames s ! fid)))"

text \<open>Fetch a page, change a field of its node header, and unpin it as dirty.\<close>

definition update_node :: "page_id \<Rightarrow> (page \<Rightarrow> page) \<Rightarrow> ('a buffer_pool_scheme, unit) op" where
  "update_node pid f =
     op_bind (fetch_checked pid) (\<lambda>fid.
     op_bind (mk_node fid) (\<lambda>_.
     op_bind (page_set fid f) (\<lambda>_.
     unpin_page pid True)))"

subsection \<open>Traversal and lookup\<close>

function skip_equal :: "bytes \<Rightarrow> page \<Rightarrow> nat \<Rightarrow> exc + nat" where
  "skip_equal key p ub =
     (if ub < num_keys p then res_bind (key_at ub p) (\<lambda>k. if k = key then skip_equal key p (ub + 1) else Inr ub)
      else Inr ub)"
  by pat_completeness auto
termination
  by (relation "measure (\<lambda>(key, p, ub). num_keys p - ub)") auto

declare skip_equal.simps [simp del]

definition next_child :: "bytes \<Rightarrow> page \<Rightarrow> exc + page_id" where
  "next_child key p = res_bind (lower_bound key p) (\<lambda>lo. res_bind (skip_equal key p lo) (\<lambda>ub.
     if ub = 0 then Inr (first_child p) else child_at (ub - 1) p))"

fun find_leaf_loop :: "nat \<Rightarrow> bytes \<Rightarrow> page_id \<Rightarrow> page_id list \<Rightarrow> ('a btree_scheme, nat \<times> page_id list) op" where
  "find_leaf_loop 0 key cur breadcrumbs = op_throw Out_of_fuel"
| "find_leaf_loop (Suc n) key cur breadcrumbs =
     op_bind (fetch_checked cur) (\<lambda>fid.
     op_bind (page_get fid is_leaf) (\<lambda>leaf.
     if leaf then op_return (fid, breadcrumbs)
     else
       op_bind (mk_node fid) (\<lambda>_.
       op_bind (page_read fid (next_child key)) (\<lambda>next.
       op_bind (unpin_page cur False) (\<lambda>_.
       find_leaf_loop n key next (cur # breadcrumbs))))))"

definition find_leaf :: "bytes \<Rightarrow> ('a btree_scheme, nat \<times> page_id list) op" where
  "find_leaf key = op_bind (op_gets (\<lambda>s. (unat (num_pages s), tree_root s))) (\<lambda>(n, root).
     find_leaf_loop n key root [])"

text \<open>Looking a key up in a leaf: the slot it was found in.\<close>

definition leaf_slot :: "bytes \<Rightarrow> page \<Rightarrow> exc + nat option" where
  "leaf_slot key p = res_bind (lower_bound key p) (\<lambda>slot.
     if slot < num_keys p then res_bind (key_at slot p) (\<lambda>k. Inr (if k = key then Some slot else None))
     else Inr None)"

definition btree_get :: "bytes \<Rightarrow> ('a btree_scheme, bytes option) op" where
  "btree_get key = op_bind (find_leaf key) (\<lambda>(fid, breadcrumbs).
     op_bind (page_get fid page_id) (\<lambda>leaf_id.
     op_bind (mk_node fid) (\<lambda>_.
     op_bind (page_read fid (\<lambda>p. res_bind (leaf_slot key p) (\<lambda>r. case r of
         None \<Rightarrow> Inr None
       | Some slot \<Rightarrow> res_bind (value_at slot p) (\<lambda>v. Inr (Some v))))) (\<lambda>result.
     op_bind (unpin_page leaf_id False) (\<lambda>_.
     op_return result)))))"

subsection \<open>Creating and inserting\<close>

definition persist_root :: "('a btree_scheme, unit) op" where
  "persist_root = op_bind (op_gets tree_root) set_root_page_id"

definition BTree_create :: "('a btree_scheme, unit) op" where
  "BTree_create =
     op_bind new_page (\<lambda>(root_id, fid).
     op_bind (page_set fid (init_leaf root_id INVALID_PAGE_ID)) (\<lambda>_.
     op_bind (unpin_page root_id True) (\<lambda>_.
     op_bind (op_modify (\<lambda>s. s\<lparr>tree_root := root_id\<rparr>)) (\<lambda>_.
     persist_root))))"

definition BTree_open :: "page_id \<Rightarrow> 'a btree_scheme \<Rightarrow> 'a btree_scheme" where
  "BTree_open root = (\<lambda>s. s\<lparr>tree_root := root\<rparr>)"

definition create_new_root :: "page_id \<Rightarrow> bytes \<Rightarrow> page_id \<Rightarrow> ('a btree_scheme, unit) op" where
  "create_new_root left_id sep_key right_id =
     op_bind new_page (\<lambda>(new_root_id, fid).
     op_bind (page_set fid (init_internal new_root_id INVALID_PAGE_ID)) (\<lambda>_.
     op_bind (mk_node fid) (\<lambda>_.
     op_bind (page_set fid (set_first_child left_id)) (\<lambda>_.
     op_bind (at_frame fid (insert_separator sep_key right_id)) (\<lambda>ok.
     op_bind (op_assert (\<lambda>_. ok)) (\<lambda>_.
     op_bind (unpin_page new_root_id True) (\<lambda>_.
     op_bind (update_node left_id (set_parent_id new_root_id)) (\<lambda>_.
     op_bind (update_node right_id (set_parent_id new_root_id)) (\<lambda>_.
     op_bind (op_modify (\<lambda>s. s\<lparr>tree_root := new_root_id\<rparr>)) (\<lambda>_.
     persist_root))))))))))"

text \<open>Insert the separator into a node that has room for it and make the new page its child.\<close>

definition attach_right :: "nat \<Rightarrow> page_id \<Rightarrow> bytes \<Rightarrow> page_id \<Rightarrow> ('a btree_scheme, unit) op" where
  "attach_right fid pid sep_key right_id =
     op_bind (at_frame fid (insert_separator sep_key right_id)) (\<lambda>ok.
     op_bind (op_assert (\<lambda>_. ok)) (\<lambda>_.
     update_node right_id (set_parent_id pid)))"

definition reparent :: "page_id \<Rightarrow> page_id \<Rightarrow> ('a btree_scheme, unit) op" where
  "reparent parent child_pid =
     (if child_pid = INVALID_PAGE_ID then op_return () else update_node child_pid (set_parent_id parent))"

definition reparent_children :: "nat \<Rightarrow> page_id \<Rightarrow> ('a btree_scheme, unit) op" where
  "reparent_children fid pid =
     op_bind (page_get fid num_keys) (\<lambda>n.
     op_bind (page_get fid first_child) (\<lambda>fc.
     op_bind (reparent pid fc) (\<lambda>_.
     op_foreach (\<lambda>i. op_bind (page_read fid (child_at i)) (reparent pid)) [0..<n])))"

fun insert_into_parent :: "page_id \<Rightarrow> bytes \<Rightarrow> page_id \<Rightarrow> page_id list \<Rightarrow> ('a btree_scheme, unit) op" where
  "insert_into_parent left_id sep_key right_id [] = create_new_root left_id sep_key right_id"
| "insert_into_parent left_id sep_key right_id (par # breadcrumbs) =
     op_bind (fetch_checked par) (\<lambda>fid.
     op_bind (mk_node fid) (\<lambda>_.
     op_bind (page_read fid (is_full (internal_cell_size (length sep_key)))) (\<lambda>full.
     op_bind (if full then at_frame fid compact else op_return ()) (\<lambda>_.
     op_bind (page_read fid (is_full (internal_cell_size (length sep_key)))) (\<lambda>full'.
     if \<not> full' then
       op_bind (attach_right fid par sep_key right_id) (\<lambda>_.
       unpin_page par True)
     else
       op_bind new_page (\<lambda>(par_right_id, gid).
       op_bind (page_get fid parent_id) (\<lambda>grand.
       op_bind (page_set gid (init_internal par_right_id grand)) (\<lambda>_.
       op_bind (mk_node gid) (\<lambda>_.
       op_bind (at_frames fid gid split_into) (\<lambda>parent_sep.
       op_bind (if sep_key < parent_sep then attach_right fid par sep_key right_id
                else attach_right gid par_right_id sep_key right_id) (\<lambda>_.
       op_bind (reparent_children gid par_right_id) (\<lambda>_.
       op_bind (unpin_page par True) (\<lambda>_.
       op_bind (unpin_page par_right_id True) (\<lambda>_.
       insert_into_parent par parent_sep par_right_id breadcrumbs))))))))))))))"

definition btree_insert :: "bytes \<Rightarrow> bytes \<Rightarrow> ('a btree_scheme, unit) op" where
  "btree_insert key val =
     (if leaf_cell_size (length key) (length val) + 2 > NODE_USABLE_SIZE then op_throw Invalid_argument
      else
        op_bind (find_leaf key) (\<lambda>(fid, breadcrumbs).
        op_bind (page_get fid page_id) (\<lambda>leaf_id.
        op_bind (mk_node fid) (\<lambda>_.
        op_bind (at_frame fid (insert_leaf_cell key val)) (\<lambda>ok.
        if ok then unpin_page leaf_id True
        else
          op_bind new_page (\<lambda>(right_id, gid).
          op_bind (page_get fid parent_id) (\<lambda>par.
          op_bind (page_set gid (init_leaf right_id par)) (\<lambda>_.
          op_bind (mk_node gid) (\<lambda>_.
          op_bind (page_get fid right_sibling) (\<lambda>old_right_sib.
          op_bind (at_frames fid gid split_into) (\<lambda>sep_key.
          op_bind (if old_right_sib \<noteq> INVALID_PAGE_ID
                   then update_node old_right_sib (set_left_sibling right_id) else op_return ()) (\<lambda>_.
          op_bind (if key < sep_key then at_frame fid (insert_leaf_cell key val)
                   else at_frame gid (insert_leaf_cell key val)) (\<lambda>_.
          op_bind (unpin_page leaf_id True) (\<lambda>_.
          op_bind (unpin_page right_id True) (\<lambda>_.
          insert_into_parent leaf_id sep_key right_id breadcrumbs)))))))))))))))"

subsection \<open>Merging and stealing\<close>

definition merge_from :: "nat \<Rightarrow> nat \<Rightarrow> bytes \<Rightarrow> ('a btree_scheme, unit) op" where
  "merge_from fid rid separator_key = op_bind (page_get fid is_leaf) (\<lambda>leaf.
     op_bind (page_get rid num_keys) (\<lambda>rn.
     if leaf then
       op_bind (op_foreach (\<lambda>i.
         op_bind (page_read rid (key_at i)) (\<lambda>k.
         op_bind (page_read rid (value_at i)) (\<lambda>v.
         op_bind (at_frame fid (insert_leaf_cell k v)) (\<lambda>ok. op_assert (\<lambda>_. ok))))) [0..<rn]) (\<lambda>_.
       op_bind (page_get rid right_sibling) (\<lambda>rs.
       page_set fid (set_right_sibling rs)))
     else
       op_bind (page_get rid first_child) (\<lambda>fc.
       op_bind (at_frame fid (insert_separator separator_key fc)) (\<lambda>ok.
       op_bind (op_assert (\<lambda>_. ok)) (\<lambda>_.
       op_bind (op_foreach (\<lambda>i.
         op_bind (page_read rid (key_at i)) (\<lambda>k.
         op_bind (page_read rid (child_at i)) (\<lambda>c.
         op_bind (at_frame fid (insert_separator k c)) (\<lambda>ok. op_assert (\<lambda>_. ok))))) [0..<rn]) (\<lambda>_.
       op_bind (page_get fid page_id) (\<lambda>pid.
       op_bind (reparent pid fc) (\<lambda>_.
       op_bind (op_foreach (\<lambda>i. op_bind (page_read rid (child_at i)) (reparent pid)) [0..<rn]) (\<lambda>_.
       op_bind (page_get rid first_child) (reparent pid))))))))))"

text \<open>The old separator is a parameter in the source, but it is not used there.\<close>

definition steal_from_left :: "nat \<Rightarrow> nat \<Rightarrow> ('a btree_scheme, bytes) op" where
  "steal_from_left fid lid = op_bind (page_get lid num_keys) (\<lambda>ln.
     let last = u16_sub ln 1 in
     op_bind (page_get fid is_leaf) (\<lambda>leaf.
     if leaf then
       op_bind (page_read lid (key_at last)) (\<lambda>k.
       op_bind (page_read lid (value_at last)) (\<lambda>v.
       op_bind (at_frame lid (remove_cell last)) (\<lambda>_.
       op_bind (at_frame fid (insert_leaf_cell k v)) (\<lambda>ok.
       op_bind (op_assert (\<lambda>_. ok)) (\<lambda>_.
       op_return k)))))
     else
       op_bind (page_read lid (key_at last)) (\<lambda>stolen_key.
       op_bind (page_read lid (child_at last)) (\<lambda>stolen_child.
       op_bind (at_frame lid (remove_cell last)) (\<lambda>_.
       op_bind (page_get fid first_child) (\<lambda>old_fc.
       op_bind (page_set fid (set_first_child stolen_child)) (\<lambda>_.
       let payload = internal_cell_size (length stolen_key) in
       op_bind (page_read fid (is_full payload)) (\<lambda>full.
       op_bind (if full then at_frame fid compact else op_return ()) (\<lambda>_.
       op_bind (page_read fid (is_full payload)) (\<lambda>full'.
       op_bind (op_assert (\<lambda>_. \<not> full')) (\<lambda>_.
       op_bind (page_set fid (place_cell 0 payload (internal_cell stolen_key old_fc))) (\<lambda>_.
       op_bind (page_get fid page_id) (\<lambda>pid.
       op_bind (reparent pid stolen_child) (\<lambda>_.
       op_return stolen_key))))))))))))))"

definition steal_from_right :: "nat \<Rightarrow> nat \<Rightarrow> ('a btree_scheme, bytes) op" where
  "steal_from_right fid rid = op_bind (page_get fid is_leaf) (\<lambda>leaf.
     if leaf then
       op_bind (page_read rid (key_at 0)) (\<lambda>k.
       op_bind (page_read rid (value_at 0)) (\<lambda>v.
       op_bind (at_frame rid (remove_cell 0)) (\<lambda>_.
       op_bind (at_frame fid (insert_leaf_cell k v)) (\<lambda>ok.
       op_bind (op_assert (\<lambda>_. ok)) (\<lambda>_.
       page_read rid (key_at 0))))))
     else
       op_bind (page_read rid (key_at 0)) (\<lambda>stolen_key.
       op_bind (page_get rid first_child) (\<lambda>stolen_child.
       op_bind (page_read rid (child_at 0)) (\<lambda>c.
       op_bind (page_set rid (set_first_child c)) (\<lambda>_.
       op_bind (at_frame rid (remove_cell 0)) (\<lambda>_.
       op_bind (at_frame fid (insert_separator stolen_key stolen_child)) (\<lambda>ok.
       op_bind (op_assert (\<lambda>_. ok)) (\<lambda>_.
       op_bind (page_get fid page_id) (\<lambda>pid.
       op_bind (reparent pid stolen_child) (\<lambda>_.
       op_return stolen_key))))))))))"

subsection \<open>Removing\<close>

function find_child_loop :: "page_id \<Rightarrow> page \<Rightarrow> nat \<Rightarrow> exc + nat option" where
  "find_child_loop pid p i =
     (if i < num_keys p then res_bind (child_at i p) (\<lambda>c. if c = pid then Inr (Some i) else find_child_loop pid p (i + 1))
      else Inr None)"
  by pat_completeness auto
termination
  by (relation "measure (\<lambda>(pid, p, i). num_keys p - i)") auto

declare find_child_loop.simps [simp del]

text \<open>The position of a page in its parent: separator slot, left and right sibling.\<close>

definition locate_child :: "page_id \<Rightarrow> page \<Rightarrow> exc + nat \<times> page_id \<times> page_id" where
  "locate_child pid p =
     (if first_child p = pid then res_bind (child_at 0 p) (\<lambda>c. Inr (0, INVALID_PAGE_ID, c))
      else res_bind (find_child_loop pid p 0) (\<lambda>r. case r of
          None \<Rightarrow> Inl Assertion_failure
        | Some i \<Rightarrow>
            res_bind (if i + 1 < num_keys p then child_at (i + 1) p else Inr INVALID_PAGE_ID) (\<lambda>right_sib.
            res_bind (if i = 0 then Inr (first_child p) else child_at (i - 1) p) (\<lambda>left_sib.
            Inr (i, left_sib, right_sib)))))"

definition replace_separator :: "nat \<Rightarrow> nat \<Rightarrow> bytes \<Rightarrow> ('a btree_scheme, unit) op" where
  "replace_separator fid slot new_sep =
     op_bind (page_read fid (key_at slot)) (\<lambda>k.
     if length k = length new_sep then at_frame fid (update_separator_key slot new_sep)
     else
       op_bind (page_read fid (child_at slot)) (\<lambda>c.
       op_bind (at_frame fid (remove_cell slot)) (\<lambda>_.
       op_bind (at_frame fid (insert_separator new_sep c)) (\<lambda>ok.
       op_assert (\<lambda>_. ok)))))"

text \<open>The two ways to borrow; they return whether they did.\<close>

definition try_steal_left :: "nat \<Rightarrow> page_id \<Rightarrow> page_id \<Rightarrow> nat \<Rightarrow> page_id \<Rightarrow> ('a btree_scheme, bool) op" where
  "try_steal_left pfid par pid sep_slot left_sib =
     (if left_sib = INVALID_PAGE_ID then op_return False
      else
        op_bind (fetch_checked left_sib) (\<lambda>lid.
        op_bind (mk_node lid) (\<lambda>_.
        op_bind (page_read lid underflow) (\<lambda>under.
        if \<not> under then
          op_bind (fetch_checked pid) (\<lambda>cid.
          op_bind (mk_node cid) (\<lambda>_.
          op_bind (page_read pfid (key_at (if sep_slot > 0 then sep_slot - 1 else 0))) (\<lambda>_.
          op_bind (page_get pfid first_child) (\<lambda>fc.
          op_bind (page_read pfid (key_at (if fc = pid then 0 else sep_slot))) (\<lambda>_.
          op_bind (steal_from_left cid lid) (\<lambda>new_sep.
          op_bind (replace_separator pfid (if fc = pid then 0 else sep_slot) new_sep) (\<lambda>_.
          op_bind (unpin_page pid True) (\<lambda>_.
          op_bind (unpin_page left_sib True) (\<lambda>_.
          op_bind (unpin_page par True) (\<lambda>_.
          op_return True))))))))))
        else
          op_bind (unpin_page left_sib False) (\<lambda>_. op_return False)))))"

definition try_steal_right :: "nat \<Rightarrow> page_id \<Rightarrow> page_id \<Rightarrow> nat \<Rightarrow> page_id \<Rightarrow> ('a btree_scheme, bool) op" where
  "try_steal_right pfid par pid sep_slot right_sib =
     (if right_sib = INVALID_PAGE_ID then op_return False
      else
        op_bind (fetch_checked right_sib) (\<lambda>rid.
        op_bind (mk_node rid) (\<lambda>_.
        op_bind (page_read rid underflow) (\<lambda>under.
        if \<not> under then
          op_bind (fetch_checked pid) (\<lambda>cid.
          op_bind (mk_node cid) (\<lambda>_.
          op_bind (page_read pfid (key_at sep_slot)) (\<lambda>_.
          op_bind (steal_from_right cid rid) (\<lambda>new_sep.
          op_bind (replace_separator pfid sep_slot new_sep) (\<lambda>_.
          op_bind (unpin_page pid True) (\<lambda>_.
          op_bind (unpin_page right_sib True) (\<lambda>_.
          op_bind (unpin_page par True) (\<lambda>_.
          op_return True))))))))
        else
          op_bind (unpin_page right_sib False) (\<lambda>_. op_return False)))))"

text \<open>Absorb page \<open>rpid\<close> into page \<open>lpid\<close>, remove its separator and free it; the result says
  whether the parent underflows. Both merge branches of \<open>fix_underflow\<close> do this.\<close>

definition fetch_both :: "page_id \<Rightarrow> page_id \<Rightarrow> ('a btree_scheme, nat \<times> nat) op" where
  "fetch_both a b = op_bind (fetch_page a) (\<lambda>f. op_bind (fetch_page b) (\<lambda>g. case (f, g) of
     (Some fid, Some gid) \<Rightarrow> op_return (fid, gid) | _ \<Rightarrow> op_throw Assertion_failure))"

definition merge_pages :: "nat \<Rightarrow> page_id \<Rightarrow> page_id \<Rightarrow> page_id \<Rightarrow> (page \<Rightarrow> exc + nat) \<Rightarrow> ('a btree_scheme, bool) op" where
  "merge_pages pfid par lpid rpid find_slot =
     op_bind (fetch_both lpid rpid) (\<lambda>(lid, rid).
     op_bind (mk_node lid) (\<lambda>_.
     op_bind (mk_node rid) (\<lambda>_.
     op_bind (page_read pfid find_slot) (\<lambda>slot.
     op_bind (page_read pfid (key_at slot)) (\<lambda>separator_key.
     op_bind (merge_from lid rid separator_key) (\<lambda>_.
     op_bind (page_get lid (\<lambda>p. (is_leaf p, right_sibling p))) (\<lambda>(leaf, rs).
     op_bind (if leaf \<and> rs \<noteq> INVALID_PAGE_ID then update_node rs (set_left_sibling lpid) else op_return ()) (\<lambda>_.
     op_bind (at_frame pfid (remove_cell slot)) (\<lambda>_.
     op_bind (unpin_page lpid True) (\<lambda>_.
     op_bind (unpin_page rpid True) (\<lambda>_.
     op_bind (delete_page rpid) (\<lambda>_.
     op_bind (page_read pfid underflow) (\<lambda>under.
     op_bind (op_gets tree_root) (\<lambda>root.
     op_bind (unpin_page par True) (\<lambda>_.
     op_return (under \<and> par \<noteq> root))))))))))))))))"

text \<open>The root has no separator left: its only child becomes the root.\<close>

definition collapse_root :: "page_id \<Rightarrow> page_id \<Rightarrow> ('a btree_scheme, unit) op" where
  "collapse_root old_root new_root =
     op_bind (update_node new_root (set_parent_id INVALID_PAGE_ID)) (\<lambda>_.
     op_bind (delete_page old_root) (\<lambda>_.
     op_bind (op_modify (\<lambda>s. s\<lparr>tree_root := new_root\<rparr>)) (\<lambda>_.
     persist_root)))"

definition fix_root :: "page_id \<Rightarrow> ('a btree_scheme, unit) op" where
  "fix_root pid =
     op_bind (fetch_checked pid) (\<lambda>fid.
     op_bind (page_get fid (\<lambda>p. (page_type p, num_keys p, first_child p))) (\<lambda>(ty, n, new_root).
     op_bind (unpin_page pid False) (\<lambda>_.
     if ty = page_type_code BTREE_INTERNAL \<and> n = 0 \<and> new_root \<noteq> INVALID_PAGE_ID
     then collapse_root pid new_root else op_return ())))"

definition left_merge_slot :: "page_id \<Rightarrow> page_id \<Rightarrow> page \<Rightarrow> exc + nat" where
  "left_merge_slot pid left_sib p =
     (if first_child p = left_sib then Inr 0
      else res_bind (find_child_loop pid p 0) (\<lambda>r. case r of None \<Rightarrow> Inr 0 | Some i \<Rightarrow> Inr i))"

fun fix_underflow :: "page_id \<Rightarrow> page_id list \<Rightarrow> ('a btree_scheme, unit) op" where
  "fix_underflow pid [] = fix_root pid"
| "fix_underflow pid (par # breadcrumbs) =
     op_bind (fetch_checked par) (\<lambda>pfid.
     op_bind (mk_node pfid) (\<lambda>_.
     op_bind (page_read pfid (locate_child pid)) (\<lambda>(sep_slot, left_sib, right_sib).
     op_bind (try_steal_left pfid par pid sep_slot left_sib) (\<lambda>done_left.
     if done_left then op_return ()
     else op_bind (try_steal_right pfid par pid sep_slot right_sib) (\<lambda>done_right.
     if done_right then op_return ()
     else if right_sib \<noteq> INVALID_PAGE_ID then
       op_bind (merge_pages pfid par pid right_sib (\<lambda>_. Inr sep_slot)) (\<lambda>par_underflows.
       if par_underflows then fix_underflow par breadcrumbs
       else op_bind (page_get pfid num_keys) (\<lambda>n. op_bind (op_gets tree_root) (\<lambda>root.
         if n = 0 \<and> par = root then collapse_root par pid else op_return ())))
     else if left_sib \<noteq> INVALID_PAGE_ID then
       op_bind (merge_pages pfid par left_sib pid (left_merge_slot pid left_sib)) (\<lambda>par_underflows.
       if par_underflows then fix_underflow par breadcrumbs
       else op_bind (page_get pfid num_keys) (\<lambda>n. op_bind (op_gets tree_root) (\<lambda>root.
         if n = 0 \<and> par = root then collapse_root par left_sib else op_return ())))
     else unpin_page par False)))))"

definition btree_remove :: "bytes \<Rightarrow> ('a btree_scheme, bool) op" where
  "btree_remove key = op_bind (find_leaf key) (\<lambda>(fid, breadcrumbs).
     op_bind (page_get fid page_id) (\<lambda>leaf_id.
     op_bind (mk_node fid) (\<lambda>_.
     op_bind (page_read fid (leaf_slot key)) (\<lambda>r. case r of
       None \<Rightarrow> op_bind (unpin_page leaf_id False) (\<lambda>_. op_return False)
     | Some slot \<Rightarrow>
         op_bind (at_frame fid (remove_cell slot)) (\<lambda>_.
         op_bind (page_read fid underflow) (\<lambda>under.
         op_bind (op_gets tree_root) (\<lambda>root.
         op_bind (unpin_page leaf_id True) (\<lambda>_.
         op_bind (if under \<and> leaf_id \<noteq> root then fix_underflow leaf_id breadcrumbs else op_return ()) (\<lambda>_.
         op_return True)))))))))"

end
