(* ===== verification/Page_Cache.thy ===== *)
theory Page_Cache
  imports Btree
begin

section \<open>What the tree relies on: pages in a cache\<close>

text \<open>
  The B+Tree sees the pool through an abstract state: the content of every allocated page, the
  frames of the pages it has pinned (each once), the pages it has changed since it pinned them,
  its root in memory and on disk, and the resources left, frames and pages the file may still grow by. The locale
  \<open>page_cache\<close> states what the operations of the pool do to that state; \<open>runs\<close> is
  total correctness of an operation over it. The pool's own definitions are an interpretation.
\<close>

record 'r cache =
  content :: "page_id \<Rightarrow> page"
  pinned :: "page_id \<rightharpoonup> nat"
  changed :: "page_id set"
  allocated_ids :: "page_id set"
  capacity :: nat
  growth :: nat
  root_id :: page_id
  saved_root :: page_id
  others :: 'r

text \<open>Updates of different components are kept in one order.\<close>

lemma cache_order [simp]:
  fixes c :: "'r cache"
  shows
  "c\<lparr>pinned := ps, content := v\<rparr> = c\<lparr>content := v, pinned := ps\<rparr>"
  "c\<lparr>changed := ch, content := v\<rparr> = c\<lparr>content := v, changed := ch\<rparr>"
  "c\<lparr>allocated_ids := al, content := v\<rparr> = c\<lparr>content := v, allocated_ids := al\<rparr>"
  "c\<lparr>growth := g, content := v\<rparr> = c\<lparr>content := v, growth := g\<rparr>"
  "c\<lparr>root_id := r, content := v\<rparr> = c\<lparr>content := v, root_id := r\<rparr>"
  "c\<lparr>changed := ch, pinned := ps\<rparr> = c\<lparr>pinned := ps, changed := ch\<rparr>"
  "c\<lparr>allocated_ids := al, pinned := ps\<rparr> = c\<lparr>pinned := ps, allocated_ids := al\<rparr>"
  "c\<lparr>growth := g, pinned := ps\<rparr> = c\<lparr>pinned := ps, growth := g\<rparr>"
  "c\<lparr>root_id := r, pinned := ps\<rparr> = c\<lparr>pinned := ps, root_id := r\<rparr>"
  "c\<lparr>allocated_ids := al, changed := ch\<rparr> = c\<lparr>changed := ch, allocated_ids := al\<rparr>"
  "c\<lparr>growth := g, changed := ch\<rparr> = c\<lparr>changed := ch, growth := g\<rparr>"
  "c\<lparr>root_id := r, changed := ch\<rparr> = c\<lparr>changed := ch, root_id := r\<rparr>"
  "c\<lparr>growth := g, allocated_ids := al\<rparr> = c\<lparr>allocated_ids := al, growth := g\<rparr>"
  "c\<lparr>root_id := r, allocated_ids := al\<rparr> = c\<lparr>allocated_ids := al, root_id := r\<rparr>"
  "c\<lparr>root_id := r, growth := g\<rparr> = c\<lparr>growth := g, root_id := r\<rparr>"
  "c\<lparr>saved_root := q, root_id := r\<rparr> = c\<lparr>root_id := r, saved_root := q\<rparr>"
  by simp_all

definition runs :: "('c \<Rightarrow> 's \<Rightarrow> bool) \<Rightarrow> ('s, 'x) op \<Rightarrow> 'c \<Rightarrow> ('x \<Rightarrow> 'c \<Rightarrow> bool) \<Rightarrow> bool" where
  "runs st m c Q \<longleftrightarrow> (\<forall>s. st c s \<longrightarrow> (\<exists>x t c'. m s = (Inr x, t) \<and> st c' t \<and> Q x c'))"

lemma runsD: "runs st m c Q \<Longrightarrow> st c s \<Longrightarrow> \<exists>x t c'. m s = (Inr x, t) \<and> st c' t \<and> Q x c'"
  by (simp add: runs_def)

lemma runs_bind:
  assumes "runs st m c Q" "\<And>x c'. Q x c' \<Longrightarrow> runs st (k x) c' R"
  shows "runs st (op_bind m k) c R"
  unfolding runs_def
proof (intro allI impI)
  fix s assume "st c s"
  then obtain x t c' where m: "m s = (Inr x, t)" "st c' t" "Q x c'" using runsD [OF assms(1)] by blast
  obtain y u c'' where "k x t = (Inr y, u)" "st c'' u" "R y c''"
    using runsD [OF assms(2) [OF m(3)] m(2)] by blast
  with m(1) show "\<exists>y u c''. op_bind m k s = (Inr y, u) \<and> st c'' u \<and> R y c''"
    by (auto simp: op_bind_def)
qed

lemma runs_return: "Q x c \<Longrightarrow> runs st (op_return x) c Q"
  by (auto simp: runs_def op_return_def)

lemma runs_last: "runs st (op_bind m op_return) c Q \<Longrightarrow> runs st m c Q"
  by (auto simp: runs_def op_bind_eq_Inr op_return_def)

lemma runs_assoc: "runs st (op_bind m (\<lambda>x. op_bind (f x) g)) c Q \<Longrightarrow> runs st (op_bind (op_bind m f) g) c Q"
  by (simp add: op_bind_assoc)

lemma runs_weaken: "runs st m c Q \<Longrightarrow> (\<And>x c'. Q x c' \<Longrightarrow> R x c') \<Longrightarrow> runs st m c R"
  unfolding runs_def by blast

lemma runs_assert: "P \<Longrightarrow> runs st (k ()) c Q \<Longrightarrow> runs st (op_bind (op_assert (\<lambda>_. P)) k) c Q"
  by (simp add: runs_def op_bind_def op_assert_def)

lemma runs_skip: "runs st (k x) c Q \<Longrightarrow> runs st (op_bind (op_return x) k) c Q"
  by (simp add: runs_def op_bind_def op_return_def)

lemma runs_foreach:
  assumes "I [] c" "\<And>xs x ys c. us = xs @ x # ys \<Longrightarrow> I xs c \<Longrightarrow> runs st (f x) c (\<lambda>_. I (xs @ [x]))"
  shows "runs st (op_foreach f us) c (\<lambda>_. I us)"
proof -
  have "us = pre @ post \<Longrightarrow> I pre c \<Longrightarrow> runs st (op_foreach f post) c (\<lambda>_. I us)" for pre post c
  proof (induction post arbitrary: pre c)
    case Nil
    then show ?case by (auto intro: runs_return)
  next
    case (Cons x post)
    have "runs st (f x) c (\<lambda>_. I (pre @ [x]))" by (rule assms(2) [OF Cons.prems])
    then show ?case using Cons.prems Cons.IH [of "pre @ [x]"] by (auto intro: runs_bind)
  qed
  from this [of "[]" us c] assms(1) show ?thesis by simp
qed

abbreviation fresh_page :: "page_id \<Rightarrow> page" where
  "fresh_page pid \<equiv> set_page_id (\<lambda>_. 0) pid"

text \<open>A page of this cache is available: allocated, not pinned, and a frame can be had.\<close>

definition can_fetch :: "'r cache \<Rightarrow> page_id \<Rightarrow> bool" where
  "can_fetch c pid \<longleftrightarrow> pid \<in> allocated_ids c \<and> pinned c pid = None \<and> card (dom (pinned c)) < capacity c"

text \<open>What a client may assume about ids: pinned pages are allocated, and a page stores its own id.\<close>

definition ids_ok :: "'r cache \<Rightarrow> bool" where
  "ids_ok c \<longleftrightarrow> finite (allocated_ids c) \<and> dom (pinned c) \<subseteq> allocated_ids c \<and>
     (\<forall>pid \<in> allocated_ids c. page_id (content c pid) = pid \<and> pid \<noteq> INVALID_PAGE_ID)"

locale page_cache =
  fixes st :: "'r cache \<Rightarrow> 's \<Rightarrow> bool"
    and fetch :: "page_id \<Rightarrow> ('s, nat) op"
    and unpin :: "page_id \<Rightarrow> bool \<Rightarrow> ('s, unit) op"
    and fresh :: "('s, page_id \<times> nat) op"
    and frame_at :: "'s \<Rightarrow> nat \<Rightarrow> page"
    and put_frame :: "nat \<Rightarrow> page \<Rightarrow> 's \<Rightarrow> 's"
  assumes fetch_ok: "can_fetch c pid \<Longrightarrow>
      runs st (fetch pid) c (\<lambda>fid c'. c' = c\<lparr>pinned := (pinned c)(pid \<mapsto> fid)\<rparr>)"
    and frame_content: "st c s \<Longrightarrow> pinned c pid = Some fid \<Longrightarrow> frame_at s fid = content c pid"
    and put_ok: "st c s \<Longrightarrow> pinned c pid = Some fid \<Longrightarrow> page_ok p \<Longrightarrow> page_id p = pid \<Longrightarrow>
      st (c\<lparr>content := (content c)(pid := p), changed := insert pid (changed c)\<rparr>) (put_frame fid p s)"
    and unpin_ok: "pinned c pid \<noteq> None \<Longrightarrow> d \<or> pid \<notin> changed c \<Longrightarrow>
      runs st (unpin pid d) c (\<lambda>_ c'. c' = c\<lparr>pinned := (pinned c)(pid := None), changed := changed c - {pid}\<rparr>)"
    and fresh_ok: "card (dom (pinned c)) < capacity c \<Longrightarrow> 0 < growth c \<Longrightarrow>
      runs st fresh c (\<lambda>(pid, fid) c'. pid \<notin> allocated_ids c \<and> pid \<noteq> INVALID_PAGE_ID \<and> c' = c\<lparr>content := (content c)(pid := fresh_page pid),
        pinned := (pinned c)(pid \<mapsto> fid), allocated_ids := insert pid (allocated_ids c), growth := growth c - 1\<rparr>)"
    and allocated_ok: "st c s \<Longrightarrow> ids_ok c"
    and changed_more: "st c s \<Longrightarrow> pinned c pid \<noteq> None \<Longrightarrow> st (c\<lparr>changed := insert pid (changed c)\<rparr>) s"
begin

text \<open>Symbolic execution: each rule runs the first operation of a sequence.\<close>

lemma fetch_step:
  "can_fetch c pid \<Longrightarrow> (\<And>fid. runs st (k fid) (c\<lparr>pinned := (pinned c)(pid \<mapsto> fid)\<rparr>) Q) \<Longrightarrow>
   runs st (op_bind (fetch pid) k) c Q"
  by (rule runs_bind [OF fetch_ok]) auto

lemma unpin_step:
  "pinned c pid \<noteq> None \<Longrightarrow> d \<or> pid \<notin> changed c \<Longrightarrow>
   runs st (k ()) (c\<lparr>pinned := (pinned c)(pid := None), changed := changed c - {pid}\<rparr>) Q \<Longrightarrow>
   runs st (op_bind (unpin pid d) k) c Q"
  by (rule runs_bind [OF unpin_ok]) auto

lemma fresh_step:
  assumes "card (dom (pinned c)) < capacity c" "0 < growth c"
    and "\<And>pid fid. pid \<notin> allocated_ids c \<Longrightarrow> pid \<noteq> INVALID_PAGE_ID \<Longrightarrow>
      runs st (k (pid, fid)) (c\<lparr>content := (content c)(pid := fresh_page pid), pinned := (pinned c)(pid \<mapsto> fid),
        allocated_ids := insert pid (allocated_ids c), growth := growth c - 1\<rparr>) Q"
  shows "runs st (op_bind fresh k) c Q"
  using assms by (auto intro!: runs_bind [OF fresh_ok])

lemma get_step:
  "pinned c pid = Some fid \<Longrightarrow> runs st (k (f (content c pid))) c Q \<Longrightarrow>
   runs st (op_bind (op_gets (\<lambda>s. f (frame_at s fid))) k) c Q"
  by (simp add: runs_def op_bind_def op_gets_def frame_content)

lemma read_step:
  "pinned c pid = Some fid \<Longrightarrow> f (content c pid) = Inr x \<Longrightarrow> runs st (k x) c Q \<Longrightarrow>
   runs st (op_bind (op_read (\<lambda>s. f (frame_at s fid))) k) c Q"
  by (simp add: runs_def op_bind_def op_read_def frame_content)

lemma check_step:
  "pinned c pid = Some fid \<Longrightarrow> P (content c pid) \<Longrightarrow> runs st (k ()) c Q \<Longrightarrow>
   runs st (op_bind (op_assert (\<lambda>s. P (frame_at s fid))) k) c Q"
  by (simp add: runs_def op_bind_def op_assert_def frame_content)

lemma set_step:
  assumes "pinned c pid = Some fid" "page_ok (f (content c pid))" "page_id (f (content c pid)) = pid"
    and "runs st (k ()) (c\<lparr>content := (content c)(pid := f (content c pid)), changed := insert pid (changed c)\<rparr>) Q"
  shows "runs st (op_bind (op_modify (\<lambda>s. put_frame fid (f (frame_at s fid)) s)) k) c Q"
  using assms(4) put_ok [OF _ assms(1-3)]
  by (simp add: runs_def op_bind_def op_modify_def frame_content [OF _ assms(1)])

lemma page_step:
  assumes "pinned c pid = Some fid" "m (content c pid) = (Inr x, p)" "page_ok p" "page_id p = pid"
    and "runs st (k x) (c\<lparr>content := (content c)(pid := p), changed := insert pid (changed c)\<rparr>) Q"
  shows "runs st (op_bind (\<lambda>s. case m (frame_at s fid) of (r, p) \<Rightarrow> (r, put_frame fid p s)) k) c Q"
  using assms(5) put_ok [OF _ assms(1,3,4)]
  by (simp add: runs_def op_bind_def frame_content [OF _ assms(1)] assms(2))

lemma pages_step:
  assumes "pinned c pid = Some f" "pinned c qid = Some g"
    "m (content c pid, content c qid) = (Inr x, p, q)" "page_ok p" "page_id p = pid" "page_ok q" "page_id q = qid"
    and "runs st (k x) (c\<lparr>content := (content c)(pid := p, qid := q), changed := insert qid (insert pid (changed c))\<rparr>) Q"
  shows "runs st (op_bind (\<lambda>s. case m (frame_at s f, frame_at s g) of
      (r, (p, q)) \<Rightarrow> (r, put_frame g q (put_frame f p s))) k) c Q"
proof -
  have "st (c\<lparr>content := (content c)(pid := p, qid := q), changed := insert qid (insert pid (changed c))\<rparr>)
      (put_frame g q (put_frame f p s))" if "st c s" for s
    using put_ok [OF put_ok [OF that assms(1,4,5)], of qid g q] assms(2,6,7) by simp
  then show ?thesis
    using assms(8) by (simp add: runs_def op_bind_def frame_content [OF _ assms(1)] frame_content [OF _ assms(2)] assms(3))
qed

lemma touched: "pinned c pid \<noteq> None \<Longrightarrow> runs st m (c\<lparr>changed := insert pid (changed c)\<rparr>) Q \<Longrightarrow> runs st m c Q"
  using changed_more by (auto simp: runs_def)

text \<open>The ids stored in the pages may be relied upon.\<close>

lemma with_ids:
  assumes "ids_ok c \<Longrightarrow> runs st m c Q"
  shows "runs st m c Q"
  using assms allocated_ok by (auto simp: runs_def)

text \<open>Fetching a page, changing one field of it and releasing it changes nothing else.\<close>

lemma update_step:
  assumes "can_fetch c pid" "pid \<notin> changed c" "P (content c pid)"
    "page_ok (f (content c pid))" "page_id (f (content c pid)) = pid"
    and "runs st (k ()) (c\<lparr>content := (content c)(pid := f (content c pid))\<rparr>) Q"
  shows "runs st (op_bind (op_bind (fetch pid) (\<lambda>fid. op_bind (op_assert (\<lambda>s. P (frame_at s fid))) (\<lambda>_.
      op_bind (op_modify (\<lambda>s. put_frame fid (f (frame_at s fid)) s)) (\<lambda>_. unpin pid True)))) k) c Q"
  unfolding op_bind_assoc
proof (rule fetch_step [OF assms(1)])
  fix fid
  let ?c = "c\<lparr>pinned := (pinned c)(pid \<mapsto> fid)\<rparr>"
  have p: "pinned ?c pid = Some fid" by simp
  have same: "(pinned c)(pid := None) = pinned c" "changed c - {pid} = changed c"
    using assms(1,2) by (simp_all add: can_fetch_def fun_upd_idem)
  show "runs st (op_bind (op_assert (\<lambda>s. P (frame_at s fid))) (\<lambda>_.
      op_bind (op_modify (\<lambda>s. put_frame fid (f (frame_at s fid)) s)) (\<lambda>_. op_bind (unpin pid True) k))) ?c Q"
    by (rule check_step [OF p _ set_step [OF p _ _ unpin_step]]) (use assms(3-6) same in simp_all)
qed

end

subsection \<open>States that agree on the pool\<close>

text \<open>The state of the pool may be part of a larger record; what is said about it depends on the
  fields of the pool only.\<close>

definition same_pool :: "'a buffer_pool_scheme \<Rightarrow> 'b buffer_pool_scheme \<Rightarrow> bool" where
  "same_pool s t \<longleftrightarrow> db_file s = db_file t \<and> file_size s = file_size t \<and> num_pages s = num_pages t \<and>
     io_faults s = io_faults t \<and> free_pages s = free_pages t \<and> frames s = frames t \<and> page_table s = page_table t \<and>
     free_frames s = free_frames t \<and> lru_list s = lru_list t"

lemma same_pool_header: "same_pool s t \<Longrightarrow> header_ok r s \<longleftrightarrow> header_ok r t"
proof -
  assume S: "same_pool s t"
  then have "disk_page s 0 = disk_page t 0" by (simp add: same_pool_def disk_page_def fun_eq_iff)
  then show ?thesis using S by (simp add: same_pool_def header_ok_def fl_persisted_def)
qed

lemma same_poolD:
  assumes "same_pool s t"
  shows "num_pages s = num_pages t" "live s = live t" "view s = view t" "pins s = pins t" "settled s = settled t"
    "usable s = usable t" "frame_of s = frame_of t" "pool_inv s \<longleftrightarrow> pool_inv t"
proof -
  note S = assms [unfolded same_pool_def]
  have disk: "disk_page s = disk_page t" "valid_pid s = valid_pid t" "disk_ok s = disk_ok t"
    using S by (simp_all add: fun_eq_iff disk_page_def valid_pid_def disk_ok_def)
  show *: "num_pages s = num_pages t" "live s = live t" "view s = view t" "pins s = pins t" "settled s = settled t"
    "usable s = usable t" "frame_of s = frame_of t"
    using S by (simp_all add: fun_eq_iff disk live_def view_def pins_def settled_def usable_def cong: option.case_cong)
  show "pool_inv s \<longleftrightarrow> pool_inv t"
    using S * by (simp add: pool_but_def table_ok_def content_ok_def free_ok_def fl_ready_def disk)
qed

subsection \<open>The pool is such a cache\<close>

definition cached :: "'r cache \<Rightarrow> 'r btree_scheme \<Rightarrow> bool" where
  "cached c s \<longleftrightarrow> pool_inv s \<and> {pid. live s pid} = allocated_ids c \<and>
     (\<forall>pid \<in> allocated_ids c. view s pid = content c pid) \<and>
     pins s = (\<lambda>pid. case pinned c pid of None \<Rightarrow> 0 | Some _ \<Rightarrow> 1) \<and>
     (\<forall>pid fid. pinned c pid = Some fid \<longrightarrow> frame_of s pid = Some fid) \<and>
     changed c \<subseteq> dom (pinned c) \<and> (\<forall>pid \<in> dom (pinned c) - changed c. settled s pid) \<and>
     card (usable s) = capacity c \<and> unat (num_pages s) + growth c \<le> 2147483647 \<and>
     tree_root s = root_id c \<and> btree.more s = others c \<and> header_ok (saved_root c) s"

lemma cachedD:
  assumes "cached c s"
  shows "pool_inv s" "live s pid \<longleftrightarrow> pid \<in> allocated_ids c" "pid \<in> allocated_ids c \<Longrightarrow> view s pid = content c pid"
    "pins s pid = (case pinned c pid of None \<Rightarrow> 0 | Some _ \<Rightarrow> 1)"
    "pinned c pid = Some fid \<Longrightarrow> frame_of s pid = Some fid" "changed c \<subseteq> dom (pinned c)"
    "pinned c pid = Some fid \<Longrightarrow> pid \<notin> changed c \<Longrightarrow> settled s pid" "card (usable s) = capacity c"
    "unat (num_pages s) + growth c \<le> 2147483647" "tree_root s = root_id c" "btree.more s = others c"
    "header_ok (saved_root c) s"
  using assms by (auto simp: cached_def)

lemma cachedI:
  assumes "pool_inv s" "\<And>pid. live s pid \<longleftrightarrow> pid \<in> allocated_ids c"
    "\<And>pid. pid \<in> allocated_ids c \<Longrightarrow> view s pid = content c pid"
    "\<And>pid. pins s pid = (case pinned c pid of None \<Rightarrow> 0 | Some _ \<Rightarrow> 1)"
    "\<And>pid fid. pinned c pid = Some fid \<Longrightarrow> frame_of s pid = Some fid" "changed c \<subseteq> dom (pinned c)"
    "\<And>pid fid. pinned c pid = Some fid \<Longrightarrow> pid \<notin> changed c \<Longrightarrow> settled s pid" "card (usable s) = capacity c"
    "unat (num_pages s) + growth c \<le> 2147483647" "tree_root s = root_id c" "btree.more s = others c"
    "header_ok (saved_root c) s"
  shows "cached c s"
  unfolding cached_def using assms by (auto simp: fun_eq_iff)

lemma pinned_allocated: "cached c s \<Longrightarrow> pinned c pid = Some fid \<Longrightarrow> pid \<in> allocated_ids c"
  using cachedD(1,2,5) [of c s] content_okD(2) pool_invD(2) by blast

lemma more_root:
  "buffer_pool.more t = buffer_pool.more s \<Longrightarrow> tree_root t = tree_root s \<and> btree.more t = btree.more s"
  by (cases s rule: btree.cases_scheme, cases t rule: btree.cases_scheme) (simp add: buffer_pool.defs)

text \<open>As long as fewer pages are pinned than there are frames, a frame can be had.\<close>

lemma frame_available:
  assumes "cached c s" "card (dom (pinned c)) < capacity c"
  shows "\<not> exhausted s"
proof
  assume e: "exhausted s"
  note D = pool_invD [OF cachedD(1) [OF assms(1)]]
  have "usable s \<subseteq> (\<lambda>pid. the (pinned c pid)) ` dom (pinned c)"
  proof
    fix fid assume "fid \<in> usable s"
    then have l: "fid \<in> set (lru_list s)" using e table_okD(5) [OF D(1)] by (simp add: usable_def exhausted_def)
    then obtain pid where pid: "frame_of s pid = Some fid" using in_lruD [OF D(1)] by blast
    have "pins s pid > 0" using e l pid by (simp add: exhausted_def pins_def)
    then have "pinned c pid \<noteq> None" using cachedD(4) [OF assms(1), of pid] by (auto split: option.splits)
    moreover from this have "the (pinned c pid) = fid" using cachedD(5) [OF assms(1), of pid] pid by auto
    ultimately show "fid \<in> (\<lambda>pid. the (pinned c pid)) ` dom (pinned c)" by blast
  qed
  moreover have "finite (dom (pinned c))"
  proof (rule finite_subset)
    show "dom (pinned c) \<subseteq> dom (frame_of s)" using cachedD(5) [OF assms(1)] by blast
  qed (simp add: finite_dom_map_of)
  ultimately have "card (usable s) \<le> card (dom (pinned c))" by (meson card_mono card_image_le finite_imageI le_trans)
  with assms(2) cachedD(8) [OF assms(1)] show False by simp
qed

lemma fetch_cached:
  assumes "can_fetch c pid"
  shows "runs cached (fetch_checked pid) c (\<lambda>fid c'. c' = c\<lparr>pinned := (pinned c)(pid \<mapsto> fid)\<rparr>)"
  unfolding runs_def
proof (intro allI impI)
  fix s assume s: "cached c s"
  note C = cachedD [OF s] and A = assms [unfolded can_fetch_def]
  obtain fid t where t: "fetch_page pid s = (Inr (Some fid), t)" "fetched pid fid s t"
    using fetch_page_run [OF C(1), of pid] C(2) A frame_available [OF s] by blast
  note F = t(2) [unfolded fetched_def]
  have p0: "pins s pid = 0" using C(4) [of pid] A by simp
  have live: "live t q \<longleftrightarrow> live s q" for q using F by (simp add: live_def valid_pid_def)
  have pos: "pins s q > 0" if "pinned c q = Some f" for q f using that C(4) [of q] by simp
  have "cached (c\<lparr>pinned := (pinned c)(pid \<mapsto> fid)\<rparr>) t"
  proof (rule cachedI)
    show "settled t q" if "pinned (c\<lparr>pinned := (pinned c)(pid \<mapsto> fid)\<rparr>) q = Some f"
        "q \<notin> changed (c\<lparr>pinned := (pinned c)(pid \<mapsto> fid)\<rparr>)" for q f
      using that F p0 C(7) [of q f] by (auto split: if_splits)
  qed (use F C(2,3,5,6,8-12) live p0 more_root [of t s] header_ok_cong [of t s] pos in \<open>auto simp: C(4) split: if_splits\<close>)
  with t(1) show "\<exists>x t c'. fetch_checked pid s = (Inr x, t) \<and> cached c' t \<and> c' = c\<lparr>pinned := (pinned c)(pid \<mapsto> x)\<rparr>"
    by (simp add: fetch_checked_def op_simps)
qed

lemma put_cached:
  assumes s: "cached c s" and pid: "pinned c pid = Some fid" "page_ok p" "page_id p = pid"
  shows "cached (c\<lparr>content := (content c)(pid := p), changed := insert pid (changed c)\<rparr>) (write_frame fid p s)"
proof -
  note C = cachedD [OF s]
  note W = write_frame_run [OF C(1) C(5) [OF pid(1)] _ pid(2,3)]
  have pos: "pins s pid > 0" using C(4) [of pid] pid(1) by simp
  have same: "live (write_frame fid p s) = live s" "usable (write_frame fid p s) = usable s"
    "num_pages (write_frame fid p s) = num_pages s" "buffer_pool.more (write_frame fid p s) = buffer_pool.more s"
    "header_ok r (write_frame fid p s) = header_ok r s" for r
    by (simp_all add: write_frame_def header_ok_def fl_persisted_def)
  show ?thesis
  proof (rule cachedI)
    show "settled (write_frame fid p s) q" if
        "pinned (c\<lparr>content := (content c)(pid := p), changed := insert pid (changed c)\<rparr>) q = Some f"
        "q \<notin> changed (c\<lparr>content := (content c)(pid := p), changed := insert pid (changed c)\<rparr>)" for q f
      using that W(5) [OF pos, of q] C(7) [of q f] by auto
  qed (use W(1-4) [OF pos] C(2,3,5,6,8-12) same more_root [OF same(4)] pid(1) in \<open>auto simp: C(4)\<close>)
qed

lemma unpin_cached:
  assumes "pinned c pid \<noteq> None" "d \<or> pid \<notin> changed c"
  shows "runs cached (unpin_page pid d) c
    (\<lambda>_ c'. c' = c\<lparr>pinned := (pinned c)(pid := None), changed := changed c - {pid}\<rparr>)"
  unfolding runs_def
proof (intro allI impI)
  fix s assume s: "cached c s"
  note C = cachedD [OF s]
  obtain fid where pid: "pinned c pid = Some fid" using assms(1) by blast
  then have "d \<or> settled s pid \<or> 1 < pins s pid" using assms(2) C(7) by auto
  from unpin_page_run [OF C(1) C(5) [OF pid] this]
  obtain t where t: "unpin_page pid d s = (Inr (), t)" "pool_inv t" "view t = view s"
    "pins t = (pins s)(pid := pins s pid - 1)" "page_table t = page_table s" "free_pages t = free_pages s"
    "num_pages t = num_pages s" "\<forall>qid. settled s qid \<longrightarrow> settled t qid" "usable t = usable s"
    "disk_page t = disk_page s" "buffer_pool.more t = buffer_pool.more s" by blast
  have live: "live t q \<longleftrightarrow> live s q" for q using t(6,7) by (simp add: live_def valid_pid_def)
  have "cached (c\<lparr>pinned := (pinned c)(pid := None), changed := changed c - {pid}\<rparr>) t"
  proof (rule cachedI)
    show "settled t q" if "pinned (c\<lparr>pinned := (pinned c)(pid := None), changed := changed c - {pid}\<rparr>) q = Some f"
        "q \<notin> changed (c\<lparr>pinned := (pinned c)(pid := None), changed := changed c - {pid}\<rparr>)" for q f
      using that t(8) C(7) [of q f] by (auto split: if_splits)
  qed (use t(2-7,9) C(2,3,5,6,8-12) live more_root [OF t(11)] header_ok_cong [of t s] t(10) pid in \<open>auto simp: C(4) split: if_splits\<close>)
  with t(1) show "\<exists>x t c'. unpin_page pid d s = (Inr x, t) \<and> cached c' t \<and>
      c' = c\<lparr>pinned := (pinned c)(pid := None), changed := changed c - {pid}\<rparr>" by simp
qed

lemma fresh_cached:
  assumes "card (dom (pinned c)) < capacity c" "0 < growth c"
  shows "runs cached new_page c (\<lambda>(pid, fid) c'. pid \<notin> allocated_ids c \<and> pid \<noteq> INVALID_PAGE_ID \<and>
    c' = c\<lparr>content := (content c)(pid := fresh_page pid), pinned := (pinned c)(pid \<mapsto> fid),
      allocated_ids := insert pid (allocated_ids c), growth := growth c - 1\<rparr>)" (is "runs _ _ _ ?Q")
  unfolding runs_def
proof (intro allI impI)
  fix s assume s: "cached c s"
  note C = cachedD [OF s]
  have "unat (num_pages s) < 2147483647" using C(9) assms(2) by simp
  then obtain pid fid t where t: "new_page s = (Inr (pid, fid), t)" "pool_inv t" "\<not> live s pid"
    "\<forall>qid. live t qid \<longleftrightarrow> live s qid \<or> qid = pid" "view t pid = fresh_page pid"
    "\<forall>qid. live s qid \<longrightarrow> view t qid = view s qid" "frame_of t pid = Some fid" "pins t = (pins s)(pid := 1)"
    "\<forall>qid f. pins s qid > 0 \<longrightarrow> frame_of s qid = Some f \<longrightarrow> frame_of t qid = Some f"
    "\<forall>qid. settled s qid \<longrightarrow> settled t qid" "settled t pid" "unat (num_pages t) \<le> unat (num_pages s) + 1"
    "usable t = usable s" "\<forall>r. header_ok r s \<longrightarrow> header_ok r t" "buffer_pool.more t = buffer_pool.more s"
    using new_page_run [OF C(1) frame_available [OF s assms(1)]] by blast
  have pos: "pins s q > 0" if "pinned c q = Some f" for q f using that C(4) [of q] by simp
  have new: "pid \<notin> allocated_ids c" using t(3) C(2) by simp
  then have np: "pinned c q = Some f \<Longrightarrow> q \<noteq> pid" for q f using pinned_allocated [OF s] by blast
  have "live t pid" using t(4) by simp
  then have inv: "pid \<noteq> INVALID_PAGE_ID"
    using valid_not_invalid [OF pool_invD(5) [OF t(2)]] liveD by blast
  let ?c = "c\<lparr>content := (content c)(pid := fresh_page pid), pinned := (pinned c)(pid \<mapsto> fid),
      allocated_ids := insert pid (allocated_ids c), growth := growth c - 1\<rparr>"
  have "cached ?c t"
  proof (rule cachedI)
    show "settled t q" if "pinned ?c q = Some f" "q \<notin> changed ?c" for q f
      using that t(10,11) C(7) [of q f] by (auto split: if_splits)
    show "view t q = content ?c q" if "q \<in> allocated_ids ?c" for q using that t(5,6) C(2,3) by auto
    show "frame_of t q = Some f" if "pinned ?c q = Some f" for q f
      using that t(7,9) C(5) [of q f] pos [of q f] by (auto split: if_splits)
    show "pins t q = (case pinned ?c q of None \<Rightarrow> 0 | Some _ \<Rightarrow> 1)" for q using t(8) by (simp add: C(4))
  qed (use t(2,4,12-14) C(2,6,8-12) more_root [OF t(15)] assms(2) in auto)
  with t(1) new inv show "\<exists>x t c'. new_page s = (Inr x, t) \<and> cached c' t \<and> ?Q x c'"
    by (intro exI [of _ "(pid, fid)"] exI [of _ t] exI [of _ ?c]) simp
qed

text \<open>Page 0 is never allocated to a client, so that the page count exceeds the number of pages.\<close>

lemma allocated_less:
  assumes "cached c s"
  shows "finite (allocated_ids c)" "card (allocated_ids c) < unat (num_pages s)"
proof -
  note C = cachedD [OF assms]
  note R = fl_readyD [OF pool_invD(4) [OF C(1)]]
  have sub: "unat ` allocated_ids c \<subseteq> {1..<unat (num_pages s)}"
  proof
    fix n assume "n \<in> unat ` allocated_ids c"
    then obtain pid where n: "n = unat pid" "live s pid" using C(2) by auto
    then have "pid \<noteq> 0" "unat pid < unat (num_pages s)"
      using valid_pid_iff [OF R(1), of pid] by (simp_all add: live_def)
    with n(1) show "n \<in> {1..<unat (num_pages s)}" by (simp add: unat_gt_0 Suc_le_eq)
  qed
  have inj: "inj_on unat (allocated_ids c)" by (rule inj_onI) (simp add: word_unat_eq_iff)
  show fin: "finite (allocated_ids c)" using finite_imageD [OF finite_subset [OF sub] inj] by simp
  have "card (allocated_ids c) \<le> card {1..<unat (num_pages s)}"
    using card_mono [OF _ sub] card_image [OF inj] by simp
  moreover have "0 < unat (num_pages s)" using R(4) by (auto simp: unat_gt_0)
  ultimately show "card (allocated_ids c) < unat (num_pages s)" by simp
qed

interpretation pc: page_cache cached fetch_checked unpin_page new_page "\<lambda>s fid. fr_page (frames s ! fid)" write_frame
proof
  fix c :: "'r cache" and s :: "'r btree_scheme" and pid fid
  assume s: "cached c s"
  note C = cachedD [OF s]
  show "fr_page (frames s ! fid) = content c pid" if "pinned c pid = Some fid"
    using C(3) [OF pinned_allocated [OF s that]] C(5) [OF that] by (simp add: view_def)
  have "page_id (content c pid) = pid \<and> pid \<noteq> INVALID_PAGE_ID" if "pid \<in> allocated_ids c" for pid
    using C(2,3) that content_okD(4) [OF pool_invD(2) [OF C(1)]] liveD valid_not_invalid [OF pool_invD(5) [OF C(1)]]
    by fastforce
  then show "ids_ok c" using pinned_allocated [OF s] allocated_less(1) [OF s] by (auto simp: ids_ok_def)
  show "cached (c\<lparr>changed := insert pid (changed c)\<rparr>) s" if "pinned c pid \<noteq> None"
    using s that by (auto simp: cached_def)
qed (fact fetch_cached put_cached unpin_cached fresh_cached)+

text \<open>The root of the tree is part of the state; storing it in page 0 touches no page of the tree.\<close>

lemma root_step:
  assumes "runs cached (k ()) (c\<lparr>root_id := r\<rparr>) Q"
  shows "runs cached (op_bind (op_modify (\<lambda>s. s\<lparr>tree_root := r\<rparr>)) k) c Q"
proof -
  have "cached (c\<lparr>root_id := r\<rparr>) (s\<lparr>tree_root := r\<rparr>)" if s: "cached c s" for s
  proof -
    have "same_pool (s\<lparr>tree_root := r\<rparr>) s" by (simp add: same_pool_def)
    from same_poolD [OF this] same_pool_header [OF this] s show ?thesis by (simp add: cached_def)
  qed
  with assms show ?thesis by (simp add: runs_def op_bind_def op_modify_def)
qed

lemma store_page0:
  assumes "pool_inv s" "page_ok p"
  shows "pool_inv (disk_store 0 p s)" "live s pid \<Longrightarrow> view (disk_store 0 p s) pid = view s pid"
    "settled s pid \<Longrightarrow> settled (disk_store 0 p s) pid"
proof -
  note D = pool_invD [OF assms(1)]
  have dk: "disk_page (disk_store 0 p s) q = disk_page s q" if "live s q" for q
    using that assms(2) by (auto simp: live_def)
  have lv: "live s q" if "frame_of s q = Some f" for q f using content_okD(2) [OF D(2) that] .
  show v: "view (disk_store 0 p s) q = view s q" if "live s q" for q
    using dk [OF that] by (simp add: view_def cong: option.case_cong)
  show "settled (disk_store 0 p s) pid" if "settled s pid"
    using that dk lv unfolding settled_def disk_store_pool by metis
  have "content_ok {} (disk_store 0 p s)"
    using D(2) dk lv v unfolding content_ok_def disk_store_pool live_disk_store by metis
  then show "pool_inv (disk_store 0 p s)" using D(1,3) by (simp add: pool_but_def)
qed

lemma persist_root_step:
  assumes "runs cached (k ()) (c\<lparr>saved_root := root_id c\<rparr>) Q"
  shows "runs cached (op_bind persist_root k) c Q"
proof -
  have "\<exists>t. persist_root s = (Inr (), t) \<and> cached (c\<lparr>saved_root := root_id c\<rparr>) t" if s: "cached c s" for s
  proof -
    note C = cachedD [OF s]
    note R = fl_readyD [OF pool_invD(4) [OF C(1)]]
    let ?p = "put32 (disk_page s 0) 4092 (tree_root s)"
    have pok: "page_ok ?p" by (rule page_ok_put32) simp_all
    have "persist_root s = (Inr (), disk_store 0 ?p s)"
      using R by (simp add: persist_root_def set_root_page_id_def op_simps dm.read_run dm.write_run)
    moreover have "header_ok (root_id c) (disk_store 0 ?p s)"
      using C(10,12) R(3) pok by (simp add: header_ok_def fl_persisted_def put_root_decoded)
    then have "cached (c\<lparr>saved_root := root_id c\<rparr>) (disk_store 0 ?p s)"
      by (intro cachedI)
        (use store_page0 [OF C(1) pok] C more_root [of "disk_store 0 ?p s" s] in \<open>auto simp: usable_def\<close>)
    ultimately show ?thesis by blast
  qed
  with assms show ?thesis unfolding runs_def op_bind_def by fastforce
qed

text \<open>Flushing is invisible to the tree, and afterwards the disk holds all its pages.\<close>

lemma flush_cached:
  assumes s: "cached c s"
  shows "\<exists>t. flush_all s = (Inr (), t) \<and> cached c t \<and> num_pages t = num_pages s \<and> free_pages t = free_pages s \<and>
    (pinned c = Map.empty \<longrightarrow> (\<forall>pid \<in> allocated_ids c. disk_page t pid = content c pid))"
proof -
  note C = cachedD [OF s]
  obtain t where t: "flush_all s = (Inr (), t)" "pool_inv t" "keeps s t" "\<forall>pid. settled s pid \<longrightarrow> disk_page t pid = view s pid"
    "usable t = usable s"
    using flush_all_run [OF C(1)] by blast
  note K = t(3) [unfolded keeps_def]
  have live: "live t q \<longleftrightarrow> live s q" for q using K by (simp add: live_def valid_pid_def)
  have pos: "pins s q > 0" if "pinned c q = Some f" for q f using that C(4) [of q] by simp
  have "cached c t"
  proof (rule cachedI)
    show "settled t q" if "pinned c q = Some f" "q \<notin> changed c" for q f using that K C(7) by blast
    show "frame_of t q = Some f" if "pinned c q = Some f" for q f using K C(5) [OF that] pos [OF that] by blast
  qed (use t(2,5) K live C(2-4,6,8-12) more_root [of t s] header_ok_cong [of t s] in auto)
  moreover have "disk_page t pid = content c pid" if "pinned c = Map.empty" "pid \<in> allocated_ids c" for pid
  proof -
    have "pins s pid = 0" using C(4) that(1) by simp
    then have "settled s pid" using content_okD(3) [OF pool_invD(2) [OF C(1)], of pid] by (auto simp: settled_def pins_def)
    then show ?thesis using t(4) C(3) [OF that(2)] by simp
  qed
  ultimately show ?thesis using t(1) K by blast
qed

end
