(* ===== verification/Search_Tree.thy ===== *)
theory Search_Tree
  imports Page_Cache "HOL-Library.Multiset"
begin

section \<open>The search tree that the pages represent\<close>

text \<open>
  \<open>tree_at v par t\<close> says that the pages \<open>v\<close> represent the tree \<open>t\<close>, whose
  root has the parent pointer \<open>par\<close>. The in-order sequence of a tree, \<open>flat\<close>, has the
  entries of the leaves, marked by their value, and the separators between them. All of the order
  invariant is that this sequence increases, where a separator comes before an entry with the same
  key: splitting and merging nodes moves separators between pages but leaves the sequence as it is.
  A path from the root to a node is a list of contexts, the innermost first, like the breadcrumbs.
\<close>

datatype tree = Leaf page_id "(bytes \<times> bytes) list" | Inner page_id tree "(bytes \<times> tree) list"

fun tid :: "tree \<Rightarrow> page_id" where
  "tid (Leaf pid cs) = pid"
| "tid (Inner pid t ts) = pid"

abbreviation ids :: "(bytes \<times> tree) list \<Rightarrow> (bytes \<times> page_id) list" where
  "ids ts \<equiv> map (\<lambda>c. (fst c, tid (snd c))) ts"

type_synonym mark = "bytes \<times> bytes option"

abbreviation marks :: "(bytes \<times> bytes) list \<Rightarrow> mark list" where
  "marks cs \<equiv> map (\<lambda>c. (fst c, Some (snd c))) cs"

fun flat :: "tree \<Rightarrow> mark list" where
  "flat (Leaf pid cs) = marks cs"
| "flat (Inner pid t ts) = flat t @ concat (map (\<lambda>c. (fst c, None) # flat (snd c)) ts)"

abbreviation flats :: "(bytes \<times> tree) list \<Rightarrow> mark list" where
  "flats ts \<equiv> concat (map (\<lambda>c. (fst c, None) # flat (snd c)) ts)"

fun pages :: "tree \<Rightarrow> page_id list" where
  "pages (Leaf pid cs) = [pid]"
| "pages (Inner pid t ts) = pid # pages t @ concat (map (\<lambda>c. pages (snd c)) ts)"

abbreviation all_pages :: "(bytes \<times> tree) list \<Rightarrow> page_id list" where
  "all_pages ts \<equiv> concat (map (\<lambda>c. pages (snd c)) ts)"

fun leaf_ids :: "tree \<Rightarrow> page_id list" where
  "leaf_ids (Leaf pid cs) = [pid]"
| "leaf_ids (Inner pid t ts) = leaf_ids t @ concat (map (\<lambda>c. leaf_ids (snd c)) ts)"

abbreviation all_leaf_ids :: "(bytes \<times> tree) list \<Rightarrow> page_id list" where
  "all_leaf_ids ts \<equiv> concat (map (\<lambda>c. leaf_ids (snd c)) ts)"

fun tree_at :: "(page_id \<Rightarrow> page) \<Rightarrow> page_id \<Rightarrow> tree \<Rightarrow> bool" where
  "tree_at v par (Leaf pid cs) \<longleftrightarrow> leaf_node (v pid) cs \<and> parent_id (v pid) = par"
| "tree_at v par (Inner pid t ts) \<longleftrightarrow> inner_node (v pid) (ids ts) \<and> first_child (v pid) = tid t \<and>
     parent_id (v pid) = par \<and> tree_at v pid t \<and> (\<forall>c \<in> set ts. tree_at v pid (snd c))"

definition mark_less :: "mark \<Rightarrow> mark \<Rightarrow> bool" where
  "mark_less a b \<longleftrightarrow> fst a < fst b \<or> fst a = fst b \<and> snd a = None \<and> snd b \<noteq> None"

abbreviation ordered :: "mark list \<Rightarrow> bool" where
  "ordered \<equiv> sorted_wrt mark_less"

fun entries :: "mark list \<Rightarrow> (bytes \<times> bytes) list" where
  "entries [] = []"
| "entries ((k, None) # es) = entries es"
| "entries ((k, Some v) # es) = (k, v) # entries es"

text \<open>What is stored: the entries of the leaves from left to right.\<close>

definition contents :: "tree \<Rightarrow> (bytes \<times> bytes) list" where
  "contents t = entries (flat t)"

text \<open>The leaves form a doubly linked list.\<close>

fun linked :: "(page_id \<Rightarrow> page) \<Rightarrow> page_id \<Rightarrow> page_id list \<Rightarrow> bool" where
  "linked v l [] \<longleftrightarrow> True"
| "linked v l (pid # pids) \<longleftrightarrow> left_sibling (v pid) = l \<and>
     right_sibling (v pid) = (if pids = [] then INVALID_PAGE_ID else hd pids) \<and> linked v pid pids"

subsection \<open>Contexts\<close>

datatype ctx = First page_id "(bytes \<times> tree) list"
  | Later page_id tree "(bytes \<times> tree) list" bytes "(bytes \<times> tree) list"

fun ctx_id :: "ctx \<Rightarrow> page_id" where
  "ctx_id (First pid rs) = pid"
| "ctx_id (Later pid t ls k rs) = pid"

fun fill :: "ctx \<Rightarrow> tree \<Rightarrow> tree" where
  "fill (First pid rs) h = Inner pid h rs"
| "fill (Later pid t ls k rs) h = Inner pid t (ls @ (k, h) # rs)"

fun before :: "ctx \<Rightarrow> mark list" where
  "before (First pid rs) = []"
| "before (Later pid t ls k rs) = flat t @ flats ls @ [(k, None)]"

fun after :: "ctx \<Rightarrow> mark list" where
  "after (First pid rs) = flats rs"
| "after (Later pid t ls k rs) = flats rs"

fun ctx_pages :: "ctx \<Rightarrow> page_id list" where
  "ctx_pages (First pid rs) = pid # all_pages rs"
| "ctx_pages (Later pid t ls k rs) = pid # pages t @ all_pages ls @ all_pages rs"

fun left_leaves :: "ctx \<Rightarrow> page_id list" where
  "left_leaves (First pid rs) = []"
| "left_leaves (Later pid t ls k rs) = leaf_ids t @ all_leaf_ids ls"

fun right_leaves :: "ctx \<Rightarrow> page_id list" where
  "right_leaves (First pid rs) = all_leaf_ids rs"
| "right_leaves (Later pid t ls k rs) = all_leaf_ids rs"

fun ctx_at :: "(page_id \<Rightarrow> page) \<Rightarrow> ctx \<Rightarrow> page_id \<Rightarrow> bool" where
  "ctx_at v (First pid rs) h \<longleftrightarrow> inner_node (v pid) (ids rs) \<and> first_child (v pid) = h \<and> (\<forall>c \<in> set rs. tree_at v pid (snd c))"
| "ctx_at v (Later pid t ls k rs) h \<longleftrightarrow> inner_node (v pid) (ids ls @ (k, h) # ids rs) \<and> first_child (v pid) = tid t \<and>
     tree_at v pid t \<and> (\<forall>c \<in> set (ls @ rs). tree_at v pid (snd c))"

fun plug :: "ctx list \<Rightarrow> tree \<Rightarrow> tree" where
  "plug [] t = t"
| "plug (c # path) t = plug path (fill c t)"

fun path_before :: "ctx list \<Rightarrow> mark list" where
  "path_before [] = []"
| "path_before (c # path) = path_before path @ before c"

fun path_after :: "ctx list \<Rightarrow> mark list" where
  "path_after [] = []"
| "path_after (c # path) = after c @ path_after path"

abbreviation path_pages :: "ctx list \<Rightarrow> page_id list" where
  "path_pages path \<equiv> concat (map ctx_pages path)"

fun path_left :: "ctx list \<Rightarrow> page_id list" where
  "path_left [] = []"
| "path_left (c # path) = path_left path @ left_leaves c"

fun path_right :: "ctx list \<Rightarrow> page_id list" where
  "path_right [] = []"
| "path_right (c # path) = right_leaves c @ path_right path"

definition path_parent :: "ctx list \<Rightarrow> page_id" where
  "path_parent path = (case path of [] \<Rightarrow> INVALID_PAGE_ID | c # _ \<Rightarrow> ctx_id c)"

fun path_at :: "(page_id \<Rightarrow> page) \<Rightarrow> ctx list \<Rightarrow> page_id \<Rightarrow> bool" where
  "path_at v [] h \<longleftrightarrow> True"
| "path_at v (c # path) h \<longleftrightarrow> ctx_at v c h \<and> parent_id (v (ctx_id c)) = path_parent path \<and> path_at v path (ctx_id c)"

lemma tid_fill [simp]: "tid (fill c t) = ctx_id c"
  by (cases c) auto

lemma tree_at_fill: "tree_at v par (fill c t) \<longleftrightarrow> ctx_at v c (tid t) \<and> parent_id (v (ctx_id c)) = par \<and> tree_at v (ctx_id c) t"
  by (cases c) auto

lemma tree_at_plug: "tree_at v INVALID_PAGE_ID (plug path t) \<longleftrightarrow> path_at v path (tid t) \<and> tree_at v (path_parent path) t"
proof (induction path arbitrary: t)
  case Nil
  then show ?case by (simp add: path_parent_def)
next
  case (Cons c path)
  then show ?case by (auto simp: tree_at_fill path_parent_def)
qed

lemma fill_pages: "set (pages h) \<subseteq> set (pages (fill c h))" "length (pages h) < length (pages (fill c h))"
  by (cases c; auto)+

lemma flat_fill: "flat (fill c t) = before c @ flat t @ after c"
  by (cases c) auto

lemma flat_plug: "flat (plug path t) = path_before path @ flat t @ path_after path"
  by (induction path arbitrary: t) (auto simp: flat_fill)

lemma leaf_ids_plug: "leaf_ids (plug path t) = path_left path @ leaf_ids t @ path_right path"
proof (induction path arbitrary: t)
  case (Cons c path)
  then show ?case by (cases c) auto
qed simp

lemma pages_plug: "mset (pages (plug path t)) = mset (path_pages path) + mset (pages t)"
proof (induction path arbitrary: t)
  case (Cons c path)
  then show ?case by (cases c) auto
qed simp

lemma pages_plug_set: "set (pages (plug path t)) = set (path_pages path) \<union> set (pages t)"
  using arg_cong [OF pages_plug, of set_mset] by simp

lemma pages_plug_distinct: "distinct (pages (plug path t)) \<longleftrightarrow> distinct (path_pages path @ pages t)"
  by (rule mset_eq_imp_distinct_iff) (simp add: pages_plug)

lemma tid_in_pages [simp]: "tid t \<in> set (pages t)"
  by (cases t) auto

lemma leaf_ids_pages: "set (leaf_ids t) \<subseteq> set (pages t)"
  by (induction t rule: leaf_ids.induct) (auto, fastforce)

text \<open>A tree depends on its own pages only.\<close>

lemma tree_at_cong: "(\<And>pid. pid \<in> set (pages t) \<Longrightarrow> v pid = w pid) \<Longrightarrow> tree_at v par t \<longleftrightarrow> tree_at w par t"
proof (induction v par t rule: tree_at.induct)
  case (2 v par pid t ts)
  have "tree_at v pid t \<longleftrightarrow> tree_at w pid t" using 2 by auto
  moreover have "tree_at v pid (snd c) \<longleftrightarrow> tree_at w pid (snd c)" if "c \<in> set ts" for c
    by (rule 2(2) [OF that]) (use 2(3) that in auto)
  ultimately show ?case using 2(3) by auto
qed auto

lemma path_at_cong: "(\<And>pid. pid \<in> set (path_pages path) \<Longrightarrow> v pid = w pid) \<Longrightarrow> path_at v path h \<longleftrightarrow> path_at w path h"
proof (induction path arbitrary: h)
  case (Cons c path)
  have t: "tree_at v p t \<longleftrightarrow> tree_at w p t" if "set (pages t) \<subseteq> set (ctx_pages c)" for p t
    by (rule tree_at_cong) (use Cons.prems that in auto)
  have "ctx_at v c h \<longleftrightarrow> ctx_at w c h" using Cons.prems
  proof (cases c)
    case (First pid rs)
    have "tree_at v pid (snd x) \<longleftrightarrow> tree_at w pid (snd x)" if "x \<in> set rs" for x
      by (rule t) (use First that in auto)
    then show ?thesis using First Cons.prems by auto
  next
    case (Later pid u ls k rs)
    have "tree_at v pid (snd x) \<longleftrightarrow> tree_at w pid (snd x)" if "x \<in> set (ls @ rs)" for x
      by (rule t) (use Later that in auto)
    moreover have "tree_at v pid u \<longleftrightarrow> tree_at w pid u" by (rule t) (use Later in auto)
    ultimately show ?thesis using Later Cons.prems by auto
  qed
  moreover have "ctx_id c \<in> set (path_pages (c # path))" by (cases c) auto
  ultimately show ?case using Cons by auto
qed simp

subsection \<open>Order\<close>

abbreviation below :: "bytes \<Rightarrow> mark \<Rightarrow> bool" where
  "below key e \<equiv> fst e < key \<or> fst e = key \<and> snd e = None"

lemma entries_append [simp]: "entries (as @ bs) = entries as @ entries bs"
  by (induction as rule: entries.induct) auto

lemma entries_marks [simp]: "entries (marks cs) = cs"
  by (induction cs) auto

lemma entries_in: "(k, v) \<in> set (entries es) \<longleftrightarrow> (k, Some v) \<in> set es"
  by (induction es rule: entries.induct) auto

lemma ordered_entries: "ordered es \<Longrightarrow> sorted_keys (entries es)"
proof (induction es rule: entries.induct)
  case (3 k v es)
  have "\<forall>c \<in> set (entries es). k < fst c"
  proof
    fix c assume "c \<in> set (entries es)"
    then have "(fst c, Some (snd c)) \<in> set es" using entries_in [of "fst c" "snd c" es] by simp
    with 3(2) show "k < fst c" by (fastforce simp: mark_less_def)
  qed
  with 3 show ?case by auto
qed auto

lemma ordered_marks: "ordered (marks cs) \<longleftrightarrow> sorted_keys cs"
  by (induction cs) (auto simp: mark_less_def)

lemma put_key_append_left: "\<forall>c \<in> set as. fst c < k \<Longrightarrow> put_key k v (as @ bs) = as @ put_key k v bs"
  by (induction as) auto

lemma put_key_append_right: "\<forall>c \<in> set bs. k < fst c \<Longrightarrow> put_key k v (as @ bs) = put_key k v as @ bs"
  by (induction as) (auto, cases bs, auto)

lemma del_key_append: "k \<notin> fst ` set as \<Longrightarrow> del_key k (as @ bs) = as @ del_key k bs"
  by (induction as) auto

lemma put_between:
  assumes "\<forall>e \<in> set as. below key e" "\<forall>e \<in> set bs. key < fst e"
  shows "put_key key v (entries (as @ marks cs @ bs)) = entries (as @ marks (put_key key v cs) @ bs)"
proof -
  have "\<forall>c \<in> set (entries as). fst c < key" "\<forall>c \<in> set (entries bs). key < fst c"
    using assms entries_in by fastforce+
  then show ?thesis by (simp add: put_key_append_left put_key_append_right)
qed

lemma lookup_between:
  assumes "\<forall>e \<in> set as. below key e" "\<forall>e \<in> set bs. key < fst e"
  shows "map_of (entries (as @ marks cs @ bs)) key = map_of cs key"
proof -
  have "map_of (entries as) key = None" "map_of (entries bs) key = None"
    using assms entries_in by (fastforce simp: map_of_eq_None_iff)+
  then show ?thesis by (simp add: map_add_def split: option.split)
qed

end
