(* ===== verification/Btree_Ops.thy ===== *)
theory Btree_Ops
  imports Search_Tree
begin

section \<open>The operations of the B+Tree on the tree its pages represent\<close>

text \<open>Symbolic execution of the operations of the tree over the abstract state of the cache.\<close>

subsection \<open>Steps\<close>

lemma page_get_step:
  "pinned c pid = Some fid \<Longrightarrow> runs cached (k (f (content c pid))) c Q \<Longrightarrow> runs cached (op_bind (page_get fid f) k) c Q"
  unfolding page_get_def by (rule pc.get_step)

lemma page_read_step:
  "pinned c pid = Some fid \<Longrightarrow> f (content c pid) = Inr x \<Longrightarrow> runs cached (k x) c Q \<Longrightarrow>
   runs cached (op_bind (page_read fid f) k) c Q"
  unfolding page_read_def by (rule pc.read_step)

lemma mk_node_step:
  "pinned c pid = Some fid \<Longrightarrow> Node_check (content c pid) \<Longrightarrow> runs cached (k ()) c Q \<Longrightarrow>
   runs cached (op_bind (mk_node fid) k) c Q"
  unfolding mk_node_def by (rule pc.check_step)

lemma page_set_step:
  "pinned c pid = Some fid \<Longrightarrow> page_ok (f (content c pid)) \<Longrightarrow> page_id (f (content c pid)) = pid \<Longrightarrow>
   runs cached (k ()) (c\<lparr>content := (content c)(pid := f (content c pid)), changed := insert pid (changed c)\<rparr>) Q \<Longrightarrow>
   runs cached (op_bind (page_set fid f) k) c Q"
  unfolding page_set_def by (rule pc.set_step)

lemma at_frame_step:
  "pinned c pid = Some fid \<Longrightarrow> m (content c pid) = (Inr x, p) \<Longrightarrow> page_ok p \<Longrightarrow> page_id p = pid \<Longrightarrow>
   runs cached (k x) (c\<lparr>content := (content c)(pid := p), changed := insert pid (changed c)\<rparr>) Q \<Longrightarrow>
   runs cached (op_bind (at_frame fid m) k) c Q"
  unfolding at_frame_def by (rule pc.page_step)

lemma at_frames_step:
  "pinned c pid = Some f \<Longrightarrow> pinned c qid = Some g \<Longrightarrow> m (content c pid, content c qid) = (Inr x, p, q) \<Longrightarrow>
   page_ok p \<Longrightarrow> page_id p = pid \<Longrightarrow> page_ok q \<Longrightarrow> page_id q = qid \<Longrightarrow>
   runs cached (k x) (c\<lparr>content := (content c)(pid := p, qid := q), changed := insert qid (insert pid (changed c))\<rparr>) Q \<Longrightarrow>
   runs cached (op_bind (at_frames f g m) k) c Q"
  unfolding at_frames_def by (rule pc.pages_step)

lemma update_node_step:
  "can_fetch c pid \<Longrightarrow> pid \<notin> changed c \<Longrightarrow> Node_check (content c pid) \<Longrightarrow>
   page_ok (f (content c pid)) \<Longrightarrow> page_id (f (content c pid)) = pid \<Longrightarrow>
   runs cached (k ()) (c\<lparr>content := (content c)(pid := f (content c pid))\<rparr>) Q \<Longrightarrow>
   runs cached (op_bind (update_node pid f) k) c Q"
  unfolding update_node_def mk_node_def page_set_def by (rule pc.update_step)

lemmas fetch_step = pc.fetch_step and unpin_step = pc.unpin_step and fresh_step = pc.fresh_step
  and touched = pc.touched and with_ids = pc.with_ids

subsection \<open>Descending to a leaf\<close>

lemma skip_equal_slotted:
  assumes "slotted ft p cs" "sorted_keys cs"
  shows "skip_equal key p (lb key cs) = Inr (ubound key cs)"
proof -
  have n: "num_keys p = length cs" using slottedD(2) [OF assms(1)] .
  have stop: "skip_equal key p i = Inr i" if "i = length cs \<or> i < length cs \<and> fst (cs ! i) \<noteq> key" for i
    unfolding skip_equal.simps [of key p i] using that n key_at_slotted [OF assms(1), of i] by auto
  show ?thesis
  proof (cases "key \<in> fst ` set cs")
    case True
    then have i: "lb key cs < length cs" "fst (cs ! lb key cs) = key" using lb_present [OF assms(2)] by auto
    have "Suc (lb key cs) = length cs \<or> Suc (lb key cs) < length cs \<and> fst (cs ! Suc (lb key cs)) \<noteq> key"
      using i lb_iff [OF assms(2), of "Suc (lb key cs)"] sorted_wrt_nth_less [OF assms(2), of "lb key cs" "Suc (lb key cs)"]
      by fastforce
    then show ?thesis
      unfolding skip_equal.simps [of key p "lb key cs"]
      using i n key_at_slotted [OF assms(1) i(1)] stop ubound_lb [OF assms(2), of key] True by simp
  next
    case False
    then have "lb key cs = length cs \<or> lb key cs < length cs \<and> fst (cs ! lb key cs) \<noteq> key"
      using lb_present [OF assms(2), of key] lb_le [of key cs] by linarith
    then show ?thesis using stop ubound_lb [OF assms(2), of key] False by simp
  qed
qed

lemma next_child_inner:
  assumes "inner_node p cs"
  shows "next_child key p = Inr (if ubound key cs = 0 then first_child p else snd (cs ! (ubound key cs - 1)))"
proof -
  note L = inner_nodeD [OF assms]
  have "ubound key cs \<le> length cs" by (rule ubound_split(1) [OF L(3)])
  then show ?thesis
    using lower_bound_slotted [OF L(1,3), of key] skip_equal_slotted [OF L(1,3), of key]
      child_at_slotted [OF L(1,2), of "ubound key cs - 1"]
    by (auto simp: next_child_def)
qed

lemma Node_check_node:
  "leaf_node p cs \<Longrightarrow> Node_check p" "inner_node p ds \<Longrightarrow> Node_check p" "leaf_node p cs \<Longrightarrow> is_leaf p"
  by (simp_all add: Node_check_def leaf_node_def inner_node_def is_leaf_def)

lemma tree_at_check: "tree_at v par t \<Longrightarrow> Node_check (v (tid t))"
  by (cases t) (auto intro: Node_check_node)

text \<open>One step down: the child that the search goes to, and what is known of the marks on either
  side of it.\<close>

lemma sorted_keys_ids [simp]: "map fst (ids ts) = map fst ts"
  by simp

lemma flats_above:
  assumes "ordered (flats ts)" "\<forall>c \<in> set ts. key < fst c" "e \<in> set (flats ts)"
  shows "key < fst e"
proof -
  obtain c where c: "c \<in> set ts" "e = (fst c, None) \<or> e \<in> set (flat (snd c))" using assms(3) by auto
  have "sorted_wrt mark_less ((fst c, None) # flat (snd c))"
    using c(1) assms(1) by (auto dest!: split_list simp: sorted_wrt_append)
  then have "fst c \<le> fst e" using c(2) by (auto simp: mark_less_def)
  then show ?thesis using assms(2) c(1) by fastforce
qed

lemma marks_before:
  "ordered (es @ (k, None) # fs) \<Longrightarrow> k \<le> key \<Longrightarrow> \<forall>e \<in> set (es @ [(k, None)]). below key e"
  by (auto simp: sorted_wrt_append mark_less_def)

lemma descend:
  assumes "tree_at v par (Inner pid t ts)" "ordered (flat (Inner pid t ts))"
  shows "\<exists>c h. Inner pid t ts = fill c h \<and> next_child key (v pid) = Inr (tid h) \<and>
    (\<forall>e \<in> set (before c). below key e) \<and> (\<forall>e \<in> set (after c). key < fst e)"
proof -
  have I: "inner_node (v pid) (ids ts)" and fc: "first_child (v pid) = tid t" using assms(1) by auto
  have sk: "sorted_keys ts" using inner_nodeD(3) [OF I] by (simp add: comp_def)
  let ?u = "ubound key (ids ts)"
  have u: "?u = ubound key ts" by (simp add: ubound_def takeWhile_map comp_def)
  note U = ubound_split [OF sk, of key]
  have "flats ts = flats (take (ubound key ts) ts) @ flats (drop (ubound key ts) ts)"
    by (simp add: map_append [symmetric] concat_append [symmetric] del: map_append concat_append)
  then have "ordered (flats (drop (ubound key ts) ts))" using assms(2) by (simp add: sorted_wrt_append)
  then have above: "\<forall>e \<in> set (flats (drop (ubound key ts) ts)). key < fst e" using flats_above U(3) by blast
  show ?thesis
  proof (cases "ubound key ts = 0")
    case True
    then show ?thesis
      using next_child_inner [OF I, of key] u fc above by (intro exI [of _ "First pid ts"] exI [of _ t]) simp
  next
    case False
    let ?i = "ubound key ts - 1"
    have i: "?i < length ts" using False U(1) by linarith
    have split: "ts = take ?i ts @ ts ! ?i # drop (ubound key ts) ts" using id_take_nth_drop [OF i] False by simp
    obtain k h where kh: "ts ! ?i = (k, h)" by fastforce
    have "(k, h) \<in> set (take (ubound key ts) ts)"
      using kh i False in_set_conv_nth [of "(k, h)" "take (ubound key ts) ts"] by auto
    then have "k \<le> key" using U(2) by fastforce
    moreover have "ordered ((flat t @ flats (take ?i ts)) @ (k, None) # flat h @ flats (drop (ubound key ts) ts))"
      using assms(2) arg_cong [OF split, of flats] kh by simp
    ultimately have "\<forall>e \<in> set ((flat t @ flats (take ?i ts)) @ [(k, None)]). below key e"
      by (intro marks_before)
    then show ?thesis
      using next_child_inner [OF I, of key] u False above kh i split
      by (intro exI [of _ "Later pid t (take ?i ts) k (drop (ubound key ts) ts)"] exI [of _ h]) simp
  qed
qed

text \<open>No page is in use between two operations of the tree.\<close>

definition quiet :: "'r cache \<Rightarrow> bool" where
  "quiet c \<longleftrightarrow> pinned c = Map.empty \<and> changed c = {} \<and> saved_root c = root_id c"

lemma quiet_update [simp]: "pinned c = (\<lambda>_. None) \<Longrightarrow> changed c = {} \<Longrightarrow> c\<lparr>pinned := \<lambda>_. None, changed := {}\<rparr> = c"
  by simp

text \<open>The invariant of the tree: its pages are allocated and different, they represent the tree with
  correct parent and sibling pointers, and its marks increase from left to right.\<close>

definition stores :: "'r cache \<Rightarrow> tree \<Rightarrow> bool" where
  "stores c t \<longleftrightarrow> quiet c \<and> root_id c = tid t \<and> tree_at (content c) INVALID_PAGE_ID t \<and> ordered (flat t) \<and>
     distinct (pages t) \<and> set (pages t) \<subseteq> allocated_ids c \<and> linked (content c) INVALID_PAGE_ID (leaf_ids t)"

text \<open>The path ends where the key belongs.\<close>

definition leads_to :: "bytes \<Rightarrow> ctx list \<Rightarrow> bool" where
  "leads_to key path \<longleftrightarrow> (\<forall>e \<in> set (path_before path). below key e) \<and> (\<forall>e \<in> set (path_after path). key < fst e)"

definition found_leaf :: "bytes \<Rightarrow> 'r cache \<Rightarrow> tree \<Rightarrow> nat \<times> page_id list \<Rightarrow> 'r cache \<Rightarrow> bool" where
  "found_leaf key c t r c' \<longleftrightarrow> (\<exists>path pid cs. t = plug path (Leaf pid cs) \<and> snd r = map ctx_id path \<and>
     leads_to key path \<and> c' = c\<lparr>pinned := [pid \<mapsto> fst r]\<rparr>)"

lemma find_leaf_loop_runs:
  assumes "quiet c" "0 < capacity c" "tree_at (content c) INVALID_PAGE_ID (plug path u)" "ordered (flat (plug path u))"
    "set (pages u) \<subseteq> allocated_ids c" "leads_to key path" "length (pages u) \<le> n"
  shows "runs cached (find_leaf_loop n key (tid u) (map ctx_id path)) c (found_leaf key c (plug path u))"
  using assms
proof (induction n arbitrary: path u)
  case 0
  then show ?case by (cases u) auto
next
  case (Suc n)
  let ?pid = "tid u"
  have free: "can_fetch c ?pid" using Suc.prems(1,2,5) tid_in_pages [of u] by (auto simp: can_fetch_def quiet_def)
  show ?case
    unfolding find_leaf_loop.simps
  proof (rule fetch_step [OF free], rule page_get_step [where pid = ?pid])
    fix fid
    let ?c = "c\<lparr>pinned := (pinned c)(?pid \<mapsto> fid)\<rparr>"
    show p: "pinned ?c ?pid = Some fid" by simp
    have restored: "?c\<lparr>pinned := (pinned ?c)(?pid := None), changed := changed ?c - {?pid}\<rparr> = c"
      using Suc.prems(1) by (simp add: quiet_def fun_upd_idem)
    have tr: "tree_at (content c) (path_parent path) u" using Suc.prems(3) by (simp add: tree_at_plug)
    show "runs cached (if is_leaf (content ?c ?pid) then op_return (fid, map ctx_id path)
        else op_bind (mk_node fid) (\<lambda>_. op_bind (page_read fid (next_child key)) (\<lambda>next.
          op_bind (unpin_page ?pid False) (\<lambda>_. find_leaf_loop n key next (?pid # map ctx_id path)))))
        ?c (found_leaf key c (plug path u))"
    proof (cases u)
      case (Leaf pid cs)
      then have "found_leaf key c (plug path u) (fid, map ctx_id path) ?c"
        unfolding found_leaf_def using Suc.prems(1,6) by (intro exI [of _ path]) (auto simp: quiet_def)
      then show ?thesis using Leaf tr Node_check_node(3) by (auto intro: runs_return)
    next
      case (Inner pid t ts)
      have ord: "ordered (flat u)" using Suc.prems(4) by (simp add: flat_plug sorted_wrt_append)
      obtain x h where x: "u = fill x h" "next_child key (content c pid) = Inr (tid h)"
        "\<forall>e \<in> set (before x). below key e" "\<forall>e \<in> set (after x). key < fst e"
        using descend [of "content c" "path_parent path" pid t ts key] tr ord Inner by blast
      have sub: "set (pages h) \<subseteq> set (pages u)" "length (pages h) < length (pages u)" unfolding x(1) by (rule fill_pages)+
      have "runs cached (find_leaf_loop n key (tid h) (map ctx_id (x # path))) c (found_leaf key c (plug (x # path) h))"
        by (rule Suc.IH) (use Suc.prems x sub in \<open>auto simp: leads_to_def\<close>)
      then have go: "runs cached (find_leaf_loop n key (tid h) (?pid # map ctx_id path)) c (found_leaf key c (plug path u))"
        using x(1) by simp
      have nl: "\<not> is_leaf (content ?c ?pid)" and nc: "Node_check (content ?c ?pid)"
        and nx: "next_child key (content ?c ?pid) = Inr (tid h)"
        using tr Inner Node_check_node(2) inner_not_leaf x(2) by auto
      show ?thesis
        unfolding if_not_P [OF nl]
        by (rule mk_node_step [OF p nc], rule page_read_step [OF p], rule nx, rule unpin_step)
          (use go restored Suc.prems(1) in \<open>auto simp: quiet_def\<close>)
    qed
  qed
qed

lemma find_leaf_runs:
  assumes "stores c t" "0 < capacity c"
  shows "runs cached (find_leaf key) c (found_leaf key c t)"
  unfolding runs_def
proof (intro allI impI)
  fix s assume s: "cached c s"
  note S = assms(1) [unfolded stores_def]
  note A = allocated_less [OF s]
  have "length (pages t) \<le> card (allocated_ids c)"
    using S A(1) by (metis card_mono distinct_card)
  then have n: "length (pages t) \<le> unat (num_pages s)" using A(2) by linarith
  have "runs cached (find_leaf_loop (unat (num_pages s)) key (tid t) (map ctx_id [])) c (found_leaf key c (plug [] t))"
    by (rule find_leaf_loop_runs) (use S assms(2) n in \<open>auto simp: leads_to_def\<close>)
  moreover have "find_leaf key s = find_leaf_loop (unat (num_pages s)) key (tid t) [] s"
    using cachedD(10) [OF s] S by (simp add: find_leaf_def op_simps)
  ultimately show "\<exists>x u c'. find_leaf key s = (Inr x, u) \<and> cached c' u \<and> found_leaf key c t x c'"
    using s by (auto simp: runs_def)
qed

subsection \<open>Lookup\<close>

lemma leaf_slot_leaf:
  assumes "leaf_node p cs"
  shows "leaf_slot key p = Inr (if key \<in> fst ` set cs then Some (lb key cs) else None)"
proof -
  have L: "slotted leaf_tail p cs" "sorted_keys cs" using assms by (auto simp: leaf_node_def)
  show ?thesis
    using lower_bound_slotted [OF L, of key] slottedD(2) [OF L(1)] key_at_slotted [OF L(1), of "lb key cs"]
      lb_present [OF L(2), of key] lb_le [of key cs]
    by (auto simp: leaf_slot_def)
qed

lemma btree_get_runs:
  assumes "stores c t" "0 < capacity c"
  shows "runs cached (btree_get key) c (\<lambda>r c'. r = map_of (contents t) key \<and> c' = c)"
  unfolding btree_get_def
proof (rule with_ids, rule runs_bind [OF find_leaf_runs [OF assms]])
  assume ids: "ids_ok c"
  fix r c' assume "found_leaf key c t r c'"
  then obtain fid bcs path pid cs where r: "r = (fid, bcs)" "t = plug path (Leaf pid cs)" "leads_to key path"
    "c' = c\<lparr>pinned := [pid \<mapsto> fid]\<rparr>" by (cases r) (auto simp: found_leaf_def)
  note S = assms(1) [unfolded stores_def r(2)]
  have L: "leaf_node (content c' pid) cs" using S r(4) by (simp add: tree_at_plug)
  have pid: "pid \<in> allocated_ids c" using S by (auto simp: pages_plug_set)
  have p: "pinned c' pid = Some fid" using r(4) by simp
  have "map_of (contents t) key = map_of cs key"
    using r(3) lookup_between [of "path_before path" key "path_after path" cs]
    by (simp add: contents_def r(2) flat_plug leads_to_def)
  also have "\<dots> = (if key \<in> fst ` set cs then Some (snd (cs ! lb key cs)) else None)"
    using L map_of_lb [of cs key] lb_present [of cs key] by (simp add: leaf_node_def)
  finally have res: "res_bind (leaf_slot key (content c' pid)) (\<lambda>r. case r of None \<Rightarrow> Inr None
      | Some slot \<Rightarrow> res_bind (value_at slot (content c' pid)) (\<lambda>v. Inr (Some v))) = Inr (map_of (contents t) key)"
    using leaf_slot_leaf [OF L, of key] value_at_slotted [of _ cs "lb key cs"] L lb_present [of cs key]
    by (auto simp: leaf_node_def)
  have restored: "c'\<lparr>pinned := (pinned c')(pid := None), changed := changed c' - {pid}\<rparr> = c"
    using S r(4) by (simp add: quiet_def)
  have "page_id (content c' pid) = pid" using ids pid r(4) by (simp add: ids_ok_def)
  moreover have "changed c' = {}" using S r(4) by (simp add: quiet_def)
  ultimately show "runs cached (case r of (fid, breadcrumbs) \<Rightarrow> op_bind (page_get fid page_id) (\<lambda>leaf_id.
      op_bind (mk_node fid) (\<lambda>_. op_bind (page_read fid (\<lambda>p. res_bind (leaf_slot key p) (\<lambda>r. case r of
         None \<Rightarrow> Inr None | Some slot \<Rightarrow> res_bind (value_at slot p) (\<lambda>v. Inr (Some v))))) (\<lambda>result.
      op_bind (unpin_page leaf_id False) (\<lambda>_. op_return result))))) c'
      (\<lambda>r c'. r = map_of (contents t) key \<and> c' = c)"
    unfolding r(1) prod.case
    by (intro page_get_step [OF p] mk_node_step [OF p] page_read_step [OF p] unpin_step runs_return)
      (use Node_check_node(1) [OF L] res restored p in auto)
qed

end
