(* ===== verification/Btree_Insert.thy ===== *)
theory Btree_Insert
  imports Btree_Ops
begin

section \<open>Insertion into the tree\<close>

text \<open>
  A split of a leaf or of an internal node adds one separator to its parent, which may have to be
  split in turn. \<open>insert_into_parent_runs\<close> shows by induction on the path that this ends
  with a tree whose marks are the old ones and the new separator, whatever had to be split on the
  way, with all parent pointers right. All keys and values are assumed to be at most a quarter of
  a node: without that bound the code loses data.
\<close>

subsection \<open>Changing a page\<close>

definition node_page :: "page \<Rightarrow> bool" where
  "node_page p \<longleftrightarrow> Node_check p \<and> page_ok p"

lemma node_pageI: "leaf_node p cs \<Longrightarrow> node_page p" "inner_node p ds \<Longrightarrow> node_page p"
  using Node_check_node slottedD(1) by (auto simp: node_page_def leaf_node_def inner_node_def)

lemma nodes_ok: "leaf_node p cs \<Longrightarrow> page_ok p" "inner_node p ds \<Longrightarrow> page_ok p"
  using node_pageI by (auto simp: node_page_def)

lemma tree_at_node_page: "tree_at v par t \<Longrightarrow> node_page (v (tid t))"
  by (cases t) (auto intro: node_pageI)

lemma node_page_links [simp]:
  "node_page p \<Longrightarrow> node_page (set_parent_id i p)" "node_page p \<Longrightarrow> node_page (set_left_sibling i p)"
proof -
  assume p: "node_page p"
  have "page_ok (set_parent_id i p)" "page_ok (set_left_sibling i p)"
    using p by (auto simp: node_page_def node_set_defs)
  then show "node_page (set_parent_id i p)" "node_page (set_left_sibling i p)"
    using p by (simp_all add: node_page_def Node_check_def)
qed

text \<open>A page outside a tree does not matter to it.\<close>

lemma tree_at_other [simp]: "pid \<notin> set (pages t) \<Longrightarrow> tree_at (v(pid := p)) par t \<longleftrightarrow> tree_at v par t"
  by (rule tree_at_cong) auto

lemma path_at_other [simp]: "pid \<notin> set (path_pages path) \<Longrightarrow> path_at (v(pid := p)) path h \<longleftrightarrow> path_at v path h"
  by (rule path_at_cong) auto

lemma linked_cong:
  assumes "\<And>pid. pid \<in> set pids \<Longrightarrow> left_sibling (v pid) = left_sibling (w pid) \<and> right_sibling (v pid) = right_sibling (w pid)"
  shows "linked v l pids \<longleftrightarrow> linked w l pids"
  using assms by (induction pids arbitrary: l) auto

lemma linked_other [simp]: "pid \<notin> set pids \<Longrightarrow> linked (v(pid := p)) l pids \<longleftrightarrow> linked v l pids"
  by (rule linked_cong) auto

lemma ctx_leaves: "set (left_leaves c) \<union> set (right_leaves c) \<subseteq> set (ctx_pages c)"
  using leaf_ids_pages by (cases c) fastforce+

lemma path_leaves: "set (path_left path) \<union> set (path_right path) \<subseteq> set (path_pages path)"
proof (induction path)
  case (Cons c path)
  then show ?case using ctx_leaves [of c] by auto
qed simp

subsection \<open>Parent pointers\<close>

definition reparented :: "page_id set \<Rightarrow> page_id \<Rightarrow> (page_id \<Rightarrow> page) \<Rightarrow> page_id \<Rightarrow> page" where
  "reparented P q v = (\<lambda>x. if x \<in> P then set_parent_id q (v x) else v x)"

lemma reparented_simps [simp]:
  "left_sibling (reparented P q v x) = left_sibling (v x)" "right_sibling (reparented P q v x) = right_sibling (v x)"
  "first_child (reparented P q v x) = first_child (v x)" "page_id (reparented P q v x) = page_id (v x)"
  by (simp_all add: reparented_def)

lemma reparented_node [simp]:
  "leaf_node (v x) cs \<Longrightarrow> leaf_node (reparented P q v x) cs" "inner_node (v x) ds \<Longrightarrow> inner_node (reparented P q v x) ds"
  by (simp_all add: reparented_def)

lemma reparented_insert:
  "x \<notin> P \<Longrightarrow> (reparented P q v)(x := set_parent_id q (reparented P q v x)) = reparented (insert x P) q v"
  by (auto simp: reparented_def fun_eq_iff)

lemma reparented_empty [simp]: "reparented {} q v = v"
  by (simp add: reparented_def)

lemma tree_at_reparented_other: "set (pages t) \<inter> P = {} \<Longrightarrow> tree_at (reparented P q v) par t \<longleftrightarrow> tree_at v par t"
  by (rule tree_at_cong) (auto simp: reparented_def)

lemma tree_at_reparented:
  assumes "tree_at v par t" "distinct (pages t)" "set (pages t) \<inter> P = {tid t}"
  shows "tree_at (reparented P q v) q t"
proof (cases t)
  case (Leaf pid cs)
  then show ?thesis using assms by (auto simp: reparented_def)
next
  case (Inner pid u ts)
  have "tree_at (reparented P q v) pid s \<longleftrightarrow> tree_at v pid s" if "s = u \<or> s \<in> snd ` set ts" for s
    by (rule tree_at_reparented_other) (use that assms(2,3) Inner in auto)
  then show ?thesis using assms(1,3) Inner by (auto simp: reparented_def)
qed

lemma path_at_reparented: "set (path_pages path) \<inter> P = {} \<Longrightarrow> path_at (reparented P q v) path h \<longleftrightarrow> path_at v path h"
  by (rule path_at_cong) (auto simp: reparented_def)

lemma linked_reparented [simp]: "linked (reparented P q v) l pids \<longleftrightarrow> linked v l pids"
  by (rule linked_cong) simp

text \<open>A page whose node the tree may update while other pages are pinned.\<close>

definition child_ok :: "'r cache \<Rightarrow> page_id \<Rightarrow> bool" where
  "child_ok c x \<longleftrightarrow> can_fetch c x \<and> x \<notin> changed c \<and> node_page (content c x)"

lemma set_parent_step:
  assumes "child_ok c x" "runs cached (k ()) (c\<lparr>content := (content c)(x := set_parent_id q (content c x))\<rparr>) Q"
  shows "runs cached (op_bind (update_node x (set_parent_id q)) k) c Q"
proof (rule with_ids)
  assume "ids_ok c"
  with assms show ?thesis
    using node_page_links(1) [of "content c x" q]
    by (intro update_node_step) (auto simp: child_ok_def node_page_def can_fetch_def ids_ok_def)
qed

lemma reparent_step:
  assumes "child_ok c x" "runs cached (k ()) (c\<lparr>content := (content c)(x := set_parent_id q (content c x))\<rparr>) Q"
  shows "runs cached (op_bind (reparent q x) k) c Q"
proof (rule with_ids)
  assume "ids_ok c"
  then have "x \<noteq> INVALID_PAGE_ID" using assms(1) by (auto simp: child_ok_def can_fetch_def ids_ok_def)
  then show ?thesis unfolding reparent_def using set_parent_step [OF assms(1), of k q Q] assms(2) by simp
qed

lemma nth_notin_take: "distinct xs \<Longrightarrow> i < length xs \<Longrightarrow> xs ! i \<notin> set (take i xs)"
  by (subst (asm) id_take_nth_drop, assumption) simp

lemma reparent_children_step:
  assumes "pinned c pid = Some fid" "inner_node (content c pid) cs"
    "distinct (first_child (content c pid) # map snd cs)" "\<forall>x \<in> insert (first_child (content c pid)) (snd ` set cs). child_ok c x"
    and "runs cached (k ()) (c\<lparr>content := reparented (insert (first_child (content c pid)) (snd ` set cs)) pid (content c)\<rparr>) Q"
  shows "runs cached (op_bind (reparent_children fid pid) k) c Q"
proof -
  let ?fc = "first_child (content c pid)"
  let ?P = "\<lambda>n. insert ?fc (snd ` set (take n cs))"
  let ?c = "\<lambda>P. c\<lparr>content := reparented P pid (content c)\<rparr>"
  note I = inner_nodeD [OF assms(2)]
  have n: "num_keys (content c pid) = length cs" using slottedD(2) [OF I(1)] .
  have self: "\<not> child_ok c pid" using assms(1) by (simp add: child_ok_def can_fetch_def)
  have ok: "child_ok (?c P) x" if "child_ok c x" for P x
    using that node_page_links(1) by (auto simp: child_ok_def can_fetch_def reparented_def)
  have step: "runs cached (op_bind (reparent pid x) k) (?c P) R"
    if "child_ok c x" "x \<notin> P" "runs cached (k ()) (?c (insert x P)) R" for x P R k
    by (rule reparent_step) (use that ok reparented_insert [of x P pid "content c"] in auto)
  have loop: "runs cached (op_foreach (\<lambda>i. op_bind (page_read fid (child_at i)) (reparent pid)) [0..<length cs]) (?c {?fc})
      (\<lambda>_ d. d = ?c (?P (length [0..<length cs])))"
  proof (rule runs_foreach [where I = "\<lambda>xs d. d = ?c (?P (length xs))"])
    fix xs x ys d assume us: "[0..<length cs] = xs @ x # ys" and d: "d = ?c (?P (length xs))"
    note x = upt_split [OF us]
    have "inner_node (content d pid) cs" using assms(2) d by simp
    then have "child_at x (content d pid) = Inr (snd (cs ! x))"
      using child_at_slotted inner_nodeD(1,2) x(2) by blast
    moreover have "snd (cs ! x) \<notin> ?P x"
    proof -
      have "snd (cs ! x) \<noteq> ?fc" using assms(3) x(2) by (metis distinct.simps(2) length_map nth_map nth_mem)
      then show ?thesis using assms(3) x(2) nth_notin_take [of "map snd cs" x] by (auto simp: take_map)
    qed
    moreover have "insert (snd (cs ! x)) (?P x) = ?P (Suc x)" using x(2) by (auto simp: take_Suc_conv_app_nth)
    moreover have "child_ok c (snd (cs ! x))" using assms(4) x(2) by auto
    ultimately show "runs cached (op_bind (page_read fid (child_at x)) (reparent pid)) d (\<lambda>_ d. d = ?c (?P (length (xs @ [x]))))"
      unfolding d x(1) [symmetric] using assms(1) x(1)
      by - (rule runs_last, rule runs_assoc, rule page_read_step [of _ pid], simp, assumption,
          rule step, simp_all add: runs_return)
  qed simp
  have "num_keys (content c pid) = length cs" using slottedD(2) [OF I(1)] .
  moreover have "runs cached (op_bind (reparent pid ?fc) (\<lambda>_. op_bind (op_foreach (\<lambda>i. op_bind (page_read fid (child_at i)) (reparent pid)) [0..<length cs]) k)) c Q"
    using step [of ?fc "{}" "\<lambda>_. op_bind (op_foreach (\<lambda>i. op_bind (page_read fid (child_at i)) (reparent pid)) [0..<length cs]) k" Q]
      runs_bind [OF loop, of k Q] assms(4,5) by simp
  ultimately show ?thesis
    unfolding reparent_children_def op_bind_assoc
    by (intro page_get_step [OF assms(1)]) simp
qed

subsection \<open>Adding a separator\<close>

lemma put_key_fits:
  assumes "k \<notin> fst ` set cs"
  shows "fits ft (put_key k x cs) \<longleftrightarrow> 34 + 2 * length cs + used ft cs + length (encode ft (k, x)) \<le> 4072"
proof -
  have "length (put_key k x cs) = Suc (length cs) \<and> used ft (put_key k x cs) = used ft cs + length (encode ft (k, x))"
    using assms by (induction cs) (auto simp: used_def)
  then show ?thesis by (auto simp: fits_def)
qed

text \<open>The parent is compacted only if it looks full; afterwards it has room exactly if the separator
  fits on the page at all.\<close>

lemma make_room_step:
  assumes "pinned c pid = Some fid" "inner_node (content c pid) cs" "sep \<notin> fst ` set cs"
    and "\<And>q. inner_node q cs \<Longrightarrow> node_meta q = node_meta (content c pid) \<Longrightarrow>
      fits child_tail (put_key sep x cs) \<or> compacted child_tail q cs \<Longrightarrow>
      runs cached (k (\<not> fits child_tail (put_key sep x cs)))
        (c\<lparr>content := (content c)(pid := q), changed := insert pid (changed c)\<rparr>) Q"
  shows "runs cached (op_bind (page_read fid (is_full (internal_cell_size (length sep)))) (\<lambda>full.
      op_bind (if full then at_frame fid compact else op_return ()) (\<lambda>_.
      op_bind (page_read fid (is_full (internal_cell_size (length sep)))) k))) c Q"
proof (rule with_ids)
  assume ids: "ids_ok c"
  let ?p = "content c pid" and ?n = "internal_cell_size (length sep)"
  note I = inner_nodeD [OF assms(2)]
  have enc: "length (encode child_tail (sep, x)) = ?n" using encode_child(2) [of "(sep, x)"] by simp
  note full = is_full_slotted [OF I(1), of ?n] and fit = put_key_fits [OF assms(3), of child_tail x, unfolded enc]
  note U = slotted_used(1)
  show ?thesis
  proof (cases "cell_end ?p < 34 + 2 * length cs + ?n")
    case False
    then have f: "fits child_tail (put_key sep x cs)" 
      unfolding fit using U [OF I(1)] slottedD(5) [OF I(1)] by linarith
    have "runs cached (k False) c Q"
      by (rule touched [of _ pid]) (use assms(1) assms(4) [OF assms(2) refl] f in auto)
    then show ?thesis using full False
      by (intro page_read_step [OF assms(1)]) (auto intro!: runs_skip page_read_step [OF assms(1)])
  next
    case True
    obtain q where q: "compact ?p = (Inr (), q)" "slotted child_tail q cs" "compacted child_tail q cs" "node_meta q = node_meta ?p"
      using inner.compact_slotted [OF I(1,2)] by blast
    have inn: "inner_node q cs" using q(2,4) assms(2) meta_type [OF q(4)] by (simp add: inner_node_def)
    let ?c = "c\<lparr>content := (content c)(pid := q), changed := insert pid (changed c)\<rparr>"
    have "is_full ?n q = Inr (\<not> fits child_tail (put_key sep x cs))"
      using is_full_slotted [OF q(2), of ?n] fit q(3) by (auto simp: compacted_def)
    moreover have "page_id q = pid" using ids assms(1) q(4) by (auto simp: ids_ok_def node_meta_def)
    moreover have "page_ok q" using slottedD(1) [OF q(2)] .
    moreover have "runs cached (k (\<not> fits child_tail (put_key sep x cs))) ?c Q" by (rule assms(4) [OF inn q(4)]) (simp add: q(3))
    ultimately have "runs cached (op_bind (at_frame fid compact)
        (\<lambda>_. op_bind (page_read fid (is_full ?n)) k)) c Q"
      using q(1) assms(1) by - (rule at_frame_step [OF assms(1)], assumption+, rule page_read_step [of _ pid], simp_all)
    then show ?thesis using full True by (intro page_read_step [OF assms(1)]) auto
  qed
qed

lemma attach_right_step:
  assumes "pinned c pid = Some fid" "inner_node (content c pid) cs" "sep \<notin> fst ` set cs"
    "fits child_tail (put_key sep x cs)" "child_ok c x"
    and "\<And>q. inner_node q (put_key sep x cs) \<Longrightarrow> node_meta q = node_meta (content c pid) \<Longrightarrow>
      runs cached (k ()) (c\<lparr>content := (content c)(pid := q, x := set_parent_id pid (content c x)), changed := insert pid (changed c)\<rparr>) Q"
  shows "runs cached (op_bind (attach_right fid pid sep x) k) c Q"
proof (rule with_ids)
  assume ids: "ids_ok c"
  obtain q where q: "insert_separator sep x (content c pid) = (Inr True, q)" "node_meta q = node_meta (content c pid)"
    "inner_node q (put_key sep x cs)"
    using insert_separator_run [OF assms(2,3), of x] assms(4) by auto
  have ne: "x \<noteq> pid" using assms(1,5) by (auto simp: child_ok_def can_fetch_def)
  show ?thesis
    unfolding attach_right_def op_bind_assoc
  proof (rule at_frame_step [OF assms(1)], rule q(1))
    show "page_ok q" using inner_nodeD(1) [OF q(3)] slottedD(1) by blast
    show "page_id q = pid" using ids assms(1) q(2) by (auto simp: ids_ok_def node_meta_def)
    show "runs cached (op_bind (op_assert (\<lambda>_. True)) (\<lambda>_. op_bind (update_node x (set_parent_id pid)) k))
        (c\<lparr>content := (content c)(pid := q), changed := insert pid (changed c)\<rparr>) Q"
      by (rule runs_assert [OF TrueI], rule set_parent_step)
        (use assms(5) assms(6) [OF q(3,2)] ne in \<open>auto simp: child_ok_def can_fetch_def\<close>)
  qed
qed

subsection \<open>A tree with a separator to be added\<close>

definition small_mark :: "mark \<Rightarrow> bool" where
  "small_mark e \<longleftrightarrow> length (fst e) + (case snd e of None \<Rightarrow> 0 | Some v \<Rightarrow> length v) + 8 \<le> 1010"

lemma small_cost:
  "small_mark (k, None) \<Longrightarrow> cost child_tail (k, x) \<le> 1010" "small_mark (k, Some v) \<Longrightarrow> cost leaf_tail (k, v) \<le> 1010"
  "small_mark (k, Some v) \<Longrightarrow> small_mark (k, None)"
  by (simp_all add: small_mark_def cost_def encode_leaf encode_child internal_cell_size_def leaf_cell_size_def)

text \<open>The left half \<open>l\<close> of a split node is in its place in the tree; the right half
  \<open>r\<close> is not yet connected to it.\<close>

definition pending :: "'r cache \<Rightarrow> ctx list \<Rightarrow> tree \<Rightarrow> bytes \<Rightarrow> tree \<Rightarrow> bool" where
  "pending c path l sep r \<longleftrightarrow> quiet c \<and> root_id c = tid (plug path l) \<and> path_at (content c) path (tid l) \<and>
     tree_at (content c) (path_parent path) l \<and> (\<exists>q. tree_at (content c) q r) \<and>
     ordered (path_before path @ flat l @ (sep, None) # flat r @ path_after path) \<and>
     distinct (path_pages path @ pages l @ pages r) \<and>
     set (path_pages path @ pages l @ pages r) \<subseteq> allocated_ids c \<and>
     linked (content c) INVALID_PAGE_ID (path_left path @ leaf_ids l @ leaf_ids r @ path_right path)"

definition stores_marks :: "'r cache \<Rightarrow> mark list \<Rightarrow> 'r cache \<Rightarrow> bool" where
  "stores_marks c es c' \<longleftrightarrow> (\<exists>t. stores c' t \<and> flat t = es) \<and> capacity c' = capacity c \<and> others c' = others c"

lemma small_single: "small_mark (sep, None) \<Longrightarrow> fits child_tail [(sep, x)]"
  using small_cost(1) [of sep x] by (simp add: fits_space space_def)

lemma tid_sub: "set (pages t) \<subseteq> A \<Longrightarrow> tid t \<in> A"
  using tid_in_pages by blast

lemma tids_apart:
  "set (pages l) \<inter> set (pages r) = {} \<Longrightarrow> tid l \<notin> set (pages r) \<and> tid r \<notin> set (pages l) \<and> tid l \<noteq> tid r"
  by (metis disjoint_iff tid_in_pages)

lemma fresh_inner:
  obtains q where "insert_separator sep x (set_first_child fc (init_internal pid par (fresh_page pid))) = (Inr (fits child_tail [(sep, x)]), q)"
    "fits child_tail [(sep, x)] \<Longrightarrow> inner_node q [(sep, x)]" "page_id q = pid" "first_child q = fc" "parent_id q = par"
proof -
  note F = init_inner_node [of "fresh_page pid" pid par]
  have "inner_node (set_first_child fc (init_internal pid par (fresh_page pid))) []" using F(1) by simp
  from insert_separator_run [OF this, of sep x] F(3) show ?thesis
    by (auto simp: node_meta_def intro: that)
qed

lemma new_root_stores:
  assumes "pending c [] l sep r" and new: "new \<notin> allocated_ids c" "new \<noteq> INVALID_PAGE_ID"
    and q: "inner_node q [(sep, tid r)]" "first_child q = tid l" "parent_id q = INVALID_PAGE_ID"
  defines "w \<equiv> (content c)(new := q, tid l := set_parent_id new (content c (tid l)), tid r := set_parent_id new (content c (tid r)))"
  shows "new \<noteq> tid l" "new \<noteq> tid r" "tid l \<noteq> tid r"
    "stores_marks c (flat l @ (sep, None) # flat r) (c\<lparr>content := w, allocated_ids := insert new (allocated_ids c), growth := g,
      root_id := new, saved_root := new\<rparr>)" (is "stores_marks _ _ ?c")
proof -
  note P = assms(1) [unfolded pending_def]
  have out: "new \<notin> set (pages l)" "new \<notin> set (pages r)" "tid l \<noteq> tid r"
    "set (pages l) \<inter> {tid r, tid l} = {tid l}" "set (pages r) \<inter> {tid r, tid l} = {tid r}" "new \<noteq> tid l" "new \<noteq> tid r"
    using P new(1) tids_apart [of l r] tid_sub [of l "allocated_ids c"] tid_sub [of r "allocated_ids c"] by auto
  then show "new \<noteq> tid l" "new \<noteq> tid r" "tid l \<noteq> tid r" by blast+
  have w: "w = reparented {tid r, tid l} new ((content c)(new := q))"
    using out by (auto simp: w_def reparented_def fun_eq_iff)
  have "tree_at w new l" "tree_at w new r" unfolding w using P out by (auto intro!: tree_at_reparented)
  moreover have "w new = q" using out by (simp add: w reparented_def)
  moreover have "new \<notin> set (leaf_ids l)" "new \<notin> set (leaf_ids r)" using out leaf_ids_pages by blast+
  then have "linked w INVALID_PAGE_ID (leaf_ids l @ leaf_ids r)" unfolding w using P by simp
  ultimately have "stores ?c (Inner new l [(sep, r)])" using P out new q by (auto simp: stores_def quiet_def)
  then show "stores_marks c (flat l @ (sep, None) # flat r) ?c"
    by (auto simp: stores_marks_def intro!: exI [of _ "Inner new l [(sep, r)]"])
qed

lemma create_new_root_runs:
  assumes "pending c [] l sep r" "0 < capacity c" "0 < growth c" "small_mark (sep, None)"
  shows "runs cached (create_new_root (tid l) sep (tid r)) c (\<lambda>_ c'. stores_marks c (flat l @ (sep, None) # flat r) c')"
  unfolding create_new_root_def
proof (rule fresh_step)
  note P = assms(1) [unfolded pending_def]
  show "card (dom (pinned c)) < capacity c" "0 < growth c" using P assms(2,3) by (simp_all add: quiet_def)
  fix new fid assume new: "new \<notin> allocated_ids c" "new \<noteq> INVALID_PAGE_ID"
  obtain q where q: "insert_separator sep (tid r) (set_first_child (tid l) (init_internal new INVALID_PAGE_ID (fresh_page new))) = (Inr True, q)"
    "inner_node q [(sep, tid r)]" "page_id q = new" "first_child q = tid l" "parent_id q = INVALID_PAGE_ID"
    using fresh_inner [of sep "tid r" "tid l" new INVALID_PAGE_ID] small_single [OF assms(4), of "tid r"] by auto
  have "page_ok (fresh_page new)" by simp
  note F = init_inner_node [OF this, of new INVALID_PAGE_ID]
  note S = new_root_stores(1-3) [OF assms(1) new q(2,4,5)] new_root_stores(4) [OF assms(1) new q(2,4,5), of "growth c - 1"]
  have alive: "child_ok d x" if "x = tid l \<or> x = tid r" "content d x = content c x \<or> content d x = set_parent_id new (content c x)"
    "pinned d = Map.empty" "changed d = {}" "allocated_ids d = insert new (allocated_ids c)" "capacity d = capacity c" for d x
    using that P assms(2) tree_at_node_page [of "content c" _ l] tree_at_node_page [of "content c" _ r]
      tid_sub [of l "allocated_ids c"] tid_sub [of r "allocated_ids c"] node_page_links(1) by (auto simp: child_ok_def can_fetch_def)
  have ini: "page_ok (init_internal new INVALID_PAGE_ID (fresh_page new))" "page_id (init_internal new INVALID_PAGE_ID (fresh_page new)) = new"
    "Node_check (init_internal new INVALID_PAGE_ID (fresh_page new))"
    using F Node_check_node(2) node_pageI(2) by (auto simp: node_meta_def node_page_def)
  have "page_ok (set_first_child (tid l) (init_internal new INVALID_PAGE_ID (fresh_page new)))" "page_ok q"
    using nodes_ok(2) [OF node_link(5) [OF F(1)]] nodes_ok(2) [OF q(2)] by simp_all
  note ini = ini this q(3)
  show "runs cached (case (new, fid) of (new_root_id, fid) \<Rightarrow>
     op_bind (page_set fid (init_internal new_root_id INVALID_PAGE_ID)) (\<lambda>_.
     op_bind (mk_node fid) (\<lambda>_.
     op_bind (page_set fid (set_first_child (tid l))) (\<lambda>_.
     op_bind (at_frame fid (insert_separator sep (tid r))) (\<lambda>ok.
     op_bind (op_assert (\<lambda>_. ok)) (\<lambda>_.
     op_bind (unpin_page new_root_id True) (\<lambda>_.
     op_bind (update_node (tid l) (set_parent_id new_root_id)) (\<lambda>_.
     op_bind (update_node (tid r) (set_parent_id new_root_id)) (\<lambda>_.
     op_bind (op_modify (\<lambda>s. s\<lparr>tree_root := new_root_id\<rparr>)) (\<lambda>_.
     persist_root))))))))))
     (c\<lparr>content := (content c)(new := fresh_page new), pinned := (pinned c)(new \<mapsto> fid),
        allocated_ids := insert new (allocated_ids c), growth := growth c - 1\<rparr>)
     (\<lambda>_ c'. stores_marks c (flat l @ (sep, None) # flat r) c')"
    unfolding prod.case
    apply (rule page_set_step [of _ new], simp, simp add: ini, simp add: ini)
    apply (rule mk_node_step [of _ new], simp, simp add: ini)
    apply (rule page_set_step [of _ new], simp, simp add: ini, simp add: ini)
    apply (rule at_frame_step [of _ new], simp, simp, rule q(1), rule ini, rule ini)
    apply (rule runs_assert [OF TrueI])
    apply (rule unpin_step, simp, simp)
    apply (rule set_parent_step)
    subgoal using P S(1-3) by (intro alive) (auto simp: quiet_def)
    apply (rule set_parent_step)
    subgoal using P S(1-3) by (intro alive) (auto simp: quiet_def)
    apply (rule root_step)
    apply (rule runs_last)
    apply (rule persist_root_step)
    apply (rule runs_return)
    subgoal using P S by (simp add: quiet_def)
    done
qed

subsection \<open>The parent of a split node\<close>

text \<open>The place of the new separator in the parent: after the cells \<open>xs\<close>, before \<open>ys\<close>.\<close>

definition node_pending :: "'r cache \<Rightarrow> ctx list \<Rightarrow> page_id \<Rightarrow> tree \<Rightarrow> (bytes \<times> tree) list \<Rightarrow> bytes \<Rightarrow> tree \<Rightarrow>
    (bytes \<times> tree) list \<Rightarrow> bool" where
  "node_pending c path pid t xs sep r ys \<longleftrightarrow> quiet c \<and> root_id c = tid (plug path (Inner pid t (xs @ ys))) \<and>
     path_at (content c) path pid \<and> tree_at (content c) (path_parent path) (Inner pid t (xs @ ys)) \<and>
     (\<exists>q. tree_at (content c) q r) \<and>
     ordered (path_before path @ flat t @ flats (xs @ (sep, r) # ys) @ path_after path) \<and>
     distinct (path_pages path @ pid # pages t @ all_pages (xs @ (sep, r) # ys)) \<and>
     set (path_pages path @ pid # pages t @ all_pages (xs @ (sep, r) # ys)) \<subseteq> allocated_ids c \<and>
     linked (content c) INVALID_PAGE_ID (path_left path @ leaf_ids t @ all_leaf_ids (xs @ (sep, r) # ys) @ path_right path)"

lemma pending_node:
  assumes "pending c (x # path) l sep r"
  obtains t xs ys where "node_pending c path (ctx_id x) t xs sep r ys"
    "path_before (x # path) @ flat l @ (sep, None) # flat r @ path_after (x # path) =
     path_before path @ flat t @ flats (xs @ (sep, r) # ys) @ path_after path"
proof (cases x)
  case (First pid rs)
  show ?thesis
    by (rule that [of l "[]" rs])
      (use assms First tree_at_fill [of "content c" "path_parent path" x l] in
        \<open>auto simp: pending_def node_pending_def path_parent_def\<close>)
next
  case (Later pid t ls k rs)
  show ?thesis
    by (rule that [of t "ls @ [(k, l)]" rs])
      (use assms Later tree_at_fill [of "content c" "path_parent path" x l] in
        \<open>auto simp: pending_def node_pending_def path_parent_def\<close>)
qed

lemma tid_plug: "tid a = tid b \<Longrightarrow> tid (plug path a) = tid (plug path b)"
  by (induction path arbitrary: a b) auto

lemma node_pendingD:
  assumes "node_pending c path pid t xs sep r ys"
  shows "s \<in> insert t (snd ` set (xs @ ys)) \<Longrightarrow> tree_at (content c) pid s" "\<exists>q. tree_at (content c) q r"
    "s \<in> insert t (snd ` set (xs @ ys)) \<Longrightarrow> set (pages s) \<inter> set (pages r) = {}"
    "s \<in> insert t (snd ` set (xs @ (sep, r) # ys)) \<Longrightarrow> pid \<notin> set (pages s) \<and> set (path_pages path) \<inter> set (pages s) = {} \<and> distinct (pages s)"
    "s \<in> insert t (snd ` set (xs @ (sep, r) # ys)) \<Longrightarrow> set (pages s) \<subseteq> allocated_ids c"
    "pid \<notin> set (path_pages path)" "tid r \<notin> set (path_pages path)" "tid r \<noteq> pid"
proof -
  note N = assms [unfolded node_pending_def]
  show "s \<in> insert t (snd ` set (xs @ ys)) \<Longrightarrow> tree_at (content c) pid s" "\<exists>q. tree_at (content c) q r"
    using N by auto
  show "s \<in> insert t (snd ` set (xs @ ys)) \<Longrightarrow> set (pages s) \<inter> set (pages r) = {}"
    using N by auto
  show a: "s \<in> insert t (snd ` set (xs @ (sep, r) # ys)) \<Longrightarrow> pid \<notin> set (pages s) \<and> set (path_pages path) \<inter> set (pages s) = {} \<and> distinct (pages s)"
    for s using N by (auto simp: distinct_concat_iff)
  show "s \<in> insert t (snd ` set (xs @ (sep, r) # ys)) \<Longrightarrow> set (pages s) \<subseteq> allocated_ids c"
    using N by auto
  show "pid \<notin> set (path_pages path)" using N by auto
  have r: "r \<in> insert t (snd ` set (xs @ (sep, r) # ys))" by simp
  show "tid r \<notin> set (path_pages path)" "tid r \<noteq> pid" using a [OF r] tid_in_pages [of r] by blast+
qed

lemma path_linked:
  assumes "linked v l pids" "pid \<notin> set pids"
  shows "linked (reparented P q (v(pid := p))) l pids"
  using assms by simp

lemma attached:
  assumes "node_pending c path pid t xs sep r ys" "inner_node q (ids xs @ (sep, tid r) # ids ys)"
    "node_meta q = node_meta (content c pid)"
  shows "stores (c\<lparr>content := (content c)(pid := q, tid r := set_parent_id pid (content c (tid r)))\<rparr>)
    (plug path (Inner pid t (xs @ (sep, r) # ys)))"
proof -
  note N = assms(1) [unfolded node_pending_def] and D = node_pendingD [OF assms(1)]
  let ?n = "Inner pid t (xs @ (sep, r) # ys)" and ?v = "(content c)(pid := q)"
  let ?w = "reparented {tid r} pid ?v"
  have w: "(content c)(pid := q, tid r := set_parent_id pid (content c (tid r))) = ?w"
    using D(8) by (auto simp: reparented_def fun_eq_iff)
  have "tree_at ?w pid s" if s: "s \<in> insert t (snd ` set (xs @ ys))" for s
  proof -
    have "set (pages s) \<inter> {tid r} = {}" using D(3) [OF s] tid_in_pages [of r] by blast
    moreover have "pid \<notin> set (pages s)" using D(4) [of s] s by auto
    ultimately show ?thesis using D(1) [OF s] by (simp add: tree_at_reparented_other)
  qed
  moreover have "tree_at ?w pid r"
  proof -
    have "pid \<notin> set (pages r)" "distinct (pages r)" using D(4) [of r] by auto
    with D(2) show ?thesis by (auto intro!: tree_at_reparented)
  qed
  moreover have "?w pid = q" using D(8) by (auto simp: reparented_def)
  ultimately have "tree_at ?w (path_parent path) ?n"
    using assms(2,3) N by (auto simp: node_meta_def)
  moreover have "path_at ?w path pid" using N D(6,7) by (simp add: path_at_reparented)
  moreover have "linked ?w INVALID_PAGE_ID (leaf_ids (plug path ?n))"
  proof -
    have "pid \<notin> set (leaf_ids (plug path ?n))"
    proof -
      have "pid \<notin> set (leaf_ids s)" if "s \<in> insert t (snd ` set (xs @ (sep, r) # ys))" for s
        using D(4) [OF that] leaf_ids_pages by blast
      then show ?thesis using path_leaves [of path] D(6) by (auto simp: leaf_ids_plug)
    qed
    then show ?thesis using N by (intro path_linked) (auto simp: leaf_ids_plug)
  qed
  ultimately show ?thesis
    unfolding w using N tid_plug [of "Inner pid t (xs @ ys)" ?n path]
    by (auto simp: stores_def tree_at_plug quiet_def flat_plug pages_plug_distinct pages_plug_set)
qed

lemma kids_apart:
  assumes "distinct (concat (map pages ks))" "s \<in> set ks"
  shows "set (pages s) \<inter> tid ` set ks = {tid s}"
proof -
  have "tid s' = tid s" if s': "s' \<in> set ks" "tid s' \<in> set (pages s)" for s'
  proof (cases "pages s = pages s'")
    case True
    then show ?thesis by (cases s; cases s') auto
  next
    case False
    then have "set (pages s) \<inter> set (pages s') = {}" using assms s'(1) by (auto simp: distinct_concat_iff)
    then show ?thesis using s'(2) tid_in_pages [of s'] by blast
  qed
  then show ?thesis using assms(2) tid_in_pages [of s] by blast
qed

text \<open>A parent is split into \<open>pid\<close>, with the children \<open>t\<close> and those of \<open>ls\<close>, and \<open>new\<close>, with the children \<open>u\<close> and
  those of \<open>rs\<close>; one of them is the right half \<open>r\<close> of the node below.\<close>

lemma split_kids:
  assumes np: "node_pending c path pid t xs sep r ys" and ws: "ls @ (psep, u) # rs = xs @ (sep, r) # ys" and new: "new \<notin> allocated_ids c"
  defines "ks \<equiv> (t # map snd ls) @ u # map snd rs"
  shows "distinct (concat (map pages ks))" "r \<in> set ks" "tid r \<noteq> new" "pid \<noteq> new" "new \<notin> set (path_pages path)"
    "s \<in> set ks \<Longrightarrow> pid \<notin> set (pages s) \<and> set (path_pages path) \<inter> set (pages s) = {} \<and> distinct (pages s) \<and>
      set (pages s) \<subseteq> allocated_ids c \<and> new \<notin> set (pages s)"
    "s \<in> set ks \<Longrightarrow> s \<noteq> r \<Longrightarrow> s \<in> insert t (snd ` set (xs @ ys))"
    "(k, r) \<in> set ls \<Longrightarrow> k = sep" "r \<noteq> t"
proof -
  note N = np [unfolded node_pending_def, folded ws] and D = node_pendingD [OF np, folded ws]
  have kid: "s \<in> insert t (snd ` set (ls @ (psep, u) # rs))" if "s \<in> set ks" for s using that by (auto simp: ks_def)
  show "distinct (concat (map pages ks))" using N by (simp add: comp_def ks_def)
  show all: "s \<in> set ks \<Longrightarrow> pid \<notin> set (pages s) \<and> set (path_pages path) \<inter> set (pages s) = {} \<and> distinct (pages s) \<and>
      set (pages s) \<subseteq> allocated_ids c \<and> new \<notin> set (pages s)" for s
    using D(4) [OF kid [of s]] D(5) [OF kid [of s]] new by blast
  show "s \<in> set ks \<Longrightarrow> s \<noteq> r \<Longrightarrow> s \<in> insert t (snd ` set (xs @ ys))" using kid unfolding ws by auto
  have "r \<in> snd ` set (xs @ (sep, r) # ys)" by simp
  then show rk: "r \<in> set ks" unfolding ws [symmetric] by (auto simp: ks_def)
  show "tid r \<noteq> new" "pid \<noteq> new" "new \<notin> set (path_pages path)" using all [OF rk] N new tid_in_pages [of r] by auto
  have rt: "r \<noteq> t \<and> r \<notin> snd ` set (xs @ ys)" using D(3) [of r] tid_in_pages [of r] by blast
  then show "r \<noteq> t" by blast
  show "k = sep" if "(k, r) \<in> set ls"
  proof -
    have "(k, r) \<in> set (ls @ (psep, u) # rs)" using that by simp
    then have "(k, r) \<in> set (xs @ (sep, r) # ys)" unfolding ws .
    then show ?thesis using rt by force
  qed
qed

text \<open>Before the children of \<open>new\<close> get their new parent.\<close>

lemma split_kids_stay:
  fixes p q :: page and z :: page_id
  assumes np: "node_pending c path pid t xs sep r ys" and ws: "ls @ (psep, u) # rs = xs @ (sep, r) # ys" and new: "new \<notin> allocated_ids c"
  defines "w \<equiv> (content c)(pid := p, new := q, tid r := set_parent_id z (content c (tid r)))"
  shows "s \<in> set ((t # map snd ls) @ u # map snd rs) \<Longrightarrow> s \<noteq> r \<Longrightarrow> tree_at w pid s" "tree_at w z r"
proof -
  note D = node_pendingD [OF np] and K = split_kids [OF np ws new]
  show "tree_at w pid s" if s: "s \<in> set ((t # map snd ls) @ u # map snd rs)" "s \<noteq> r"
  proof -
    have "tid r \<notin> set (pages s)" using D(3) [OF K(7) [OF s]] tid_in_pages [of r] by blast
    then show ?thesis using D(1) [OF K(7) [OF s]] K(6) [OF s(1)] by (simp add: w_def)
  qed
  have "w = reparented {tid r} z ((content c)(pid := p, new := q))"
    using D(8) K(3) by (auto simp: w_def reparented_def fun_eq_iff)
  then show "tree_at w z r" using D(2) K(6) [OF K(2)] by (auto intro!: tree_at_reparented)
qed

text \<open>Afterwards.\<close>

lemma split_kids_moved:
  fixes p q :: page
  assumes np: "node_pending c path pid t xs sep r ys" and ws: "ls @ (psep, u) # rs = xs @ (sep, r) # ys" and new: "new \<notin> allocated_ids c"
    and z: "(sep, r) \<in> set ls \<Longrightarrow> z = pid"
  defines "v \<equiv> reparented (insert (tid u) (snd ` set (ids rs))) new
      ((content c)(pid := p, new := q, tid r := set_parent_id z (content c (tid r))))"
  shows "s \<in> set (t # map snd ls) \<Longrightarrow> tree_at v pid s" "s \<in> set (u # map snd rs) \<Longrightarrow> tree_at v new s"
    "x \<in> insert (tid u) (snd ` set (ids rs)) \<Longrightarrow> x \<in> allocated_ids c \<and> x \<notin> set (path_pages path) \<and> x \<noteq> pid"
proof -
  note K = split_kids [OF np ws new] and W = split_kids_stay [OF np ws new, where p = p and q = q and z = z]
  let ?A = "t # map snd ls" and ?B = "u # map snd rs" and ?P = "insert (tid u) (snd ` set (ids rs))"
  have P: "?P = tid ` set ?B" by (auto simp: image_image)
  show "tree_at v pid s" if s: "s \<in> set ?A"
  proof -
    have "?P \<subseteq> set (concat (map pages ?B))" using tid_in_pages unfolding P by fastforce
    moreover have "set (concat (map pages ?A)) \<inter> set (concat (map pages ?B)) = {}"
      using K(1) unfolding map_append concat_append distinct_append by blast
    moreover have "set (pages s) \<subseteq> set (concat (map pages ?A))" using s by auto
    ultimately have "set (pages s) \<inter> ?P = {}" by blast
    moreover have "s = r \<Longrightarrow> z = pid" using s z K(8,9) by auto
    then have "tree_at ((content c)(pid := p, new := q, tid r := set_parent_id z (content c (tid r)))) pid s"
      using W s by (cases "s = r") auto
    ultimately show ?thesis by (simp add: v_def tree_at_reparented_other)
  qed
  show "tree_at v new s" if s: "s \<in> set ?B"
  proof -
    have sk: "s \<in> set (?A @ ?B)" using s by auto
    have "set (pages s) \<inter> ?P = {tid s}" unfolding P by (rule kids_apart) (use K(1) s in auto)
    moreover obtain z' where "tree_at ((content c)(pid := p, new := q, tid r := set_parent_id z (content c (tid r)))) z' s"
      using W(1) [OF sk] W(2) by (cases "s = r") auto
    ultimately show ?thesis using K(6) [OF sk] by (auto simp: v_def intro: tree_at_reparented)
  qed
  show "x \<in> allocated_ids c \<and> x \<notin> set (path_pages path) \<and> x \<noteq> pid" if x: "x \<in> ?P"
  proof -
    obtain s where s: "s \<in> set (?A @ ?B)" "x = tid s" using x unfolding P by auto
    then show ?thesis using K(6) [OF s(1)] tid_in_pages [of s] by blast
  qed
qed

lemma split_linked:
  assumes np: "node_pending c path pid t xs sep r ys" and ws: "ls @ (psep, u) # rs = xs @ (sep, r) # ys" and new: "new \<notin> allocated_ids c"
  shows "linked ((content c)(pid := p, new := q, tid r := set_parent_id z (content c (tid r)))) INVALID_PAGE_ID
    (path_left path @ leaf_ids t @ all_leaf_ids (ls @ (psep, u) # rs) @ path_right path)" (is "linked ?w _ ?ids")
proof -
  note N = np [unfolded node_pending_def, folded ws] and D = node_pendingD [OF np] and K = split_kids [OF np ws new]
  have "x \<noteq> pid \<and> x \<noteq> new" if "x \<in> set (leaf_ids s)" "s \<in> set ((t # map snd ls) @ u # map snd rs)" for x s
    using that leaf_ids_pages [of s] K(6) [OF that(2)] by blast
  moreover have "x \<noteq> pid \<and> x \<noteq> new" if "x \<in> set (path_left path @ path_right path)" for x
    using that path_leaves [of path] D(6) K(5) unfolding set_append by blast
  ultimately have same: "x \<noteq> pid \<and> x \<noteq> new" if "x \<in> set ?ids" for x using that by fastforce
  have "linked ?w INVALID_PAGE_ID ?ids \<longleftrightarrow> linked (content c) INVALID_PAGE_ID ?ids"
    by (rule linked_cong) (use same in simp)
  with N show ?thesis by blast
qed

lemma split_pending:
  assumes np: "node_pending c path pid t xs sep r ys" and ws: "ls @ (psep, u) # rs = xs @ (sep, r) # ys"
    and new: "new \<notin> allocated_ids c"
    and p: "inner_node p (ids ls)" "first_child p = tid t" "parent_id p = path_parent path"
    and q: "inner_node q (ids rs)" "first_child q = tid u"
    and z: "(sep, r) \<in> set ls \<Longrightarrow> z = pid"
  defines "w \<equiv> (content c)(pid := p, new := q, tid r := set_parent_id z (content c (tid r)))"
  shows "pending (c\<lparr>content := reparented (insert (tid u) (snd ` set (ids rs))) new w,
      allocated_ids := insert new (allocated_ids c), growth := g\<rparr>) path (Inner pid t ls) psep (Inner new u rs)"
proof -
  note N = np [unfolded node_pending_def, folded ws] and D = node_pendingD [OF np] and K = split_kids [OF np ws new]
  note M = split_kids_moved(1,2) [OF np ws new z, where p = p and q = q, folded w_def] split_kids_moved(3) [OF np ws new z]
  let ?P = "insert (tid u) (snd ` set (ids rs))"
  let ?v = "reparented ?P new w"
  have vp: "?v pid = p" "?v new = q" "parent_id (?v new) = parent_id q"
    using M(3) new K(3,4) D(8) by (auto simp: reparented_def w_def)
  have "tree_at ?v (path_parent path) (Inner pid t ls)" using M(1) p vp by auto
  moreover have "tree_at ?v (parent_id q) (Inner new u rs)" using M(2) q vp by auto
  moreover have "path_at ?v path pid"
  proof -
    have "set (path_pages path) \<inter> ?P = {}" using M(3) by blast
    then have "path_at ?v path pid \<longleftrightarrow> path_at w path pid" by (rule path_at_reparented)
    moreover have "path_at w path pid \<longleftrightarrow> path_at (content c) path pid"
      unfolding w_def path_at_other [OF D(7)] path_at_other [OF K(5)] path_at_other [OF D(6)] by (rule refl)
    ultimately show ?thesis using N by blast
  qed
  moreover have "linked ?v INVALID_PAGE_ID (path_left path @ leaf_ids t @ all_leaf_ids (ls @ (psep, u) # rs) @ path_right path)"
    unfolding linked_reparented w_def by (rule split_linked [OF np ws new])
  moreover have "distinct (path_pages path @ pages (Inner pid t ls) @ pages (Inner new u rs))"
    using N new by auto
  ultimately show ?thesis
    using N tid_plug [of "Inner pid t (xs @ ys)" "Inner pid t ls" path]
    by (auto simp: pending_def quiet_def)
qed

lemma kids_distinct: "distinct (concat (map pages ks)) \<Longrightarrow> distinct (map tid ks)"
proof (induction ks)
  case (Cons k ks)
  have "tid k \<noteq> tid s" if "s \<in> set ks" for s
    using Cons.prems that tids_apart [of k s] by fastforce
  with Cons show ?case by auto
qed simp

lemma quiet_restore: "quiet c \<Longrightarrow> c\<lparr>content := v, pinned := \<lambda>_. None, changed := {}\<rparr> = c\<lparr>content := v\<rparr>"
  by (simp add: quiet_def)

text \<open>After a split the children of the new node get their parent pointers; both halves are released.\<close>

abbreviation finish_ops where
  "finish_ops pid new gid k \<equiv> op_bind (reparent_children gid new) (\<lambda>_. op_bind (unpin_page pid True) (\<lambda>_. op_bind (unpin_page new True) k))"

lemma finish_split:
  assumes np: "node_pending c path pid t xs sep r ys" and ws: "ls @ (psep, u) # rs = xs @ (sep, r) # ys"
    and new: "new \<notin> allocated_ids c" and cap: "3 \<le> capacity c"
    and p: "inner_node p (ids ls)" "first_child p = tid t" "parent_id p = path_parent path"
    and q: "inner_node q (ids rs)" "first_child q = tid u"
    and z: "(sep, r) \<in> set ls \<Longrightarrow> z = pid" and ch: "ch \<subseteq> {pid, new}"
    and w: "w = (content c)(pid := p, new := q, tid r := set_parent_id z (content c (tid r)))"
    and cont: "\<And>c'. pending c' path (Inner pid t ls) psep (Inner new u rs) \<Longrightarrow> capacity c' = capacity c \<Longrightarrow>
      growth c' = growth c - 1 \<Longrightarrow> others c' = others c \<Longrightarrow> runs cached (k ()) c' Q"
  shows "runs cached (finish_ops pid new gid k)
    (c\<lparr>content := w, pinned := [pid \<mapsto> fid, new \<mapsto> gid], changed := ch,
       allocated_ids := insert new (allocated_ids c), growth := growth c - 1\<rparr>) Q"
proof -
  note N = np [unfolded node_pending_def, folded ws] and D = node_pendingD [OF np] and K = split_kids [OF np ws new]
  note W = split_kids_stay [OF np ws new, where p = p and q = q and z = z, folded w]
  let ?d = "c\<lparr>content := w, pinned := [pid \<mapsto> fid, new \<mapsto> gid], changed := ch,
       allocated_ids := insert new (allocated_ids c), growth := growth c - 1\<rparr>"
  have ch': "ch - {pid} - {new} = {}" and qc: "quiet c" using N ch by auto
  have "child_ok ?d (tid s)" if s: "s \<in> set (u # map snd rs)" for s
  proof -
    have sk: "s \<in> set ((t # map snd ls) @ u # map snd rs)" using s by auto
    obtain z' where "tree_at w z' s" using W(1) [OF sk] W(2) by (cases "s = r") auto
    then show ?thesis using K(4) K(6) [OF sk] tid_in_pages [of s] tree_at_node_page ch cap by (fastforce simp: child_ok_def can_fetch_def)
  qed
  then have ok: "\<forall>x \<in> insert (tid u) (snd ` set (ids rs)). child_ok ?d x" by auto
  have "distinct (concat (map pages (u # map snd rs)))" using K(1) by simp
  from kids_distinct [OF this] have dis: "distinct (tid u # map snd (ids rs))" by (simp add: comp_def)
  have pn: "pid \<noteq> new" by (rule K(4))
  have wn: "w new = q" using w pn K(3) by simp
  show ?thesis
  proof (rule reparent_children_step [where cs = "ids rs"])
    show "runs cached (op_bind (unpin_page pid True) (\<lambda>_. op_bind (unpin_page new True) k))
        (?d\<lparr>content := reparented (insert (first_child (content ?d new)) (snd ` set (ids rs))) new (content ?d)\<rparr>) Q"
      apply (rule unpin_step, simp, simp)
      apply (rule unpin_step, use pn in simp, simp)
      apply (rule cont)
      subgoal
        using split_pending [OF np ws new p q z, of "growth c - 1", folded w] pn wn q(2)
          quiet_restore [OF qc, of "reparented (insert (tid u) (snd ` set (ids rs))) new w"]
        by (simp add: fun_upd_twist ch')
      by simp_all
  qed (use q ok dis wn in auto)
qed

text \<open>The separator in the cells of the parent, before and after a split.\<close>

lemma sep_between:
  assumes "ordered (as @ flats (xs @ (sep, r) # ys) @ bs)"
  shows "\<forall>c \<in> set xs. fst c < sep" "\<forall>c \<in> set ys. sep < fst c"
proof -
  have "\<forall>e \<in> set (flats xs). mark_less e (sep, None)" "\<forall>e \<in> set (flats ys). mark_less (sep, None) e"
    using assms by (simp_all add: sorted_wrt_append)
  then show "\<forall>c \<in> set xs. fst c < sep" "\<forall>c \<in> set ys. sep < fst c" by (fastforce simp: mark_less_def)+
qed

lemma put_between_cells:
  "\<forall>c \<in> set xs. fst c < sep \<Longrightarrow> \<forall>c \<in> set ys. sep < fst c \<Longrightarrow> put_key sep r (xs @ ys) = xs @ (sep, r) # ys"
  using put_key_append_right [of ys sep r "[]"] by (simp add: put_key_append_left)

lemma put_key_ids: "put_key k (tid r) (ids ts) = ids (put_key k r ts)"
  by (induction ts) auto

lemma put_split:
  assumes "sorted_keys ts" "m < length ts" "sep \<notin> fst ` set ts" "ts ! m = (psep, u)"
  shows "put_key sep r ts = (if sep < psep then put_key sep r (take m ts) @ (psep, u) # drop (Suc m) ts
    else take m ts @ (psep, u) # put_key sep r (drop (Suc m) ts))"
proof -
  have ts: "ts = take m ts @ (psep, u) # drop (Suc m) ts" using id_take_nth_drop [OF assms(2)] assms(4) by simp
  have so: "sorted_keys (take m ts @ (psep, u) # drop (Suc m) ts)" using assms(1) ts by simp
  have ne: "sep \<noteq> psep" using assms(2-4) nth_mem by force
  show ?thesis
  proof (cases "sep < psep")
    case True
    then have "\<forall>c \<in> set ((psep, u) # drop (Suc m) ts). sep < fst c" using so by (auto simp: sorted_wrt_append)
    from put_key_append_right [OF this, of r "take m ts"] show ?thesis using ts True by simp
  next
    case False
    then have "\<forall>c \<in> set (take m ts @ [(psep, u)]). fst c < sep" using so ne by (auto simp: sorted_wrt_append)
    from put_key_append_left [OF this, of r "drop (Suc m) ts"] show ?thesis using ts False by simp
  qed
qed

definition split_parent :: "nat \<Rightarrow> page_id \<Rightarrow> bytes \<Rightarrow> page_id \<Rightarrow> page_id list \<Rightarrow> ('a btree_scheme, unit) op" where
  "split_parent fid par sep_key right_id breadcrumbs =
     op_bind new_page (\<lambda>(par_right_id, gid).
     op_bind (page_get fid parent_id) (\<lambda>grand.
     op_bind (page_set gid (init_internal par_right_id grand)) (\<lambda>_.
     op_bind (mk_node gid) (\<lambda>_.
     op_bind (at_frames fid gid split_into) (\<lambda>parent_sep.
     op_bind (if sep_key < parent_sep then attach_right fid par sep_key right_id
              else attach_right gid par_right_id sep_key right_id) (\<lambda>_.
     op_bind (reparent_children gid par_right_id) (\<lambda>_.
     op_bind (unpin_page par True) (\<lambda>_.
     op_bind (unpin_page par_right_id True) (\<lambda>_.
     insert_into_parent par parent_sep par_right_id breadcrumbs)))))))))"

lemma insert_into_parent_Cons:
  "insert_into_parent left_id sep_key right_id (par # breadcrumbs) =
     op_bind (fetch_checked par) (\<lambda>fid.
     op_bind (mk_node fid) (\<lambda>_.
     op_bind (page_read fid (is_full (internal_cell_size (length sep_key)))) (\<lambda>full.
     op_bind (if full then at_frame fid compact else op_return ()) (\<lambda>_.
     op_bind (page_read fid (is_full (internal_cell_size (length sep_key)))) (\<lambda>full'.
     if \<not> full' then op_bind (attach_right fid par sep_key right_id) (\<lambda>_. unpin_page par True)
     else split_parent fid par sep_key right_id breadcrumbs)))))"
  by (simp only: insert_into_parent.simps split_parent_def)

lemma sep_place:
  assumes "node_pending c path pid t xs sep r ys"
  shows "put_key sep r (xs @ ys) = xs @ (sep, r) # ys" "sep \<notin> fst ` set (xs @ ys)" "sep \<notin> fst ` set (ids (xs @ ys))"
    "put_key sep (tid r) (ids (xs @ ys)) = ids xs @ (sep, tid r) # ids ys"
proof -
  have between: "\<forall>c \<in> set xs. fst c < sep" "\<forall>c \<in> set ys. sep < fst c"
    using sep_between [of "path_before path @ flat t" xs sep r ys "path_after path"] assms by (simp_all add: node_pending_def)
  note put = put_between_cells [OF between]
  show "put_key sep r (xs @ ys) = xs @ (sep, r) # ys" by (rule put)
  show "sep \<notin> fst ` set (xs @ ys)" "sep \<notin> fst ` set (ids (xs @ ys))" using between by (force simp: image_image)+
  show "put_key sep (tid r) (ids (xs @ ys)) = ids xs @ (sep, tid r) # ids ys" unfolding put_key_ids put by simp
qed

text \<open>What the split of a full parent gives, in terms of the children.\<close>

lemma split_parent:
  fixes xs ys :: "(bytes \<times> tree) list"
  defines "ts \<equiv> xs @ ys"
  assumes small: "\<forall>e \<in> set (flats (xs @ (sep, r) # ys)). small_mark e"
    and q0: "inner_node q0 (ids ts)" "compacted child_tail q0 (ids ts)"
    and nofit: "\<not> fits child_tail (put_key sep (tid r) (ids ts))" and ini: "inner_node ini []"
  obtains m p q psep u where "m < length ts" "ts ! m = (psep, u)" "split_into (q0, ini) = (Inr psep, (p, q))"
    "inner_node p (ids (take m ts))" "inner_node q (ids (drop (Suc m) ts))" "node_meta p = node_meta q0"
    "node_meta q = node_meta (set_first_child (tid u) (set_parent_id (parent_id q0) ini))"
    "fits child_tail (put_key sep (tid r) (ids (take m ts)))" "fits child_tail (put_key sep (tid r) (ids (drop (Suc m) ts)))"
proof -
  have costs: "\<forall>c \<in> set (ids ts). cost child_tail c \<le> 1010" "cost child_tail (sep, tid r) \<le> 1010"
  proof -
    have "(fst x, None) \<in> set (flats (xs @ (sep, r) # ys))" if "x \<in> set (xs @ (sep, r) # ys)" for x using that by auto
    then have "small_mark (fst x, None)" if "x \<in> set (xs @ (sep, r) # ys)" for x using that small by blast
    then show "\<forall>c \<in> set (ids ts). cost child_tail c \<le> 1010" "cost child_tail (sep, tid r) \<le> 1010"
      using small_cost(1) by (fastforce simp: ts_def)+
  qed
  have "2 \<le> length (ids ts)" by (rule overflow_length [OF nofit costs])
  from split_internal_run [OF q0 this ini]
  obtain m p q where m: "split_into (q0, ini) = (Inr (fst (ids ts ! m)), (p, q))" "m < length (ids ts)"
    "inner_node p (take m (ids ts))" "inner_node q (drop (Suc m) (ids ts))" "node_meta p = node_meta q0"
    "node_meta q = node_meta (set_first_child (snd (ids ts ! m)) (set_parent_id (parent_id q0) ini))"
    "m = 1 \<or> space child_tail (take m (ids ts)) \<le> space child_tail (ids ts) div 2"
    "space child_tail (ids ts) div 2 < space child_tail (take (Suc m) (ids ts))"
    by (elim exE conjE) (rule that; assumption)
  note room = split_room [OF inner_nodeD(1) [OF q0(1)] m(2,7,8) costs]
  obtain psep u where u: "ts ! m = (psep, u)" by fastforce
  have ml: "m < length ts" using m(2) by simp
  have mid: "ids ts ! m = (psep, tid u)" using nth_map [OF ml, of "\<lambda>c. (fst c, tid (snd c))"] u by simp
  show ?thesis
    by (rule that [of m psep u p q]) (use ml u m mid room in \<open>simp_all add: take_map drop_map\<close>)
qed

text \<open>The separator goes into the half it belongs to; then the split is finished.\<close>

lemma split_attach:
  assumes ts: "ts = xs @ ys" and np: "node_pending c path pid t xs sep r ys" and cap: "3 \<le> capacity c" and new: "new \<notin> allocated_ids c"
    and m: "m < length ts" "ts ! m = (psep, u)"
    and p: "inner_node p (ids (take m ts))" "first_child p = tid t" "parent_id p = path_parent path"
    and q: "inner_node q (ids (drop (Suc m) ts))" "first_child q = tid u"
    and room: "fits child_tail (put_key sep (tid r) (ids (take m ts)))"
      "fits child_tail (put_key sep (tid r) (ids (drop (Suc m) ts)))"
    and sk: "sorted_keys ts"
    and cont: "\<And>c' ls rs. pending c' path (Inner pid t ls) psep (Inner new u rs) \<Longrightarrow> capacity c' = capacity c \<Longrightarrow>
      growth c' = growth c - 1 \<Longrightarrow> others c' = others c \<Longrightarrow> ls @ (psep, u) # rs = xs @ (sep, r) # ys \<Longrightarrow> runs cached (k ()) c' Q"
  shows "runs cached (op_bind (if sep < psep then attach_right fid pid sep (tid r) else attach_right gid new sep (tid r)) (\<lambda>_.
     finish_ops pid new gid k))
     (c\<lparr>content := (content c)(pid := p, new := q), pinned := [pid \<mapsto> fid, new \<mapsto> gid], changed := {new, pid},
        allocated_ids := insert new (allocated_ids c), growth := growth c - 1\<rparr>) Q" (is "runs _ _ ?e _")
proof -
  note N = np [unfolded node_pending_def] and D = node_pendingD [OF np]
  note P = sep_place [OF np, folded ts]
  note put = put_split [OF sk m(1) P(2) m(2), of r, unfolded P(1)]
  have pn: "pid \<noteq> new" using N new by auto
  have r: "tid r \<noteq> pid" "tid r \<noteq> new" "tid r \<in> allocated_ids c"
    using D(5) [of r] D(8) tid_sub [of r "allocated_ids c"] new by auto
  have "node_page (content c (tid r))" using D(2) tree_at_node_page by blast
  then have ok: "child_ok ?e (tid r)" using r cap pn by (auto simp: child_ok_def can_fetch_def)
  have "fst ` set (take m ts) \<subseteq> fst ` set ts" "fst ` set (drop (Suc m) ts) \<subseteq> fst ` set ts"
    using set_take_subset [of m ts] set_drop_subset [of "Suc m" ts] by blast+
  then have "sep \<notin> fst ` set (take m ts)" "sep \<notin> fst ` set (drop (Suc m) ts)" using P(2) by blast+
  moreover have "fst ` set (ids zs) = fst ` set zs" for zs :: "(bytes \<times> tree) list" by (simp add: image_image)
  ultimately have out: "sep \<notin> fst ` set (ids (take m ts))" "sep \<notin> fst ` set (ids (drop (Suc m) ts))" "(sep, r) \<notin> set (take m ts)"
    using image_eqI [of sep fst "(sep, r)"] by auto
  show ?thesis
  proof (cases "sep < psep")
    case True
    then have w: "put_key sep r (take m ts) @ (psep, u) # drop (Suc m) ts = xs @ (sep, r) # ys" using put by simp
    have "runs cached (op_bind (attach_right fid pid sep (tid r)) (\<lambda>_.
      finish_ops pid new gid k)) ?e Q"
    proof (rule attach_right_step [where cs = "ids (take m ts)"])
      fix q1 assume q1: "inner_node q1 (put_key sep (tid r) (ids (take m ts)))" "node_meta q1 = node_meta (content ?e pid)"
      then have "inner_node q1 (ids (put_key sep r (take m ts)))" "first_child q1 = tid t" "parent_id q1 = path_parent path"
        using p(2,3) pn by (auto simp: put_key_ids node_meta_def)
      then have "runs cached (finish_ops pid new gid k)
          (c\<lparr>content := (content c)(pid := q1, new := q, tid r := set_parent_id pid (content c (tid r))), pinned := [pid \<mapsto> fid, new \<mapsto> gid],
             changed := {new, pid}, allocated_ids := insert new (allocated_ids c), growth := growth c - 1\<rparr>) Q"
        by (intro finish_split [OF np w new cap _ _ _ q, where z = pid]) (auto simp: out(3) simp del: One_nat_def intro: cont [OF _ _ _ _ w])
      then show "runs cached (finish_ops pid new gid k)
          (?e\<lparr>content := (content ?e)(pid := q1, tid r := set_parent_id pid (content ?e (tid r))), changed := insert pid (changed ?e)\<rparr>) Q"
        using r pn by (simp add: fun_upd_twist [of new pid] insert_commute)
    qed (use p pn ok room out in auto)
    with True show ?thesis by simp
  next
    case False
    then have w: "take m ts @ (psep, u) # put_key sep r (drop (Suc m) ts) = xs @ (sep, r) # ys" using put by simp
    have "runs cached (op_bind (attach_right gid new sep (tid r)) (\<lambda>_.
      finish_ops pid new gid k)) ?e Q"
    proof (rule attach_right_step [where cs = "ids (drop (Suc m) ts)"])
      fix q1 assume q1: "inner_node q1 (put_key sep (tid r) (ids (drop (Suc m) ts)))" "node_meta q1 = node_meta (content ?e new)"
      then have "inner_node q1 (ids (put_key sep r (drop (Suc m) ts)))" "first_child q1 = tid u"
        using q(2) by (auto simp: put_key_ids node_meta_def)
      then have "runs cached (finish_ops pid new gid k)
          (c\<lparr>content := (content c)(pid := p, new := q1, tid r := set_parent_id new (content c (tid r))), pinned := [pid \<mapsto> fid, new \<mapsto> gid],
             changed := {new, pid}, allocated_ids := insert new (allocated_ids c), growth := growth c - 1\<rparr>) Q"
        by (intro finish_split [OF np w new cap p, where z = new]) (auto simp: out(3) simp del: One_nat_def intro: cont [OF _ _ _ _ w])
      then show "runs cached (finish_ops pid new gid k)
          (?e\<lparr>content := (content ?e)(new := q1, tid r := set_parent_id new (content ?e (tid r))), changed := insert new (changed ?e)\<rparr>) Q"
        using r pn by simp
    qed (use q pn ok room out in auto)
    with False show ?thesis by simp
  qed
qed

lemma split_rest_runs:
  assumes np: "node_pending c path pid t xs sep r ys" and cap: "3 \<le> capacity c"
    and small: "\<forall>e \<in> set (flats (xs @ (sep, r) # ys)). small_mark e"
    and q0: "inner_node q0 (ids (xs @ ys))" "compacted child_tail q0 (ids (xs @ ys))" "node_meta q0 = node_meta (content c pid)"
    and nofit: "\<not> fits child_tail (put_key sep (tid r) (ids (xs @ ys)))" and new: "new \<notin> allocated_ids c"
    and IH: "\<And>c' l psep r'. pending c' path l psep r' \<Longrightarrow> tid l = pid \<Longrightarrow> tid r' = new \<Longrightarrow> capacity c' = capacity c \<Longrightarrow>
      growth c' = growth c - 1 \<Longrightarrow> others c' = others c \<Longrightarrow>
      flat l @ (psep, None) # flat r' = flat t @ flats (xs @ (sep, r) # ys) \<Longrightarrow>
      runs cached (insert_into_parent pid psep new bcs) c' Q"
  shows "runs cached (op_bind (page_get fid parent_id) (\<lambda>grand.
     op_bind (page_set gid (init_internal new grand)) (\<lambda>_.
     op_bind (mk_node gid) (\<lambda>_.
     op_bind (at_frames fid gid split_into) (\<lambda>parent_sep.
     op_bind (if sep < parent_sep then attach_right fid pid sep (tid r) else attach_right gid new sep (tid r)) (\<lambda>_.
     op_bind (reparent_children gid new) (\<lambda>_.
     op_bind (unpin_page pid True) (\<lambda>_.
     op_bind (unpin_page new True) (\<lambda>_.
     insert_into_parent pid parent_sep new bcs)))))))))
     (c\<lparr>content := (content c)(pid := q0, new := fresh_page new), pinned := [pid \<mapsto> fid, new \<mapsto> gid], changed := {pid},
        allocated_ids := insert new (allocated_ids c), growth := growth c - 1\<rparr>) Q" (is "runs _ _ ?d _")
proof (rule with_ids)
  assume "ids_ok ?d"
  note N = np [unfolded node_pending_def] and D = node_pendingD [OF np]
  define ts where ts: "ts = xs @ ys"
  note q0 = q0 [folded ts] and nofit = nofit [folded ts]
  let ?ini = "init_internal new (parent_id q0) (fresh_page new)"
  have "page_ok (fresh_page new)" by simp
  note F = init_inner_node [OF this, of new "parent_id q0"]
  have ini: "page_ok ?ini" "page_id ?ini = new" "Node_check ?ini"
    using F nodes_ok(2) Node_check_node(2) by (auto simp: node_meta_def)
  have pn: "pid \<noteq> new" using N new by auto
  have sk: "sorted_keys ts" using inner_nodeD(3) [OF q0(1)] by (simp add: comp_def)
  obtain m p q psep u where m: "m < length ts" "ts ! m = (psep, u)" and sp: "split_into (q0, ?ini) = (Inr psep, (p, q))"
    and p: "inner_node p (ids (take m ts))" and q: "inner_node q (ids (drop (Suc m) ts))"
    and meta: "node_meta p = node_meta q0" "node_meta q = node_meta (set_first_child (tid u) (set_parent_id (parent_id q0) ?ini))"
    and room: "fits child_tail (put_key sep (tid r) (ids (take m ts)))"
      "fits child_tail (put_key sep (tid r) (ids (drop (Suc m) ts)))"
    by (rule split_parent [OF small q0(1,2) [unfolded ts] nofit [unfolded ts] F(1), folded ts])
  have pm: "first_child p = tid t" "parent_id p = path_parent path" "page_id p = pid"
    using meta(1) q0(3) N \<open>ids_ok ?d\<close> pn by (auto simp: node_meta_def ids_ok_def)
  have qm: "first_child q = tid u" "page_id q = new" using meta(2) ini(2) by (auto simp: node_meta_def)
  have fin: "runs cached (insert_into_parent pid psep new bcs) c' Q"
    if "pending c' path (Inner pid t ls) psep (Inner new u rs)" "capacity c' = capacity c" "growth c' = growth c - 1"
      "others c' = others c" "ls @ (psep, u) # rs = xs @ (sep, r) # ys" for c' ls rs
    by (rule IH [OF that(1)]) (simp_all add: that(2-4) that(5) [symmetric] del: One_nat_def)
  have rest: "runs cached (op_bind (if sep < psep then attach_right fid pid sep (tid r) else attach_right gid new sep (tid r)) (\<lambda>_.
      finish_ops pid new gid (\<lambda>_. insert_into_parent pid psep new bcs)))
     (c\<lparr>content := (content c)(pid := p, new := q), pinned := [pid \<mapsto> fid, new \<mapsto> gid], changed := {new, pid},
        allocated_ids := insert new (allocated_ids c), growth := growth c - 1\<rparr>) Q"
    by (rule split_attach [OF ts np cap new m p pm(1,2) q qm(1) room sk]) (rule fin; assumption)
  show ?thesis
    apply (rule page_get_step [of _ pid], use pn in simp)
    apply (rule page_set_step [of _ new], simp, use ini pn in simp, use ini pn in simp)
    apply (rule mk_node_step [of _ new], simp, use ini pn in simp)
    apply (rule at_frames_step [of _ pid _ new], use pn in simp, simp, use pn sp in simp)
    subgoal using p nodes_ok by blast
    subgoal by (rule pm(3))
    subgoal using q nodes_ok by blast
    subgoal by (rule qm(2))
    subgoal using rest by (simp add: pn fun_upd_twist [of new pid] insert_commute)
    done
qed

lemma split_parent_runs:
  assumes np: "node_pending c path pid t xs sep r ys" and cap: "3 \<le> capacity c" and gr: "0 < growth c"
    and small: "\<forall>e \<in> set (flats (xs @ (sep, r) # ys)). small_mark e"
    and q0: "inner_node q0 (ids (xs @ ys))" "compacted child_tail q0 (ids (xs @ ys))" "node_meta q0 = node_meta (content c pid)"
    and nofit: "\<not> fits child_tail (put_key sep (tid r) (ids (xs @ ys)))"
    and IH: "\<And>c' l psep r'. pending c' path l psep r' \<Longrightarrow> tid l = pid \<Longrightarrow> capacity c' = capacity c \<Longrightarrow> growth c' = growth c - 1 \<Longrightarrow>
      others c' = others c \<Longrightarrow> flat l @ (psep, None) # flat r' = flat t @ flats (xs @ (sep, r) # ys) \<Longrightarrow>
      runs cached (insert_into_parent pid psep (tid r') bcs) c' Q"
  shows "runs cached (split_parent fid pid sep (tid r) bcs)
    (c\<lparr>content := (content c)(pid := q0), pinned := [pid \<mapsto> fid], changed := {pid}\<rparr>) Q"
  unfolding split_parent_def
  apply (rule fresh_step)
  subgoal using cap by simp
  subgoal using gr by simp
  subgoal premises prems for new gid
  proof -
    have new: "new \<notin> allocated_ids c" using prems by simp
    have ih: "runs cached (insert_into_parent pid psep new bcs) c' Q"
      if "pending c' path l psep r'" "tid l = pid" "tid r' = new" "capacity c' = capacity c" "growth c' = growth c - 1"
        "others c' = others c" "flat l @ (psep, None) # flat r' = flat t @ flats (xs @ (sep, r) # ys)" for c' l psep r'
      using IH [OF that(1,2,4-)] that(3) by simp
    show ?thesis
      by (simp del: One_nat_def, rule split_rest_runs [OF np cap small q0 nofit new], rule ih)
  qed
  done

text \<open>A separator that fits: the node and the right half are connected.\<close>

lemma attach_runs:
  assumes np: "node_pending c path pid t xs sep r ys" and cap: "3 \<le> capacity c"
    and q0: "inner_node q0 (ids (xs @ ys))" "node_meta q0 = node_meta (content c pid)"
    and fit: "fits child_tail (put_key sep (tid r) (ids (xs @ ys)))"
  shows "runs cached (op_bind (attach_right fid pid sep (tid r)) (\<lambda>_. unpin_page pid True))
    (c\<lparr>content := (content c)(pid := q0), pinned := [pid \<mapsto> fid], changed := {pid}\<rparr>)
    (\<lambda>_ d. stores_marks c (path_before path @ flat t @ flats (xs @ (sep, r) # ys) @ path_after path) d)" (is "runs _ _ ?e _")
proof -
  note N = np [unfolded node_pending_def] and D = node_pendingD [OF np] and P = sep_place [OF np]
  have q: "quiet c" "pinned c = Map.empty" "changed c = {}" using N by (simp_all add: quiet_def)
  have "node_page (content c (tid r))" using D(2) tree_at_node_page by blast
  then have ok: "child_ok ?e (tid r)"
    using D(5) [of r] D(8) tid_sub [of r "allocated_ids c"] cap by (auto simp: child_ok_def can_fetch_def)
  show ?thesis
  proof (rule attach_right_step [of _ pid _ "ids (xs @ ys)"])
    fix q1 assume q1: "inner_node q1 (put_key sep (tid r) (ids (xs @ ys)))" "node_meta q1 = node_meta (content ?e pid)"
    from attached [OF np q1(1) [unfolded P(4)]] q1(2) q0(2)
    have "stores_marks c (path_before path @ flat t @ flats (xs @ (sep, r) # ys) @ path_after path)
        (c\<lparr>content := (content c)(pid := q1, tid r := set_parent_id pid (content c (tid r)))\<rparr>)"
      by (auto simp: stores_marks_def flat_plug)
    then show "runs cached (unpin_page pid True)
       (?e\<lparr>content := (content ?e)(pid := q1, tid r := set_parent_id pid (content ?e (tid r))), changed := insert pid (changed ?e)\<rparr>)
       (\<lambda>_ d. stores_marks c (path_before path @ flat t @ flats (xs @ (sep, r) # ys) @ path_after path) d)"
      using q D(8) by - (rule runs_last, rule unpin_step, simp, simp, rule runs_return, simp add: quiet_restore)
  qed (use q0(1) P(3) fit ok in simp_all)
qed

text \<open>One level: the parent takes the separator, or is split and its own parent follows.\<close>

lemma parent_runs:
  assumes np: "node_pending c path pid t xs sep r ys" and cap: "3 \<le> capacity c" and grow: "1 < growth c"
    and sm: "\<forall>e \<in> set (flats (xs @ (sep, r) # ys)). small_mark e"
  defines "es \<equiv> path_before path @ flat t @ flats (xs @ (sep, r) # ys) @ path_after path"
  assumes IH: "\<And>c' l psep r'. pending c' path l psep r' \<Longrightarrow> tid l = pid \<Longrightarrow> capacity c' = capacity c \<Longrightarrow> growth c' = growth c - 1 \<Longrightarrow>
      others c' = others c \<Longrightarrow> flat l @ (psep, None) # flat r' = flat t @ flats (xs @ (sep, r) # ys) \<Longrightarrow>
      runs cached (insert_into_parent pid psep (tid r') bcs) c' (\<lambda>_ d. stores_marks c es d)"
  shows "runs cached (insert_into_parent left_id sep (tid r) (pid # bcs)) c (\<lambda>_ d. stores_marks c es d)"
  unfolding insert_into_parent_Cons
proof (rule fetch_step)
  note N = np [unfolded node_pending_def] and P = sep_place [OF np]
  have inn: "inner_node (content c pid) (ids (xs @ ys))" and q: "pinned c = Map.empty" "changed c = {}"
    using N by (simp_all add: quiet_def)
  show "can_fetch c pid" using N q cap by (simp add: can_fetch_def)
  fix fid
  let ?c = "c\<lparr>pinned := (pinned c)(pid \<mapsto> fid)\<rparr>"
  have "Node_check (content c pid)" using inn Node_check_node(2) by blast
  then show "runs cached (op_bind (mk_node fid) (\<lambda>_.
     op_bind (page_read fid (is_full (internal_cell_size (length sep)))) (\<lambda>full.
     op_bind (if full then at_frame fid compact else op_return ()) (\<lambda>_.
     op_bind (page_read fid (is_full (internal_cell_size (length sep)))) (\<lambda>full'.
     if \<not> full' then op_bind (attach_right fid pid sep (tid r)) (\<lambda>_. unpin_page pid True)
     else split_parent fid pid sep (tid r) bcs))))) ?c (\<lambda>_ d. stores_marks c es d)"
  proof (intro mk_node_step [of _ pid] make_room_step [of _ pid _ "ids (xs @ ys)" _ "tid r"])
    fix q0 assume q0: "inner_node q0 (ids (xs @ ys))" "node_meta q0 = node_meta (content ?c pid)"
      "fits child_tail (put_key sep (tid r) (ids (xs @ ys))) \<or> compacted child_tail q0 (ids (xs @ ys))"
    have meta: "node_meta q0 = node_meta (content c pid)" using q0(2) by simp
    let ?e = "c\<lparr>content := (content c)(pid := q0), pinned := [pid \<mapsto> fid], changed := {pid}\<rparr>"
    show "runs cached (if \<not> \<not> fits child_tail (put_key sep (tid r) (ids (xs @ ys)))
       then op_bind (attach_right fid pid sep (tid r)) (\<lambda>_. unpin_page pid True)
       else split_parent fid pid sep (tid r) bcs)
       (?c\<lparr>content := (content ?c)(pid := q0), changed := insert pid (changed ?c)\<rparr>) (\<lambda>_ d. stores_marks c es d)"
    proof (cases "fits child_tail (put_key sep (tid r) (ids (xs @ ys)))")
      case False
      then have "runs cached (split_parent fid pid sep (tid r) bcs) ?e (\<lambda>_ d. stores_marks c es d)"
        by (intro split_parent_runs [OF np cap _ sm q0(1) _ meta False, where bcs = bcs] IH)
          (use grow q0(3) in \<open>simp_all del: One_nat_def\<close>)
      with False q show ?thesis by simp
    next
      case True
      with attach_runs [OF np cap q0(1) meta True, of fid] q show ?thesis by (simp add: es_def)
    qed
  qed (use inn P(3) in simp_all)
qed

lemma insert_into_parent_runs:
  assumes "pending c path l sep r" "3 \<le> capacity c" "length path < growth c"
    "\<forall>e \<in> set (path_before path @ flat l @ (sep, None) # flat r @ path_after path). small_mark e"
  shows "runs cached (insert_into_parent (tid l) sep (tid r) (map ctx_id path)) c
    (\<lambda>_ c'. stores_marks c (path_before path @ flat l @ (sep, None) # flat r @ path_after path) c')"
  using assms
proof (induction path arbitrary: c l sep r)
  case Nil
  then show ?case using create_new_root_runs [of c l sep r] by simp
next
  case (Cons x path)
  obtain t xs ys where np: "node_pending c path (ctx_id x) t xs sep r ys"
    and es: "path_before (x # path) @ flat l @ (sep, None) # flat r @ path_after (x # path) =
      path_before path @ flat t @ flats (xs @ (sep, r) # ys) @ path_after path"
    by (rule pending_node [OF Cons.prems(1)])
  note small = Cons.prems(4) [unfolded es]
  let ?es = "path_before path @ flat t @ flats (xs @ (sep, r) # ys) @ path_after path"
  have sm: "\<forall>e \<in> set (flats (xs @ (sep, r) # ys)). small_mark e"
    using small unfolding set_append [of "path_before path"] set_append [of "flat t"] set_append [of "flats (xs @ (sep, r) # ys)"] by blast
  have grow: "1 < growth c" using Cons.prems(3) by simp
  show ?case
    unfolding es list.map
  proof (rule parent_runs [OF np Cons.prems(2) grow sm])
    fix c' l psep r' assume p: "pending c' path l psep r'" and c': "tid l = ctx_id x" "capacity c' = capacity c" "growth c' = growth c - 1"
      "others c' = others c" and f: "flat l @ (psep, None) # flat r' = flat t @ flats (xs @ (sep, r) # ys)"
    have e: "path_before path @ flat l @ (psep, None) # flat r' @ path_after path = ?es"
      using arg_cong [OF f, of "\<lambda>es. path_before path @ es @ path_after path"] by simp
    have "runs cached (insert_into_parent (tid l) psep (tid r') (map ctx_id path)) c' (\<lambda>_ d. stores_marks c' ?es d)"
      by (rule Cons.IH [OF p, unfolded e]) (use c' small Cons.prems(2,3) in simp_all)
    then show "runs cached (insert_into_parent (ctx_id x) psep (tid r') (map ctx_id path)) c' (\<lambda>_ d. stores_marks c ?es d)"
      using c' by (simp add: stores_marks_def)
  qed
qed

end
