(* ===== verification/Btree_Update.thy ===== *)
theory Btree_Update
  imports Btree_Insert
begin

section \<open>Inserting and removing an entry\<close>

text \<open>
  \<open>btree_insert\<close> and \<open>btree_remove\<close> on the tree the pages represent: the leaf the
  key belongs to is changed in place, or split in two with the entry put into one of the halves.
\<close>

subsection \<open>The marks of a changed leaf\<close>

lemma mark_less_entry [simp]: "mark_less a (k, Some v) \<longleftrightarrow> below k a" "mark_less (k, Some v) b \<longleftrightarrow> k < fst b"
  by (auto simp: mark_less_def)

text \<open>An ordered sequence with the entries of a leaf in the middle: only their keys matter.\<close>

lemma ordered_around:
  "ordered (as @ marks cs @ bs) \<longleftrightarrow> ordered as \<and> ordered bs \<and> (\<forall>a \<in> set as. \<forall>b \<in> set bs. mark_less a b) \<and> sorted_keys cs \<and>
     (\<forall>k \<in> fst ` set cs. (\<forall>a \<in> set as. below k a) \<and> (\<forall>b \<in> set bs. k < fst b))"
proof -
  have "(\<forall>a \<in> set as. \<forall>c \<in> set (marks cs @ bs). mark_less a c) \<longleftrightarrow>
      (\<forall>a \<in> set as. \<forall>b \<in> set bs. mark_less a b) \<and> (\<forall>k \<in> fst ` set cs. \<forall>a \<in> set as. below k a)"
    unfolding set_append ball_Un set_map ball_simps(9) mark_less_entry(1) by blast
  moreover have "(\<forall>c \<in> set (marks cs). \<forall>b \<in> set bs. mark_less c b) \<longleftrightarrow> (\<forall>k \<in> fst ` set cs. \<forall>b \<in> set bs. k < fst b)"
    unfolding set_map ball_simps(9) mark_less_entry(2) by blast
  ultimately show ?thesis unfolding sorted_wrt_append [of mark_less] ordered_marks by blast
qed

lemma ordered_put:
  assumes "ordered (as @ marks cs @ bs)" "\<forall>e \<in> set as. below key e" "\<forall>e \<in> set bs. key < fst e"
  shows "ordered (as @ marks (put_key key v cs) @ bs)"
  using assms unfolding ordered_around set_put_key by (simp only: sorted_put_key) blast

lemma ordered_del: "ordered (as @ marks cs @ bs) \<Longrightarrow> ordered (as @ marks (del_key key cs) @ bs)"
  using del_key_subset [of key cs] unfolding ordered_around by (simp only: sorted_del_key) blast

lemma ordered_split:
  assumes "ordered (as @ marks (ls @ rs) @ bs)" "ls \<noteq> []" "rs \<noteq> []" "\<forall>c \<in> set ls. fst c < sep" "\<forall>c \<in> set rs. sep \<le> fst c"
  shows "ordered (as @ marks ls @ (sep, None) # marks rs @ bs)"
proof -
  note O = assms(1) [unfolded ordered_around]
  obtain x y where x: "x \<in> set ls" "y \<in> set rs" using assms(2,3) by (meson list.set_sel(1))
  have "\<forall>a \<in> set as. below (fst x) a" "\<forall>b \<in> set bs. fst y < fst b" using O x by simp_all
  moreover have "fst x < sep" "sep \<le> fst y" using x assms(4,5) by blast+
  ultimately have "\<forall>a \<in> set as. mark_less a (sep, None)" "\<forall>b \<in> set bs. mark_less (sep, None) b"
    unfolding mark_less_def by (auto dest: bspec)
  moreover have "ordered (marks rs @ bs)" "ordered (as @ marks ls)"
    using ordered_around [of "[]" rs bs] ordered_around [of as ls "[]"] O
    by (simp_all add: sorted_wrt_append image_Un)
  moreover have "\<forall>c \<in> set (marks ls). mark_less c (sep, None)" "\<forall>c \<in> set (marks rs). mark_less (sep, None) c"
    using assms(4,5) by (auto simp: mark_less_def)
  moreover have "\<forall>a \<in> set as. \<forall>c \<in> set (marks rs @ bs). mark_less a c" "\<forall>a \<in> set (marks ls). \<forall>c \<in> set (marks rs @ bs). mark_less a c"
    using assms(1) unfolding map_append sorted_wrt_append [of mark_less] set_append by blast+
  ultimately show ?thesis unfolding sorted_wrt_append sorted_wrt.simps set_append list.set by blast
qed

lemma split_keys:
  assumes "sorted_keys ds" "0 < m" "m < length ds"
  defines "sep \<equiv> fst (ds ! m)"
  shows "\<forall>c \<in> set (take m ds). fst c < sep" "\<forall>c \<in> set (drop m ds). sep \<le> fst c" "take m ds \<noteq> []" "drop m ds \<noteq> []"
    "put_key key v ds = (if key < sep then put_key key v (take m ds) @ drop m ds else take m ds @ put_key key v (drop m ds))"
proof -
  have ds: "ds = take m ds @ ds ! m # drop (Suc m) ds" by (rule id_take_nth_drop [OF assms(3)])
  have dm: "drop m ds = ds ! m # drop (Suc m) ds" using Cons_nth_drop_Suc [OF assms(3)] by simp
  have so: "sorted_keys (take m ds @ ds ! m # drop (Suc m) ds)" using assms(1) ds by simp
  show L: "\<forall>c \<in> set (take m ds). fst c < sep" using so unfolding sep_def sorted_keys_append by simp
  show R: "\<forall>c \<in> set (drop m ds). sep \<le> fst c" using so unfolding sep_def sorted_keys_append dm by (auto simp: less_imp_le)
  show "take m ds \<noteq> []" "drop m ds \<noteq> []" using assms(2,3) by auto
  have "put_key key v (take m ds @ drop m ds) =
      (if key < sep then put_key key v (take m ds) @ drop m ds else take m ds @ put_key key v (drop m ds))"
  proof (cases "key < sep")
    case True
    with R have "\<forall>c \<in> set (drop m ds). key < fst c" by fastforce
    from put_key_append_right [OF this, of v "take m ds"] True show ?thesis by simp
  next
    case False
    with L have "\<forall>c \<in> set (take m ds). fst c < key" by fastforce
    from put_key_append_left [OF this, of v "drop m ds"] False show ?thesis by simp
  qed
  then show "put_key key v ds = (if key < sep then put_key key v (take m ds) @ drop m ds else take m ds @ put_key key v (drop m ds))"
    by simp
qed

subsection \<open>Sibling pointers\<close>

lemma inner_left_sibling [simp]: "inner_node p ds \<Longrightarrow> inner_node (set_left_sibling i p) ds"
  by (simp add: inner_node_def)

lemma tree_at_left_sibling: "tree_at v par t \<Longrightarrow> tree_at (v(x := set_left_sibling y (v x))) par t"
  by (induction v par t rule: tree_at.induct) auto

lemma path_at_left_sibling: "path_at v path h \<Longrightarrow> path_at (v(x := set_left_sibling y (v x))) path h"
proof (induction path arbitrary: h)
  case (Cons c path)
  define w where "w = v(x := set_left_sibling y (v x))"
  have "tree_at w p s" if "tree_at v p s" for p s unfolding w_def by (rule tree_at_left_sibling [OF that])
  moreover have "inner_node (w i) ds" if "inner_node (v i) ds" for i ds using that by (auto simp: w_def)
  moreover have "first_child (w i) = first_child (v i)" "parent_id (w i) = parent_id (v i)" for i by (simp_all add: w_def)
  moreover have "path_at w path (ctx_id c)" unfolding w_def by (rule Cons.IH) (use Cons.prems in simp)
  ultimately show ?case using Cons.prems unfolding w_def [symmetric] by (cases c) auto
qed simp

lemma linked_insert:
  assumes "linked v l (as @ pid # bs)" "distinct (as @ pid # bs)" "new \<notin> set (as @ pid # bs)"
    "left_sibling p = left_sibling (v pid)" "right_sibling p = new"
    "left_sibling q = pid" "right_sibling q = right_sibling (v pid)"
    "bs \<noteq> [] \<Longrightarrow> w = v(pid := p, new := q, hd bs := set_left_sibling new (v (hd bs)))" "bs = [] \<Longrightarrow> w = v(pid := p, new := q)"
  shows "linked w l (as @ pid # new # bs)"
  using assms
proof (induction as arbitrary: l)
  case Nil
  then show ?case
  proof (cases bs)
    case (Cons b bs')
    have "linked w b bs' \<longleftrightarrow> linked v b bs'" by (rule linked_cong) (use Nil Cons in auto)
    then show ?thesis using Nil Cons by auto
  qed auto
next
  case (Cons a as)
  have "linked w a (as @ pid # new # bs)" by (rule Cons.IH) (use Cons.prems in auto)
  moreover have "left_sibling (w a) = left_sibling (v a)" "right_sibling (w a) = right_sibling (v a)"
    using Cons.prems by (cases bs; auto)+
  moreover have "hd (as @ pid # new # bs) = hd (as @ pid # bs)" by (cases as) auto
  ultimately show ?case using Cons.prems(1) by auto
qed

subsection \<open>A leaf that changes in place\<close>

definition small_tree :: "tree \<Rightarrow> bool" where
  "small_tree t \<longleftrightarrow> (\<forall>e \<in> set (flat t). small_mark e)"

lemma leaf_linked:
  assumes "linked v l (as @ pid # bs)"
  shows "right_sibling (v pid) = (if bs = [] then INVALID_PAGE_ID else hd bs)"
  using assms by (induction as arbitrary: l) auto

lemma leaf_changed:
  assumes "stores c (plug path (Leaf pid cs))" "leaf_node q ds" "node_meta q = node_meta (content c pid)"
    "ordered (path_before path @ marks ds @ path_after path)"
  shows "stores (c\<lparr>content := (content c)(pid := q)\<rparr>) (plug path (Leaf pid ds))"
proof -
  note S = assms(1) [unfolded stores_def]
  have "linked ((content c)(pid := q)) INVALID_PAGE_ID (leaf_ids (plug path (Leaf pid ds)))"
    using S linked_cong [of "leaf_ids (plug path (Leaf pid ds))" "(content c)(pid := q)" "content c"] assms(3)
    by (auto simp: leaf_ids_plug node_meta_def)
  moreover have "pid \<notin> set (path_pages path)" using S by (auto simp: pages_plug_distinct)
  ultimately show ?thesis
    using S assms(2-4) tid_plug [of "Leaf pid cs" "Leaf pid ds" path]
    by (auto simp: stores_def quiet_def tree_at_plug flat_plug pages_plug_distinct pages_plug_set node_meta_def)
qed

subsection \<open>A leaf that is split\<close>

lemma distinct_leaf_ids: "distinct (pages t) \<Longrightarrow> distinct (leaf_ids t)"
proof (induction t rule: leaf_ids.induct)
  case (2 pid t ts)
  have "distinct (all_pages ss) \<Longrightarrow> distinct (all_leaf_ids ss) \<and> set (all_leaf_ids ss) \<subseteq> set (all_pages ss)" if "set ss \<subseteq> set ts" for ss
    using that
  proof (induction ss)
    case (Cons c ss)
    then have "distinct (leaf_ids (snd c))" using 2(2) [of c] by auto
    moreover have "distinct (all_leaf_ids ss) \<and> set (all_leaf_ids ss) \<subseteq> set (all_pages ss)" using Cons by simp
    moreover have "set (pages (snd c)) \<inter> set (all_pages ss) = {}" using Cons.prems(1) by simp
    ultimately show ?case unfolding list.map concat.simps distinct_append set_append
      using leaf_ids_pages [of "snd c"] by blast
  qed simp
  moreover have "distinct (pages t)" "distinct (all_pages ts)" "set (pages t) \<inter> set (all_pages ts) = {}" using 2(3) by auto
  ultimately show ?case unfolding leaf_ids.simps distinct_append using 2(1) leaf_ids_pages [of t] by blast
qed simp

lemma tree_at_pages: "tree_at v par t \<Longrightarrow> x \<in> set (pages t) \<Longrightarrow> node_page (v x)"
  by (induction v par t rule: tree_at.induct) (auto intro: node_pageI)

lemma leaf_split_pending:
  assumes st: "stores c (plug path (Leaf pid cs))" and new: "new \<notin> allocated_ids c"
    and p: "leaf_node p ls" "parent_id p = path_parent path" "left_sibling p = left_sibling (content c pid)" "right_sibling p = new"
    and q: "leaf_node q rs" "left_sibling q = pid" "right_sibling q = right_sibling (content c pid)"
    and o: "ordered (path_before path @ marks ls @ (sep, None) # marks rs @ path_after path)"
  defines "w \<equiv> (content c)(pid := p, new := q)"
  defines "w' \<equiv> if path_right path = [] then w else w(hd (path_right path) := set_left_sibling new (w (hd (path_right path))))"
  shows "pending (c\<lparr>content := w', allocated_ids := insert new (allocated_ids c), growth := g\<rparr>) path (Leaf pid ls) sep (Leaf new rs)"
proof -
  note S = st [unfolded stores_def]
  have out: "pid \<notin> set (path_pages path)" "new \<notin> set (path_pages path)" "pid \<noteq> new"
    using S new by (auto simp: pages_plug_distinct pages_plug_set)
  have hd: "hd (path_right path) \<noteq> pid \<and> hd (path_right path) \<noteq> new" if "path_right path \<noteq> []"
    using that path_leaves [of path] out by (metis UnCI hd_in_set subsetD)
  have "path_at w path pid" using S out by (simp add: w_def tree_at_plug)
  then have "path_at w' path pid" unfolding w'_def by (simp add: path_at_left_sibling del: fun_upd_apply)
  moreover have "leaf_node (w' pid) ls" "parent_id (w' pid) = path_parent path" "leaf_node (w' new) rs"
    using p q hd out by (auto simp: w'_def w_def)
  moreover have "linked w' INVALID_PAGE_ID (path_left path @ pid # new # path_right path)"
  proof (rule linked_insert)
    show "linked (content c) INVALID_PAGE_ID (path_left path @ pid # path_right path)" using S by (simp add: leaf_ids_plug)
    have "pid \<notin> set (path_left path) \<union> set (path_right path)" "new \<notin> set (path_left path) \<union> set (path_right path)"
      using path_leaves [of path] out(1,2) by blast+
    moreover have "distinct (path_left path @ path_right path)"
      using distinct_leaf_ids [of "plug path (Leaf pid cs)"] S by (simp add: leaf_ids_plug)
    ultimately show "distinct (path_left path @ pid # path_right path)" "new \<notin> set (path_left path @ pid # path_right path)"
      using out(3) by auto
  qed (use p q hd in \<open>auto simp: w'_def w_def\<close>)
  ultimately show ?thesis
    using S o out new tid_plug [of "Leaf pid cs" "Leaf pid ls" path]
    by (auto simp: pending_def quiet_def tree_at_plug pages_plug_distinct pages_plug_set)
qed

lemma put_key_all: "\<forall>c \<in> set cs. P (fst c) \<Longrightarrow> P k \<Longrightarrow> \<forall>c \<in> set (put_key k v cs). P (fst c)"
  by (induction cs) auto

lemma put_key_Nil [simp]: "put_key k v cs \<noteq> []"
  by (cases cs) auto

text \<open>The entry goes into the half whose keys it fits in with.\<close>

text \<open>The new cell goes into the half it belongs to; the halves after the insertion are \<open>p'\<close> and \<open>q'\<close>.\<close>

definition inserted_half :: "bytes \<Rightarrow> bytes \<Rightarrow> bytes \<Rightarrow> page \<Rightarrow> page \<Rightarrow> page \<Rightarrow> page \<Rightarrow> bool" where
  "inserted_half key val sep p q p' q' \<longleftrightarrow>
     (if key < sep then insert_leaf_cell key val p = (Inr True, p') \<and> q' = q else insert_leaf_cell key val q = (Inr True, q') \<and> p' = p)"

lemma insert_into_half:
  fixes key val :: bytes and ds :: "(bytes \<times> bytes) list"
  assumes ds: "sorted_keys ds" "0 < m" "m < length ds" and p: "leaf_node p (take m ds)" and q: "leaf_node q (drop m ds)"
    and room: "fits leaf_tail (put_key key val (take m ds))" "fits leaf_tail (put_key key val (drop m ds))"
  defines "sep \<equiv> fst (ds ! m)"
  obtains p' q' ls rs where "leaf_node p' ls" "node_meta p' = node_meta p" "leaf_node q' rs" "node_meta q' = node_meta q"
    "ls @ rs = put_key key val ds" "ls \<noteq> []" "rs \<noteq> []" "\<forall>c \<in> set ls. fst c < sep" "\<forall>c \<in> set rs. sep \<le> fst c"
    "inserted_half key val sep p q p' q'"
proof -
  note K = split_keys(1-4) [OF ds, folded sep_def] split_keys(5) [OF ds, of key val, folded sep_def]
  show thesis
  proof (cases "key < sep")
    case True
    obtain p' where p': "insert_leaf_cell key val p = (Inr True, p')" "node_meta p' = node_meta p" "leaf_node p' (put_key key val (take m ds))"
      using insert_leaf_cell_run [OF p, of key val] room by auto
    have "\<forall>c \<in> set (put_key key val (take m ds)). fst c < sep" by (rule put_key_all) (use K(1) True in auto)
    then show thesis
      by (intro that [of p' "put_key key val (take m ds)" q "drop m ds"]) (use K p' q True in \<open>simp_all add: inserted_half_def\<close>)
  next
    case False
    obtain q' where q': "insert_leaf_cell key val q = (Inr True, q')" "node_meta q' = node_meta q" "leaf_node q' (put_key key val (drop m ds))"
      using insert_leaf_cell_run [OF q, of key val] room by auto
    have "\<forall>c \<in> set (put_key key val (drop m ds)). sep \<le> fst c" by (rule put_key_all) (use K(2) False in auto)
    then show thesis
      by (intro that [of p "take m ds" q' "put_key key val (drop m ds)"]) (use K q' p False in \<open>simp_all add: inserted_half_def\<close>)
  qed
qed

lemma half_step:
  assumes d: "content d pid = p" "content d new = q" "pinned d = [pid \<mapsto> fid, new \<mapsto> gid]" "changed d = {new, pid}" and pn: "pid \<noteq> new"
    and half: "inserted_half key val sep p q p' q'" "page_ok p'" "page_id p' = pid" "page_ok q'" "page_id q' = new"
    and go: "\<And>b. runs cached (k b) (d\<lparr>content := (content d)(pid := p', new := q'), changed := {new, pid}\<rparr>) Q"
  shows "runs cached (op_bind (if key < sep then at_frame fid (insert_leaf_cell key val) else at_frame gid (insert_leaf_cell key val)) k) d Q"
proof (cases "key < sep")
  case True
  then have h: "insert_leaf_cell key val p = (Inr True, p')" "q' = q" using half(1) by (simp_all add: inserted_half_def)
  have "runs cached (op_bind (at_frame fid (insert_leaf_cell key val)) k) d Q"
    by (rule at_frame_step [of _ pid], use d pn in simp, unfold d(1), rule h(1), rule half(2), rule half(3))
      (use go [of True] d pn h(2) in \<open>simp add: insert_absorb fun_upd_idem\<close>)
  then show ?thesis using True by simp
next
  case False
  then have h: "insert_leaf_cell key val q = (Inr True, q')" "p' = p" using half(1) by (simp_all add: inserted_half_def)
  have "runs cached (op_bind (at_frame gid (insert_leaf_cell key val)) k) d Q"
    by (rule at_frame_step [of _ new], use d pn in simp, unfold d(2), rule h(1), rule half(4), rule half(5))
      (use go [of True] d pn h(2) in \<open>simp add: insert_absorb fun_upd_idem\<close>)
  then show ?thesis using False by simp
qed

text \<open>What the split of a full leaf and the second insertion give.\<close>

lemma split_full_leaf:
  fixes key val :: bytes
  assumes sc: "sorted_keys cs" and q0: "leaf_node q0 (del_key key cs)" "compacted leaf_tail q0 (del_key key cs)" and ini: "leaf_node ini []"
    and nofit: "\<not> fits leaf_tail (put_key key val cs)"
    and small: "\<forall>c \<in> set cs. small_mark (fst c, Some (snd c))" "small_mark (key, Some val)"
  obtains sep p q p' q' ls rs where "split_into (q0, ini) = (Inr sep, (p, q))" "page_ok p" "page_ok q"
    "node_meta p = node_meta (set_right_sibling (page_id ini) q0)"
    "node_meta q = node_meta (set_left_sibling (page_id q0) (set_right_sibling (right_sibling q0) (set_parent_id (parent_id q0) ini)))"
    "inserted_half key val sep p q p' q'" "leaf_node p' ls" "node_meta p' = node_meta p" "leaf_node q' rs" "node_meta q' = node_meta q"
    "ls @ rs = put_key key val cs" "ls \<noteq> []" "rs \<noteq> []" "\<forall>c \<in> set ls. fst c < sep" "\<forall>c \<in> set rs. sep \<le> fst c" "sep \<in> fst ` set cs"
proof -
  define ds where "ds = del_key key cs"
  note q0 = q0 [folded ds_def]
  have sd: "sorted_keys ds" and put: "put_key key val ds = put_key key val cs" and sub: "set ds \<subseteq> set cs"
    using sc put_del_key [OF sc] del_key_subset [of key cs] by (simp_all add: ds_def)
  have costs: "\<forall>c \<in> set ds. cost leaf_tail c \<le> 1010" "cost leaf_tail (key, val) \<le> 1010"
    using sub small(1) small_cost(2) [OF small(2)] small_cost(2) by fastforce+
  have "2 \<le> length ds" by (rule overflow_length [OF _ costs]) (use nofit put in simp)
  from split_leaf_run [OF q0 this ini]
  obtain m p q where m: "split_into (q0, ini) = (Inr (fst (ds ! m)), (p, q))" "0 < m" "m < length ds"
    "leaf_node p (take m ds)" "leaf_node q (drop m ds)" "node_meta p = node_meta (set_right_sibling (page_id ini) q0)"
    "node_meta q = node_meta (set_left_sibling (page_id q0) (set_right_sibling (right_sibling q0) (set_parent_id (parent_id q0) ini)))"
    "m = 1 \<or> space leaf_tail (take m ds) \<le> space leaf_tail ds div 2"
    "space leaf_tail ds div 2 < space leaf_tail (take (Suc m) ds)"
    by (elim exE conjE) (rule that; assumption)
  have "slotted leaf_tail q0 ds" using q0(1) by (simp add: leaf_node_def)
  from split_room [OF this m(3,8,9) costs]
  have room: "fits leaf_tail (put_key key val (take m ds))" "fits leaf_tail (put_key key val (drop m ds))" by blast+
  have sep: "fst (ds ! m) \<in> fst ` set cs" using nth_mem [OF m(3)] sub by blast
  obtain p' q' ls rs where h: "leaf_node p' ls" "node_meta p' = node_meta p" "leaf_node q' rs" "node_meta q' = node_meta q"
    "ls @ rs = put_key key val ds" "ls \<noteq> []" "rs \<noteq> []" "\<forall>c \<in> set ls. fst c < fst (ds ! m)" "\<forall>c \<in> set rs. fst (ds ! m) \<le> fst c"
    "inserted_half key val (fst (ds ! m)) p q p' q'"
    by (rule insert_into_half [OF sd m(2-5) room])
  show ?thesis
    by (rule that [OF m(1) nodes_ok(1) [OF m(4)] nodes_ok(1) [OF m(5)] m(6,7) h(10,1-4) _ h(6-9) sep]) (use h(5) put in simp)
qed

definition split_and_insert :: "nat \<Rightarrow> page_id \<Rightarrow> bytes \<Rightarrow> bytes \<Rightarrow> page_id list \<Rightarrow> ('a btree_scheme, unit) op" where
  "split_and_insert fid pid key val bcs =
     op_bind new_page (\<lambda>(right_id, gid).
     op_bind (page_get fid parent_id) (\<lambda>par.
     op_bind (page_set gid (init_leaf right_id par)) (\<lambda>_.
     op_bind (mk_node gid) (\<lambda>_.
     op_bind (page_get fid right_sibling) (\<lambda>old_right_sib.
     op_bind (at_frames fid gid split_into) (\<lambda>sep_key.
     op_bind (if old_right_sib \<noteq> INVALID_PAGE_ID
              then update_node old_right_sib (set_left_sibling right_id) else op_return ()) (\<lambda>_.
     op_bind (if key < sep_key then at_frame fid (insert_leaf_cell key val)
              else at_frame gid (insert_leaf_cell key val)) (\<lambda>_.
     op_bind (unpin_page pid True) (\<lambda>_.
     op_bind (unpin_page right_id True) (\<lambda>_.
     insert_into_parent pid sep_key right_id bcs))))))))))"

lemma btree_insert_leaf:
  "btree_insert key val =
     (if leaf_cell_size (length key) (length val) + 2 > NODE_USABLE_SIZE then op_throw Invalid_argument
      else op_bind (find_leaf key) (\<lambda>(fid, bcs).
        op_bind (page_get fid page_id) (\<lambda>pid.
        op_bind (mk_node fid) (\<lambda>_.
        op_bind (at_frame fid (insert_leaf_cell key val)) (\<lambda>ok.
        if ok then unpin_page pid True else split_and_insert fid pid key val bcs)))))"
  unfolding btree_insert_def split_and_insert_def by (rule refl)

text \<open>The step that makes the new leaf the left sibling of the next one, if there is one; \<open>k\<close> is what follows.\<close>

lemma sibling_step:
  fixes c :: "'r cache"
  assumes st: "stores c (plug path (Leaf pid cs))" and cap: "3 \<le> capacity c" and new: "new \<notin> allocated_ids c"
    and ids: "ids_ok (c\<lparr>content := (content c)(pid := q0), pinned := [pid \<mapsto> fid], changed := {pid}\<rparr>)"
    and pn: "pid \<noteq> new" "pid \<in> allocated_ids c"
    and right: "rsib = (if path_right path = [] then INVALID_PAGE_ID else hd (path_right path))"
    and half: "\<And>u. u pid = p \<Longrightarrow> u new = q \<Longrightarrow> u(pid := p', new := q') = (if path_right path = [] then (content c)(pid := p', new := q')
        else (content c)(pid := p', new := q', hd (path_right path) := set_left_sibling new (((content c)(pid := p', new := q')) (hd (path_right path))))) \<Longrightarrow>
      runs cached k (c\<lparr>content := u, pinned := [pid \<mapsto> fid, new \<mapsto> gid], changed := {new, pid},
        allocated_ids := insert new (allocated_ids c), growth := growth c - 1\<rparr>) Q"
  shows "runs cached (op_bind (if rsib \<noteq> INVALID_PAGE_ID then update_node rsib (set_left_sibling new) else op_return ()) (\<lambda>_. k))
     (c\<lparr>content := (content c)(pid := p, new := q), pinned := [pid \<mapsto> fid, new \<mapsto> gid], changed := {new, pid},
        allocated_ids := insert new (allocated_ids c), growth := growth c - 1\<rparr>) Q" (is "runs _ _ ?e _")
proof -
  note S = st [unfolded stores_def]
  let ?rs = "path_right path"
  show ?thesis
  proof (cases "?rs = []")
    case True
    then show ?thesis using half [of "content ?e"] right pn True by (simp add: runs_skip)
  next
    case False
    define x where "x = hd ?rs"
    have "x \<in> set (leaf_ids (plug path (Leaf pid cs)))" "x \<in> set ?rs" using False by (simp_all add: x_def leaf_ids_plug)
    moreover have "pid \<notin> set (path_pages path)" using S by (auto simp: pages_plug_distinct)
    ultimately have x: "x \<in> set (pages (plug path (Leaf pid cs)))" "x \<noteq> pid"
      using leaf_ids_pages [of "plug path (Leaf pid cs)"] path_leaves [of path] by blast+
    have "x \<in> allocated_ids c" using x S by blast
    moreover from this have "page_id (content c x) = x" "x \<noteq> INVALID_PAGE_ID"
      using ids x(2) by (simp_all add: ids_ok_def) (metis (full_types))+
    moreover have "node_page (content c x)" using x(1) S tree_at_pages by blast
    ultimately have xa: "x \<in> allocated_ids c" "x \<noteq> new" "node_page (content c x)" "page_id (content c x) = x" "x \<noteq> INVALID_PAGE_ID"
      using new by auto
    have "runs cached (op_bind (update_node x (set_left_sibling new)) (\<lambda>_. k)) ?e Q"
      apply (rule update_node_step)
      subgoal using xa x pn cap by (simp add: can_fetch_def)
      subgoal using x xa by simp
      subgoal using x xa by (simp add: node_page_def)
      subgoal using x xa node_page_links(2) [of "content c x" new] by (simp add: node_page_def)
      subgoal using x xa by simp
      subgoal using half [of "(content c)(pid := p, new := q, x := set_left_sibling new (content c x))"] x xa pn False
        by (simp add: x_def [symmetric] fun_upd_twist)
      done
    then show ?thesis using right False xa by (simp add: x_def split del: if_split)
  qed
qed

text \<open>From the split to the call for the parent; \<open>W\<close> is the content at the end.\<close>

lemma leaf_split_rest:
  fixes c :: "'r cache"
  assumes st: "stores c (plug path (Leaf pid cs))" and cap: "3 \<le> capacity c" and new: "new \<notin> allocated_ids c"
    and ids: "ids_ok (c\<lparr>content := (content c)(pid := q0), pinned := [pid \<mapsto> fid], changed := {pid}\<rparr>)"
    and pn: "pid \<noteq> new" "pid \<in> allocated_ids c"
    and right: "rsib = (if path_right path = [] then INVALID_PAGE_ID else hd (path_right path))"
    and half: "inserted_half key val sep p q p' q'" "page_ok p'" "page_id p' = pid" "page_ok q'" "page_id q' = new"
    and W: "W = (if path_right path = [] then (content c)(pid := p', new := q')
        else (content c)(pid := p', new := q', hd (path_right path) := set_left_sibling new (((content c)(pid := p', new := q')) (hd (path_right path)))))"
    and fin: "runs cached (insert_into_parent pid sep new bcs) (c\<lparr>content := W, allocated_ids := insert new (allocated_ids c), growth := growth c - 1\<rparr>) Q"
  shows "runs cached (op_bind (if rsib \<noteq> INVALID_PAGE_ID then update_node rsib (set_left_sibling new) else op_return ()) (\<lambda>_.
     op_bind (if key < sep then at_frame fid (insert_leaf_cell key val) else at_frame gid (insert_leaf_cell key val)) (\<lambda>_.
     op_bind (unpin_page pid True) (\<lambda>_. op_bind (unpin_page new True) (\<lambda>_. insert_into_parent pid sep new bcs)))))
     (c\<lparr>content := (content c)(pid := p, new := q), pinned := [pid \<mapsto> fid, new \<mapsto> gid], changed := {new, pid},
        allocated_ids := insert new (allocated_ids c), growth := growth c - 1\<rparr>) Q"
proof (rule sibling_step [OF st cap new ids pn right, where p' = p' and q' = q', folded W])
  fix u assume u: "u pid = p" "u new = q" "u(pid := p', new := q') = W"
  let ?e = "c\<lparr>content := u, pinned := [pid \<mapsto> fid, new \<mapsto> gid], changed := {new, pid},
          allocated_ids := insert new (allocated_ids c), growth := growth c - 1\<rparr>"
  have quiet: "quiet c" and ch: "{new, pid} - {pid} - {new} = {}" using st by (auto simp: stores_def)
  show "runs cached (op_bind (if key < sep then at_frame fid (insert_leaf_cell key val) else at_frame gid (insert_leaf_cell key val)) (\<lambda>_.
     op_bind (unpin_page pid True) (\<lambda>_. op_bind (unpin_page new True) (\<lambda>_. insert_into_parent pid sep new bcs)))) ?e Q"
  proof (rule half_step [OF _ _ _ _ pn(1) half])
    show "runs cached (op_bind (unpin_page pid True) (\<lambda>_. op_bind (unpin_page new True) (\<lambda>_. insert_into_parent pid sep new bcs)))
      (?e\<lparr>content := (content ?e)(pid := p', new := q'), changed := {new, pid}\<rparr>) Q"
      apply (rule unpin_step, simp, simp)
      apply (rule unpin_step, use pn in simp, simp)
      using fin quiet pn u(3) by (simp add: ch quiet_restore del: One_nat_def)
  qed (use u in simp_all)
qed

text \<open>From the failed first attempt to insert to the call for the parent.\<close>

lemma leaf_split_step:
  fixes c :: "'r cache"
  assumes st: "stores c (plug path (Leaf pid cs))" and cap: "3 \<le> capacity c" and gr: "0 < growth c"
    and q0: "leaf_node q0 (del_key key cs)" "compacted leaf_tail q0 (del_key key cs)" "node_meta q0 = node_meta (content c pid)"
    and nofit: "\<not> fits leaf_tail (put_key key val cs)" and to: "leads_to key path"
    and small: "small_tree (plug path (Leaf pid cs))" "small_mark (key, Some val)"
    and cont: "\<And>c' ls sep rs new. pending c' path (Leaf pid ls) sep (Leaf new rs) \<Longrightarrow> capacity c' = capacity c \<Longrightarrow>
      growth c' = growth c - 1 \<Longrightarrow> others c' = others c \<Longrightarrow> ls @ rs = put_key key val cs \<Longrightarrow> sep \<in> fst ` set cs \<Longrightarrow>
      runs cached (insert_into_parent pid sep new bcs) c' Q"
  shows "runs cached (split_and_insert fid pid key val bcs)
     (c\<lparr>content := (content c)(pid := q0), pinned := [pid \<mapsto> fid], changed := {pid}\<rparr>) Q" (is "runs _ _ ?c _")
  unfolding split_and_insert_def
proof (rule with_ids, rule fresh_step)
  assume ids: "ids_ok ?c"
  show "card (dom (pinned ?c)) < capacity ?c" "0 < growth ?c" using cap gr by simp_all
  fix new gid assume new': "new \<notin> allocated_ids ?c" "new \<noteq> INVALID_PAGE_ID"
  then have new: "new \<notin> allocated_ids c" by simp
  note S = st [unfolded stores_def]
  have pn: "pid \<noteq> new" "pid \<in> allocated_ids c" using S new by (auto simp: pages_plug_set)
  let ?ini = "init_leaf new (parent_id q0) (fresh_page new)"
  have "page_ok (fresh_page new)" by simp
  note F = init_leaf_node [OF this, of new "parent_id q0"]
  have ini: "page_ok ?ini" "page_id ?ini = new" "Node_check ?ini"
    using F nodes_ok(1) Node_check_node(1) by (auto simp: node_meta_def)
  have sc: "sorted_keys cs" "\<forall>c \<in> set cs. small_mark (fst c, Some (snd c))"
    using S small(1) by (auto simp: tree_at_plug leaf_node_def small_tree_def flat_plug)
  obtain sep p q p' q' ls rs where sp: "split_into (q0, ?ini) = (Inr sep, (p, q))" "page_ok p" "page_ok q"
    and meta: "node_meta p = node_meta (set_right_sibling (page_id ?ini) q0)"
      "node_meta q = node_meta (set_left_sibling (page_id q0) (set_right_sibling (right_sibling q0) (set_parent_id (parent_id q0) ?ini)))"
    and half: "inserted_half key val sep p q p' q'"
    and pq: "leaf_node p' ls" "node_meta p' = node_meta p" "leaf_node q' rs" "node_meta q' = node_meta q"
      "ls @ rs = put_key key val cs" "ls \<noteq> []" "rs \<noteq> []" "\<forall>c \<in> set ls. fst c < sep" "\<forall>c \<in> set rs. sep \<le> fst c" "sep \<in> fst ` set cs"
    by (rule split_full_leaf [OF sc(1) q0(1,2) F(1) nofit sc(2) small(2)])
  have pm: "page_id p = pid" "page_id q = new" "parent_id p = path_parent path" "left_sibling p = left_sibling (content c pid)"
    "right_sibling p = new" "left_sibling q = pid" "right_sibling q = right_sibling (content c pid)"
    using meta q0(3) ids S pn ini(2) by (auto simp: node_meta_def ids_ok_def tree_at_plug)
  have ok: "page_ok p'" "page_id p' = pid" "page_ok q'" "page_id q' = new" using pq(1-4) pm(1,2) nodes_ok by (auto simp: node_meta_def)
  let ?rs = "path_right path" and ?w = "(content c)(pid := p', new := q')"
  define W where "W = (if ?rs = [] then ?w else ?w(hd ?rs := set_left_sibling new (?w (hd ?rs))))"
  have pend: "pending (c\<lparr>content := W, allocated_ids := insert new (allocated_ids c), growth := growth c - 1\<rparr>) path
      (Leaf pid ls) sep (Leaf new rs)"
    unfolding W_def
  proof (rule leaf_split_pending [OF st new pq(1) _ _ _ pq(3)])
    have "ordered (path_before path @ marks (ls @ rs) @ path_after path)"
      unfolding pq(5) by (rule ordered_put) (use S to in \<open>simp_all add: flat_plug leads_to_def\<close>)
    from ordered_split [OF this pq(6-9)]
    show "ordered (path_before path @ marks ls @ (sep, None) # marks rs @ path_after path)" .
  qed (use pq(2,4) pm in \<open>auto simp: node_meta_def\<close>)
  have right: "right_sibling q0 = (if ?rs = [] then INVALID_PAGE_ID else hd ?rs)"
    using leaf_linked [of "content c" INVALID_PAGE_ID "path_left path" pid ?rs] S q0(3) by (simp add: leaf_ids_plug node_meta_def)
  note rest = leaf_split_rest [OF st cap new ids pn right half ok W_def cont [OF pend], where gid = gid]
  show "runs cached (case (new, gid) of (right_id, gid) \<Rightarrow>
     op_bind (page_get fid parent_id) (\<lambda>par.
     op_bind (page_set gid (init_leaf right_id par)) (\<lambda>_.
     op_bind (mk_node gid) (\<lambda>_.
     op_bind (page_get fid right_sibling) (\<lambda>old_right_sib.
     op_bind (at_frames fid gid split_into) (\<lambda>sep_key.
     op_bind (if old_right_sib \<noteq> INVALID_PAGE_ID
              then update_node old_right_sib (set_left_sibling right_id) else op_return ()) (\<lambda>_.
     op_bind (if key < sep_key then at_frame fid (insert_leaf_cell key val)
              else at_frame gid (insert_leaf_cell key val)) (\<lambda>_.
     op_bind (unpin_page pid True) (\<lambda>_.
     op_bind (unpin_page right_id True) (\<lambda>_.
     insert_into_parent pid sep_key right_id bcs))))))))))
     (?c\<lparr>content := (content ?c)(new := fresh_page new), pinned := (pinned ?c)(new \<mapsto> gid),
        allocated_ids := insert new (allocated_ids ?c), growth := growth ?c - 1\<rparr>) Q"
    unfolding prod.case
    apply (rule page_get_step [of _ pid], use pn in simp)
    apply (rule page_set_step [of _ new], simp, use ini pn in simp, use ini pn in simp)
    apply (rule mk_node_step [of _ new], simp, use ini pn in simp)
    apply (rule page_get_step [of _ pid], use pn in simp)
    apply (rule at_frames_step [of _ pid _ new], use pn in simp, simp, use pn sp(1) in simp)
    subgoal by (rule sp(2))
    subgoal by (rule pm(1))
    subgoal by (rule sp(3))
    subgoal by (rule pm(2))
    subgoal
      using rest pq(5,10) by (simp add: pn fun_upd_twist [of new pid] insert_commute split del: if_split cong: if_cong)
    done
qed

subsection \<open>Insertion\<close>

definition updated :: "'r cache \<Rightarrow> (bytes \<times> bytes) list \<Rightarrow> 'r cache \<Rightarrow> bool" where
  "updated c cs c' \<longleftrightarrow> (\<exists>t. stores c' t \<and> small_tree t \<and> contents t = cs) \<and> capacity c' = capacity c \<and> others c' = others c"

lemma path_shorter: "length path < length (pages (plug path t))"
proof (induction path arbitrary: t)
  case Nil
  then show ?case by (cases t) auto
next
  case (Cons x path)
  have "size (mset (pages (plug path (fill x t)))) = size (mset (path_pages path)) + size (mset (pages (fill x t)))"
    by (simp add: pages_plug)
  moreover have "length ps \<le> length (path_pages ps)" for ps
  proof (induction ps)
    case (Cons y ps)
    then show ?case by (cases y) auto
  qed simp
  from this [of path] have "length path \<le> length (path_pages path)" .
  moreover have "2 \<le> length (pages (fill x t))" using fill_pages(2) [of t x] by (cases t) auto
  ultimately show ?case by simp
qed

lemma small_put:
  "small_tree (plug path (Leaf pid cs)) \<Longrightarrow> small_mark (key, Some val) \<Longrightarrow> \<forall>e \<in> set (path_before path @ marks (put_key key val cs) @ path_after path). small_mark e"
proof -
  assume s: "small_tree (plug path (Leaf pid cs))" "small_mark (key, Some val)"
  have "c = (key, val) \<or> c \<in> set cs" if "c \<in> set (put_key key val cs)" for c
    using that by (induction cs) (auto split: if_splits)
  then show ?thesis using s by (fastforce simp: small_tree_def flat_plug)
qed

lemma marks_updated:
  "stores_marks c' es d \<Longrightarrow> \<forall>e \<in> set es. small_mark e \<Longrightarrow> entries es = cs \<Longrightarrow> capacity c' = capacity c \<Longrightarrow> others c' = others c \<Longrightarrow>
   updated c cs d"
  by (auto simp: stores_marks_def updated_def small_tree_def contents_def)

lemma insert_half_runs:
  assumes "pending c' path (Leaf pid ls) sep (Leaf new rs)" "3 \<le> capacity c'" "length path < growth c'"
    and "ls @ rs = ps" "\<forall>e \<in> set (path_before path @ marks ps @ path_after path). small_mark e" "small_mark (sep, None)"
    and "capacity c' = capacity c" "others c' = others c" "cs = entries (path_before path @ marks ps @ path_after path)"
  shows "runs cached (insert_into_parent pid sep new (map ctx_id path)) c' (\<lambda>_ d. updated c cs d)"
proof -
  let ?es = "path_before path @ flat (Leaf pid ls) @ (sep, None) # flat (Leaf new rs) @ path_after path"
  have sm: "\<forall>e \<in> set ?es. small_mark e"
    using assms(6) assms(5) [folded assms(4)] by (simp add: ball_Un image_Un)
  have es: "entries ?es = cs" using assms(4,9) by auto
  have "runs cached (insert_into_parent (tid (Leaf pid ls)) sep (tid (Leaf new rs)) (map ctx_id path)) c' (\<lambda>_ d. stores_marks c' ?es d)"
    by (rule insert_into_parent_runs [OF assms(1-3) sm])
  from this [unfolded tid.simps] show ?thesis
    by (rule runs_weaken) (rule marks_updated [OF _ sm es assms(7,8)])
qed

text \<open>A root that is a leaf stays one as long as the entry fits.\<close>

definition leaf_kept :: "((bytes \<times> bytes) list \<Rightarrow> (bytes \<times> bytes) list) \<Rightarrow> tree \<Rightarrow> 'r cache \<Rightarrow> 'r cache \<Rightarrow> bool" where
  "leaf_kept f t c c' \<longleftrightarrow> (\<forall>pid cs. t = Leaf pid cs \<longrightarrow> fits leaf_tail (f cs) \<longrightarrow> stores c' (Leaf pid (f cs)) \<and> growth c' = growth c)"

lemma plug_leaf: "plug path (Leaf pid cs) = Leaf i ds \<Longrightarrow> path = []"
proof (induction path arbitrary: i ds rule: rev_induct)
  case (snoc x path)
  have "plug (path @ [x]) t = fill x (plug path t)" for t by (induction path arbitrary: t) auto
  with snoc.prems show ?case by (cases x) auto
qed simp

text \<open>A change of one leaf as a change of the contents.\<close>

lemma leaf_replaced:
  assumes "stores (c\<lparr>content := v\<rparr>) (plug path (Leaf pid (f cs)))" "\<forall>e \<in> set (path_before path @ marks (f cs) @ path_after path). small_mark e"
    and "f (contents (plug path (Leaf pid cs))) = entries (path_before path @ marks (f cs) @ path_after path)"
  shows "updated c (f (contents (plug path (Leaf pid cs)))) (c\<lparr>content := v\<rparr>) \<and> leaf_kept f (plug path (Leaf pid cs)) c (c\<lparr>content := v\<rparr>)"
proof
  show "updated c (f (contents (plug path (Leaf pid cs)))) (c\<lparr>content := v\<rparr>)"
    unfolding updated_def assms(3) using assms(1,2)
    by (auto simp: contents_def flat_plug small_tree_def intro!: exI [of _ "plug path (Leaf pid (f cs))"])
  show "leaf_kept f (plug path (Leaf pid cs)) c (c\<lparr>content := v\<rparr>)"
    using assms(1) plug_leaf [of path pid cs] by (auto simp: leaf_kept_def)
qed

text \<open>The leaf has been found and the first attempt to insert made: \<open>q0\<close> is its page.\<close>

lemma insert_at_leaf:
  fixes c :: "'r cache"
  assumes t_def: "t = plug path (Leaf pid cs)" and "stores c t" and cap: "3 \<le> capacity c" and gr: "length (pages t) < growth c"
    and small: "small_tree t" "small_mark (key, Some val)" and to: "leads_to key path"
    and q0: "node_meta q0 = node_meta (content c pid)"
      "leaf_node q0 (if fits leaf_tail (put_key key val cs) then put_key key val cs else del_key key cs)"
      "fits leaf_tail (put_key key val cs) \<or> compacted leaf_tail q0 (del_key key cs)"
  shows "runs cached (if fits leaf_tail (put_key key val cs) then unpin_page pid True
        else split_and_insert fid pid key val (map ctx_id path)) (c\<lparr>content := (content c)(pid := q0), pinned := [pid \<mapsto> fid], changed := {pid}\<rparr>)
      (\<lambda>_ c'. updated c (put_key key val (contents t)) c' \<and> leaf_kept (put_key key val) t c c')"
    (is "runs _ _ ?c (\<lambda>_ c'. ?Q c')")
proof -
  note st = assms(2) [unfolded t_def]
  note S = st [unfolded stores_def] and sm = small_put [OF small [unfolded t_def]]
  have put: "put_key key val (contents t) = entries (path_before path @ marks (put_key key val cs) @ path_after path)"
    using put_between [of "path_before path" key "path_after path" val cs] to by (simp add: t_def contents_def flat_plug leads_to_def)
  show ?thesis
  proof (cases "fits leaf_tail (put_key key val cs)")
    case True
    have ord: "ordered (path_before path @ marks (put_key key val cs) @ path_after path)"
      by (rule ordered_put) (use S to in \<open>simp_all add: flat_plug leads_to_def\<close>)
    have "stores (c\<lparr>content := (content c)(pid := q0)\<rparr>) (plug path (Leaf pid (put_key key val cs)))"
      using q0(2) True by (intro leaf_changed [OF st _ q0(1) ord]) simp
    from leaf_replaced [OF this sm put [unfolded t_def]] have "?Q (c\<lparr>content := (content c)(pid := q0)\<rparr>)" by (simp add: t_def)
    then have "runs cached (unpin_page pid True) ?c (\<lambda>_ c'. ?Q c')"
      using S by - (rule runs_last, rule unpin_step, simp, simp, rule runs_return, simp add: quiet_restore)
    with True show ?thesis by simp
  next
    case False
    have "runs cached (split_and_insert fid pid key val (map ctx_id path)) ?c (\<lambda>_ c'. updated c (put_key key val (contents t)) c')"
    proof (rule leaf_split_step [OF st cap _ _ _ q0(1) False to small [unfolded t_def]])
      show "0 < growth c" "leaf_node q0 (del_key key cs)" "compacted leaf_tail q0 (del_key key cs)" using gr q0(2,3) False by auto
      fix c' ls sep rs new assume p: "pending c' path (Leaf pid ls) sep (Leaf new rs)"
        and c': "capacity c' = capacity c" "growth c' = growth c - 1" "others c' = others c"
        and cells: "ls @ rs = put_key key val cs" "sep \<in> fst ` set cs"
      show "runs cached (insert_into_parent pid sep new (map ctx_id path)) c' (\<lambda>_ c'. updated c (put_key key val (contents t)) c')"
        by (rule insert_half_runs [OF p _ _ cells(1) sm])
          (use c' cells(2) cap gr small(1) path_shorter [of path "Leaf pid cs"] put in
            \<open>auto simp: t_def small_tree_def flat_plug intro: small_cost(3)\<close>)
    qed
    moreover have "leaf_kept (put_key key val) t c d" for d using False plug_leaf [of path pid cs] by (auto simp: leaf_kept_def t_def)
    ultimately show ?thesis using False by (auto intro: runs_weaken)
  qed
qed

lemma btree_insert_runs:
  fixes c :: "'r cache"
  assumes "stores c t" "3 \<le> capacity c" "length (pages t) < growth c" "small_tree t" "small_mark (key, Some val)"
  shows "runs cached (btree_insert key val) c (\<lambda>_ c'. updated c (put_key key val (contents t)) c' \<and> leaf_kept (put_key key val) t c c')"
proof -
  have size: "\<not> leaf_cell_size (length key) (length val) + 2 > NODE_USABLE_SIZE"
    using assms(5) by (simp add: small_mark_def leaf_cell_size_def)
  show ?thesis
    unfolding btree_insert_leaf if_not_P [OF size]
  proof (rule with_ids, rule runs_bind [OF find_leaf_runs [OF assms(1)]])
    show "0 < capacity c" using assms(2) by simp
    assume ids: "ids_ok c"
    fix r c' assume "found_leaf key c t r c'"
    then obtain fid path pid cs where r: "r = (fid, map ctx_id path)" "t = plug path (Leaf pid cs)" "leads_to key path"
      "c' = c\<lparr>pinned := [pid \<mapsto> fid]\<rparr>" by (cases r) (auto simp: found_leaf_def)
    note S = assms(1) [unfolded r(2) stores_def]
    have L: "leaf_node (content c pid) cs" using S by (simp add: tree_at_plug)
    have pid: "page_id (content c pid) = pid" "pinned c' pid = Some fid" using S ids r(4) by (auto simp: pages_plug_set ids_ok_def)
    obtain q0 where q0: "insert_leaf_cell key val (content c pid) = (Inr (fits leaf_tail (put_key key val cs)), q0)"
      "node_meta q0 = node_meta (content c pid)"
      "leaf_node q0 (if fits leaf_tail (put_key key val cs) then put_key key val cs else del_key key cs)"
      "fits leaf_tail (put_key key val cs) \<or> compacted leaf_tail q0 (del_key key cs)"
      using insert_leaf_cell_run [OF L, of key val] by blast
    have ok: "page_ok q0" "page_id q0 = pid" using q0(2,3) nodes_ok(1) pid(1) by (auto simp: node_meta_def)
    note last = insert_at_leaf [OF r(2) assms r(3) q0(2-4), of fid]
    have same: "content c' = content c" "changed c' = {}" using r(4) S by (simp_all add: quiet_def)
    show "runs cached (case r of (fid, bcs) \<Rightarrow> op_bind (page_get fid page_id) (\<lambda>pid. op_bind (mk_node fid) (\<lambda>_.
        op_bind (at_frame fid (insert_leaf_cell key val)) (\<lambda>ok.
        if ok then unpin_page pid True else split_and_insert fid pid key val bcs)))) c'
        (\<lambda>_ c'. updated c (put_key key val (contents t)) c' \<and> leaf_kept (put_key key val) t c c')"
      unfolding r(1) prod.case
      apply (rule page_get_step [OF pid(2)], rule mk_node_step [OF pid(2)])
      subgoal using same Node_check_node(1) [OF L] by simp
      apply (rule at_frame_step [OF pid(2)], unfold same, rule q0(1), rule ok, rule ok)
      subgoal using last same r(4) pid(1) by (simp split del: if_split cong: if_cong)
      done
  qed
qed

end
