(* ===== verification/Btree_Borrow.thy ===== *)
theory Btree_Borrow
  imports Btree_Update
begin

section \<open>Borrowing from a sibling\<close>

text \<open>
  A leaf that has become too small takes a cell from a neighbour with the same parent, and the parent gets
  a new separator. All of this is about two leaves that are next to each other: \<open>pair_node\<close> is a node
  with two such children, \<open>pair_changed\<close> divides their cells anew, and the rest executes the code.
\<close>

subsection \<open>The position of a page in its parent\<close>

lemma find_child_loop_run:
  assumes "slotted child_tail p cs" "\<not> is_leaf p" "i < length cs" "distinct (map snd cs)" "j \<le> i"
  shows "find_child_loop (snd (cs ! i)) p j = Inr (Some i)"
  using assms(5)
proof (induction "i - j" arbitrary: j)
  case 0
  then show ?case using child_at_slotted [OF assms(1-3)] assms(3) slottedD(2) [OF assms(1)] by (subst find_child_loop.simps) simp
next
  case (Suc n)
  then have j: "j < i" "j < length cs" using assms(3) by simp_all
  have "snd (cs ! j) \<noteq> snd (cs ! i)" using nth_eq_iff_index_eq [OF assms(4), of j i] j assms(3) by simp
  then show ?case
    using child_at_slotted [OF assms(1,2) j(2)] j slottedD(2) [OF assms(1)] Suc by (subst find_child_loop.simps) simp
qed

lemma locate_first:
  assumes "inner_node p (c # cs)"
  shows "locate_child (first_child p) p = Inr (0, INVALID_PAGE_ID, snd c)"
  using child_at_slotted [OF inner_nodeD(1,2) [OF assms], of 0] by (simp add: locate_child_def)

lemma locate_later:
  assumes "inner_node p cs" "i < length cs" "distinct (first_child p # map snd cs)"
  shows "\<exists>r. locate_child (snd (cs ! i)) p = Inr (i, if i = 0 then first_child p else snd (cs ! (i - 1)), r)"
proof -
  note I = inner_nodeD [OF assms(1)]
  have "first_child p \<noteq> snd (cs ! i)" using assms(2,3) by (metis distinct.simps(2) length_map nth_map nth_mem)
  moreover have "find_child_loop (snd (cs ! i)) p 0 = Inr (Some i)" by (rule find_child_loop_run) (use I assms in simp_all)
  ultimately show ?thesis
    using child_at_slotted [OF I(1,2)] assms(2) slottedD(2) [OF I(1)] by (auto simp: locate_child_def)
qed

subsection \<open>A new separator in the parent\<close>

lemma replace_separator_step:
  assumes "pinned c pid = Some fid" "inner_node (content c pid) cs" "i < length cs" "sorted_keys (cs[i := (k, snd (cs ! i))])"
    "fits child_tail (cs[i := (k, snd (cs ! i))])"
    and go: "\<And>q. inner_node q (cs[i := (k, snd (cs ! i))]) \<Longrightarrow> node_meta q = node_meta (content c pid) \<Longrightarrow>
      runs cached (f ()) (c\<lparr>content := (content c)(pid := q), changed := insert pid (changed c)\<rparr>) Q"
  shows "runs cached (op_bind (replace_separator fid i k) f) c Q"
proof (rule with_ids)
  assume "ids_ok c"
  then have id: "page_id (content c pid) = pid" using assms(1) by (auto simp: ids_ok_def)
  note I = inner_nodeD [OF assms(2)]
  have key: "key_at i (content c pid) = Inr (fst (cs ! i))" by (rule key_at_slotted [OF I(1) assms(3)])
  have ok: "page_ok q \<and> page_id q = pid" if "inner_node q ds" "node_meta q = node_meta (content c pid)" for q ds
    using that id nodes_ok(2) by (auto simp: node_meta_def)
  show ?thesis
  proof (cases "length (fst (cs ! i)) = length k")
    case True
    obtain q where q: "update_separator_key i k (content c pid) = (Inr (), q)" "node_meta q = node_meta (content c pid)"
      "inner_node q (cs[i := (k, snd (cs ! i))])"
      using update_separator_key_run [OF assms(2,3) True [symmetric] assms(4)] by blast
    show ?thesis
      unfolding replace_separator_def op_bind_assoc
      by (rule page_read_step [OF assms(1)], rule key, unfold if_P [OF True], rule at_frame_step [OF assms(1)], rule q(1))
        (use ok [OF q(3,2)] go [OF q(3,2)] in simp_all)
  next
    case False
    obtain q where q: "remove_cell i (content c pid) = (Inr (), q)" "slotted child_tail q (take i cs @ drop (Suc i) cs)"
      "node_meta q = node_meta (content c pid)" using remove_cell_slotted [OF I(1) assms(3)] by blast
    let ?ds = "take i cs @ drop (Suc i) cs"
    have upd: "cs[i := (k, snd (cs ! i))] = take i cs @ (k, snd (cs ! i)) # drop (Suc i) cs" using assms(3) by (rule upd_conv_take_nth_drop)
    have lt: "\<forall>c \<in> set (take i cs). fst c < k" "\<forall>c \<in> set (drop (Suc i) cs). k < fst c" "sorted_keys ?ds"
      using assms(4) unfolding upd by (auto simp: sorted_wrt_append)
    have put: "put_key k (snd (cs ! i)) ?ds = cs[i := (k, snd (cs ! i))]" unfolding upd by (rule put_between_cells [OF lt(1,2)])
    have nk: "k \<notin> fst ` set ?ds" using lt(1,2) by force
    have inn: "inner_node q ?ds" using q(2,3) lt(3) assms(2) meta_type [OF q(3)] by (simp add: inner_node_def)
    obtain q' where q': "insert_separator k (snd (cs ! i)) q = (Inr True, q')" "node_meta q' = node_meta q"
      "inner_node q' (cs[i := (k, snd (cs ! i))])"
      using insert_separator_run [OF inn nk, of "snd (cs ! i)"] assms(5) put by auto
    have meta: "node_meta q' = node_meta (content c pid)" using q'(2) q(3) by simp
    show ?thesis
      unfolding replace_separator_def op_bind_assoc
      apply (rule page_read_step [OF assms(1)], rule key)
      unfolding if_not_P [OF False] op_bind_assoc
      apply (rule page_read_step [OF assms(1)], rule child_at_slotted [OF I(1,2) assms(3)])
      apply (rule at_frame_step [OF assms(1)], rule q(1))
      subgoal using ok [OF inn q(3)] by simp
      subgoal using ok [OF inn q(3)] by simp
      apply (rule at_frame_step [of _ pid], simp add: assms(1), simp, rule q'(1))
      subgoal using ok [OF q'(3) meta] by simp
      subgoal using ok [OF q'(3) meta] by simp
      apply (rule runs_assert [OF TrueI])
      subgoal using go [OF q'(3) meta] by simp
      done
  qed
qed

subsection \<open>Moving a cell between leaves\<close>

lemma sorted_without: "sorted_keys cs \<Longrightarrow> i < length cs \<Longrightarrow> sorted_keys (take i cs @ drop (Suc i) cs)"
  by (subst (asm) id_take_nth_drop, assumption) (simp add: sorted_wrt_append)

text \<open>The cell \<open>(k, v)\<close> goes from slot \<open>i\<close> of the leaf \<open>a\<close> to the leaf \<open>b\<close>.\<close>

lemma move_cell_step:
  fixes c :: "'r cache"
  assumes a: "pinned c a = Some f" "leaf_node (content c a) as" "i < length as" "as ! i = (k, v)" and b: "pinned c b = Some g" "leaf_node (content c b) bs"
    and ab: "a \<noteq> b" and fit: "fits leaf_tail (put_key k v bs)"
    and go: "\<And>p q. leaf_node p (take i as @ drop (Suc i) as) \<Longrightarrow> node_meta p = node_meta (content c a) \<Longrightarrow>
      leaf_node q (put_key k v bs) \<Longrightarrow> node_meta q = node_meta (content c b) \<Longrightarrow>
      runs cached (h k) (c\<lparr>content := (content c)(a := p, b := q), changed := insert b (insert a (changed c))\<rparr>) Q"
  shows "runs cached (op_bind (page_read f (key_at i)) (\<lambda>k. op_bind (page_read f (value_at i)) (\<lambda>v.
    op_bind (at_frame f (remove_cell i)) (\<lambda>_. op_bind (at_frame g (insert_leaf_cell k v)) (\<lambda>ok. op_bind (op_assert (\<lambda>_. ok)) (\<lambda>_. h k)))))) c Q"
proof (rule with_ids)
  assume "ids_ok c"
  then have id: "page_id (content c a) = a" "page_id (content c b) = b" using a(1) b(1) by (auto simp: ids_ok_def)
  have L: "slotted leaf_tail (content c a) as" "is_leaf (content c a)" "sorted_keys as" using a(2) by (auto simp: leaf_node_def)
  obtain p where p: "remove_cell i (content c a) = (Inr (), p)" "slotted leaf_tail p (take i as @ drop (Suc i) as)"
    "node_meta p = node_meta (content c a)" using remove_cell_slotted [OF L(1) a(3)] by blast
  have "sorted_keys (take i as @ drop (Suc i) as)" by (rule sorted_without [OF L(3) a(3)])
  then have P: "leaf_node p (take i as @ drop (Suc i) as)" using p(2,3) a(2) meta_type [OF p(3)] by (simp add: leaf_node_def is_leaf_def)
  obtain q where q: "insert_leaf_cell k v (content c b) = (Inr True, q)" "node_meta q = node_meta (content c b)" "leaf_node q (put_key k v bs)"
    using insert_leaf_cell_run [OF b(2), of k v] fit by auto
  have ok: "page_ok p" "page_id p = a" "page_ok q" "page_id q = b" using P p(3) q(2,3) id nodes_ok(1) by (auto simp: node_meta_def)
  have kv: "key_at i (content c a) = Inr k" "value_at i (content c a) = Inr v"
    using key_at_slotted [OF L(1) a(3)] value_at_slotted [OF L(1,2) a(3)] a(4) by simp_all
  show ?thesis
    apply (rule page_read_step [OF a(1)], rule kv(1))
    apply (rule page_read_step [OF a(1)], rule kv(2))
    apply (rule at_frame_step [OF a(1)], rule p(1), rule ok(1), rule ok(2))
    apply (rule at_frame_step [of _ b], simp add: b(1), simp add: ab [symmetric], rule q(1), rule ok(3), rule ok(4))
    apply (rule runs_assert [OF TrueI])
    subgoal using go [OF P p(3) q(3,2)] by simp
    done
qed

lemma steal_from_left_step:
  fixes c :: "'r cache"
  assumes "pinned c a = Some f" "leaf_node (content c a) (as @ [(k, v)])" "pinned c b = Some g" "leaf_node (content c b) bs" "a \<noteq> b"
    "\<forall>x \<in> set bs. k < fst x" "fits leaf_tail ((k, v) # bs)"
    and go: "\<And>p q. leaf_node p as \<Longrightarrow> node_meta p = node_meta (content c a) \<Longrightarrow> leaf_node q ((k, v) # bs) \<Longrightarrow> node_meta q = node_meta (content c b) \<Longrightarrow>
      runs cached (h k) (c\<lparr>content := (content c)(a := p, b := q), changed := insert b (insert a (changed c))\<rparr>) Q"
  shows "runs cached (op_bind (steal_from_left g f) h) c Q"
proof -
  have L: "slotted leaf_tail (content c a) (as @ [(k, v)])" "is_leaf (content c b)" using assms(2,4) by (auto simp: leaf_node_def)
  have n: "num_keys (content c a) = Suc (length as)" using slottedD(2) [OF L(1)] by simp
  have "num_keys (content c a) < 65536" by simp
  then have last: "u16_sub (num_keys (content c a)) 1 = length as" unfolding n u16_sub_def by simp
  have put: "put_key k v bs = (k, v) # bs" using assms(6) by (cases bs) auto
  have "runs cached (op_bind (page_read f (key_at (length as))) (\<lambda>k. op_bind (page_read f (value_at (length as))) (\<lambda>v.
    op_bind (at_frame f (remove_cell (length as))) (\<lambda>_. op_bind (at_frame g (insert_leaf_cell k v)) (\<lambda>ok. op_bind (op_assert (\<lambda>_. ok)) (\<lambda>_. h k)))))) c Q"
    by (rule move_cell_step [OF assms(1,2) _ _ assms(3-5), of _ k v]) (use assms(7) go put in simp_all)
  then have "runs cached (op_bind (op_bind (page_get f num_keys) (\<lambda>ln. op_bind (page_get g is_leaf) (\<lambda>leaf. if leaf then
      op_bind (page_read f (key_at (u16_sub ln 1))) (\<lambda>k. op_bind (page_read f (value_at (u16_sub ln 1))) (\<lambda>v.
      op_bind (at_frame f (remove_cell (u16_sub ln 1))) (\<lambda>_. op_bind (at_frame g (insert_leaf_cell k v)) (\<lambda>ok.
      op_bind (op_assert (\<lambda>_. ok)) (\<lambda>_. op_return k))))) else X ln))) h) c Q" for X
    unfolding op_bind_assoc
    apply -
    apply (rule page_get_step [OF assms(1)], rule page_get_step [OF assms(3)])
    subgoal by (simp add: L(2) last op_bind_assoc op_return_bind del: One_nat_def)
    done
  then show ?thesis unfolding steal_from_left_def Let_def .
qed

lemma steal_from_right_step:
  fixes c :: "'r cache"
  assumes "pinned c a = Some f" "leaf_node (content c a) ((k, v) # x # as)" "pinned c b = Some g" "leaf_node (content c b) bs" "a \<noteq> b"
    "\<forall>y \<in> set bs. fst y < k" "fits leaf_tail (bs @ [(k, v)])"
    and go: "\<And>p q. leaf_node p (x # as) \<Longrightarrow> node_meta p = node_meta (content c a) \<Longrightarrow> leaf_node q (bs @ [(k, v)]) \<Longrightarrow> node_meta q = node_meta (content c b) \<Longrightarrow>
      runs cached (h (fst x)) (c\<lparr>content := (content c)(a := p, b := q), changed := insert b (insert a (changed c))\<rparr>) Q"
  shows "runs cached (op_bind (steal_from_right g f) h) c Q"
proof -
  have L: "is_leaf (content c b)" "sorted_keys bs" using assms(4) by (auto simp: leaf_node_def)
  then have put: "put_key k v bs = bs @ [(k, v)]" using assms(6) by (intro put_key_last) (auto simp: sorted_wrt_append)
  have "runs cached (op_bind (page_read f (key_at 0)) (\<lambda>k. op_bind (page_read f (value_at 0)) (\<lambda>v.
    op_bind (at_frame f (remove_cell 0)) (\<lambda>_. op_bind (at_frame g (insert_leaf_cell k v)) (\<lambda>ok. op_bind (op_assert (\<lambda>_. ok)) (\<lambda>_.
    op_bind (page_read f (key_at 0)) h)))))) c Q"
  proof (rule move_cell_step [OF assms(1,2) _ _ assms(3-5), of 0 k v])
    fix p q assume p: "leaf_node p (take 0 ((k, v) # x # as) @ drop (Suc 0) ((k, v) # x # as))" "node_meta p = node_meta (content c a)"
      and q: "leaf_node q (put_key k v bs)" "node_meta q = node_meta (content c b)"
    let ?c = "c\<lparr>content := (content c)(a := p, b := q), changed := insert b (insert a (changed c))\<rparr>"
    have p': "leaf_node p (x # as)" "leaf_node q (bs @ [(k, v)])" using p(1) q(1) put by simp_all
    have "key_at 0 (content ?c a) = Inr (fst x)"
      using key_at_slotted [of leaf_tail p "x # as" 0] p'(1) assms(5) by (simp add: leaf_node_def)
    then show "runs cached (op_bind (page_read f (key_at 0)) h) ?c Q"
      by (intro page_read_step [of ?c a f]) (use assms(1) go [OF p'(1) p(2) p'(2) q(2)] in simp_all)
  qed (use assms(7) put in simp_all)
  then have "runs cached (op_bind (op_bind (page_get g is_leaf) (\<lambda>leaf. if leaf then
      op_bind (page_read f (key_at 0)) (\<lambda>k. op_bind (page_read f (value_at 0)) (\<lambda>v.
      op_bind (at_frame f (remove_cell 0)) (\<lambda>_. op_bind (at_frame g (insert_leaf_cell k v)) (\<lambda>ok.
      op_bind (op_assert (\<lambda>_. ok)) (\<lambda>_. page_read f (key_at 0)))))) else X)) h) c Q" for X
    unfolding op_bind_assoc
    apply -
    apply (rule page_get_step [OF assms(3)])
    subgoal by (simp add: L(1) op_bind_assoc)
    done
  then show ?thesis unfolding steal_from_right_def .
qed

subsection \<open>Two neighbours in their parent\<close>

text \<open>The children \<open>l\<close> and \<open>r\<close> of a node with the separator \<open>k\<close> between them. The first argument is what comes before
  them: nothing, or the first child, more cells and the separator of \<open>l\<close>.\<close>

type_synonym pre = "(tree \<times> (bytes \<times> tree) list \<times> bytes) option"

fun pair_node :: "page_id \<Rightarrow> pre \<Rightarrow> tree \<Rightarrow> bytes \<Rightarrow> tree \<Rightarrow> (bytes \<times> tree) list \<Rightarrow> tree" where
  "pair_node par None l k r rs = Inner par l ((k, r) # rs)"
| "pair_node par (Some (u, ls, j)) l k r rs = Inner par u (ls @ (j, l) # (k, r) # rs)"

fun pre_cells :: "pre \<Rightarrow> page_id \<Rightarrow> (bytes \<times> page_id) list" where
  "pre_cells None lid = []"
| "pre_cells (Some (u, ls, j)) lid = ids ls @ [(j, lid)]"

fun pre_first :: "pre \<Rightarrow> page_id \<Rightarrow> page_id" where
  "pre_first None lid = lid"
| "pre_first (Some (u, ls, j)) lid = tid u"

fun pre_kids :: "pre \<Rightarrow> tree list" where
  "pre_kids None = []"
| "pre_kids (Some (u, ls, j)) = u # map snd ls"

fun pre_marks :: "pre \<Rightarrow> mark list" where
  "pre_marks None = []"
| "pre_marks (Some (u, ls, j)) = flat u @ flats ls @ [(j, None)]"

lemma pair_node_at:
  "tree_at v p (pair_node par pre l k r rs) \<longleftrightarrow> inner_node (v par) (pre_cells pre (tid l) @ (k, tid r) # ids rs) \<and>
     first_child (v par) = pre_first pre (tid l) \<and> parent_id (v par) = p \<and> tree_at v par l \<and> tree_at v par r \<and>
     (\<forall>s \<in> set (pre_kids pre @ map snd rs). tree_at v par s)"
  by (cases "(par, pre, l, k, r, rs)" rule: pair_node.cases) auto

lemma pair_node_parts [simp]:
  "flat (pair_node par pre l k r rs) = pre_marks pre @ flat l @ (k, None) # flat r @ flats rs"
  "leaf_ids (pair_node par pre l k r rs) = concat (map leaf_ids (pre_kids pre)) @ leaf_ids l @ leaf_ids r @ all_leaf_ids rs"
  "tid (pair_node par pre l k r rs) = par"
  by (cases "(par, pre, l, k, r, rs)" rule: pair_node.cases; simp add: comp_def)+

lemma pair_node_pages:
  "mset (pages (pair_node par pre l k r rs)) = {#par#} + mset (concat (map pages (pre_kids pre))) + mset (pages l) + mset (pages r) + mset (all_pages rs)"
  by (cases "(par, pre, l, k, r, rs)" rule: pair_node.cases) (simp_all add: comp_def)

text \<open>The cells of two neighbouring leaves are divided anew, with a separator that fits the division.\<close>

lemma ordered_drop: "ordered (as @ marks ls @ (k, None) # marks rs @ bs) \<Longrightarrow> ordered (as @ marks (ls @ rs) @ bs)"
  by (auto simp: sorted_wrt_append)

lemma sorted_seps: "ordered (flats ts) \<Longrightarrow> sorted_keys ts"
proof (induction ts)
  case (Cons c ts)
  have "fst c < fst d" if "d \<in> set ts" for d
  proof -
    have "(fst d, None) \<in> set (flats ts)" using that by auto
    moreover have "\<forall>e \<in> set (flats ts). mark_less (fst c, None) e" using Cons.prems by simp
    ultimately have "mark_less (fst c, None) (fst d, None)" by blast
    then show ?thesis by (simp add: mark_less_def)
  qed
  with Cons show ?case by (auto simp: sorted_wrt_append)
qed simp

lemma pair_seps:
  assumes "ordered (flat (pair_node par pre l k r rs))"
  shows "sorted_keys (pre_cells pre (tid l) @ (k, tid r) # ids rs)"
proof (cases pre)
  case None
  then show ?thesis using assms sorted_seps [of "(k, r) # rs"] by (auto simp: sorted_wrt_append sorted_wrt_map)
next
  case (Some x)
  obtain u ls j where x: "x = (u, ls, j)" by (cases x)
  have "ordered (flats (ls @ (j, l) # (k, r) # rs))" using assms Some x by (auto simp: sorted_wrt_append)
  from sorted_seps [OF this] show ?thesis using Some x by (simp add: sorted_wrt_append sorted_wrt_map)
qed

lemma pair_order:
  assumes "stores c (plug path (pair_node par pre (Leaf lid lcs) k (Leaf rid rcs) rs))"
    and "lcs' @ rcs' = lcs @ rcs" "lcs' \<noteq> []" "rcs' \<noteq> []" "\<forall>c \<in> set lcs'. fst c < k'" "\<forall>c \<in> set rcs'. k' \<le> fst c"
  shows "ordered (flat (plug path (pair_node par pre (Leaf lid lcs') k' (Leaf rid rcs') rs)))"
    "sorted_keys (pre_cells pre lid @ (k', rid) # ids rs)"
proof -
  have "ordered ((path_before path @ pre_marks pre) @ marks lcs @ (k, None) # marks rcs @ flats rs @ path_after path)"
    using assms(1) by (simp add: stores_def flat_plug)
  from ordered_split [OF ordered_drop [OF this, folded assms(2)] assms(3-6)]
  show o: "ordered (flat (plug path (pair_node par pre (Leaf lid lcs') k' (Leaf rid rcs') rs)))" by (simp add: flat_plug)
  have "ordered (flat (pair_node par pre (Leaf lid lcs') k' (Leaf rid rcs') rs))" using o unfolding flat_plug sorted_wrt_append by blast
  from pair_seps [OF this] show "sorted_keys (pre_cells pre lid @ (k', rid) # ids rs)" by simp
qed

lemma pair_changed:
  assumes st: "stores c (plug path (pair_node par pre (Leaf lid lcs) k (Leaf rid rcs) rs))"
    and p: "leaf_node p lcs'" "node_meta p = node_meta (content c lid)" and q: "leaf_node q rcs'" "node_meta q = node_meta (content c rid)"
    and n: "inner_node n (pre_cells pre lid @ (k', rid) # ids rs)" "node_meta n = node_meta (content c par)"
    and cells: "lcs' @ rcs' = lcs @ rcs" "lcs' \<noteq> []" "rcs' \<noteq> []" "\<forall>c \<in> set lcs'. fst c < k'" "\<forall>c \<in> set rcs'. k' \<le> fst c"
  shows "stores (c\<lparr>content := (content c)(lid := p, rid := q, par := n)\<rparr>) (plug path (pair_node par pre (Leaf lid lcs') k' (Leaf rid rcs') rs))"
proof -
  note S = st [unfolded stores_def]
  let ?t = "pair_node par pre (Leaf lid lcs) k (Leaf rid rcs) rs" and ?t' = "pair_node par pre (Leaf lid lcs') k' (Leaf rid rcs') rs"
  let ?w = "(content c)(lid := p, rid := q, par := n)"
  have pg: "mset (pages ?t') = mset (pages ?t)" by (simp add: pair_node_pages)
  note eq = mset_eq_imp_distinct_iff [OF pg] mset_eq_setD [OF pg]
  have dis: "distinct (path_pages path @ pages ?t)" using S by (simp add: pages_plug_distinct)
  have "distinct (path_pages path @ par # concat (map pages (pre_kids pre)) @ [lid, rid] @ all_pages rs)"
    using mset_eq_imp_distinct_iff [of "path_pages path @ pages ?t" "path_pages path @ par # concat (map pages (pre_kids pre)) @ [lid, rid] @ all_pages rs"] dis
    by (simp add: pair_node_pages)
  then have out: "par \<noteq> lid" "par \<noteq> rid" "lid \<noteq> rid" "\<forall>x \<in> {par, lid, rid}. x \<notin> set (path_pages path)"
    "\<forall>s \<in> set (pre_kids pre @ map snd rs). \<forall>x \<in> {par, lid, rid}. x \<notin> set (pages s)" by auto
  have T: "tree_at (content c) (path_parent path) ?t" "path_at (content c) path par" using S by (simp_all add: tree_at_plug)
  have "tree_at ?w par s" if "s \<in> set (pre_kids pre @ map snd rs)" for s
    using T(1) that out(5) by (simp add: pair_node_at)
  then have "tree_at ?w (path_parent path) ?t'"
    using T(1) p q n out(1-3) by (simp add: pair_node_at node_meta_def)
  moreover have "path_at ?w path par" using T(2) out(4) by simp
  ultimately have "tree_at ?w INVALID_PAGE_ID (plug path ?t')" by (simp add: tree_at_plug)
  moreover have "linked ?w INVALID_PAGE_ID (leaf_ids (plug path ?t'))"
    using S linked_cong [of "leaf_ids (plug path ?t')" ?w "content c"] p(2) q(2) n(2) out(1-3) by (auto simp: leaf_ids_plug node_meta_def)
  moreover have "ordered (flat (plug path ?t'))" by (rule pair_order(1) [OF st cells])
  ultimately show ?thesis
    using S eq tid_plug [of ?t ?t' path] by (auto simp: stores_def quiet_def pages_plug_distinct pages_plug_set)
qed

subsection \<open>Borrowing\<close>

lemma underflow_leaf:
  assumes "leaf_node p cs"
  shows "2020 \<le> space leaf_tail cs \<Longrightarrow> underflow p = Inr False" "underflow p = Inr True \<Longrightarrow> space leaf_tail cs < 2020"
proof -
  have S: "slotted leaf_tail p cs" using assms by (simp add: leaf_node_def)
  have full: "underflow p = Inr False" if "2020 \<le> space leaf_tail cs"
    using that slotted_used(1) [OF S] slottedD(3-5) [OF S] by (simp add: underflow_def free_space_slotted [OF S] space_eq)
  then show "2020 \<le> space leaf_tail cs \<Longrightarrow> underflow p = Inr False" .
  show "underflow p = Inr True \<Longrightarrow> space leaf_tail cs < 2020" using full by fastforce
qed

lemma pair_borrowed:
  assumes st: "stores c t" and t: "t = plug path (pair_node par pre (Leaf lid lcs) k (Leaf rid rcs) rs)" and small: "small_tree t"
    and p: "leaf_node p lcs'" "node_meta p = node_meta (content c lid)" and q: "leaf_node q rcs'" "node_meta q = node_meta (content c rid)"
    and n: "inner_node n (pre_cells pre lid @ (k', rid) # ids rs)" "node_meta n = node_meta (content c par)"
    and cells: "lcs' @ rcs' = lcs @ rcs" "lcs' \<noteq> []" "rcs' \<noteq> []" "\<forall>c \<in> set lcs'. fst c < k'" "\<forall>c \<in> set rcs'. k' \<le> fst c"
    and k': "k' \<in> fst ` set (lcs @ rcs)"
  shows "updated c (contents t) (c\<lparr>content := (content c)(lid := p, rid := q, par := n)\<rparr>)"
proof -
  let ?t' = "plug path (pair_node par pre (Leaf lid lcs') k' (Leaf rid rcs') rs)"
  have new: "stores (c\<lparr>content := (content c)(lid := p, rid := q, par := n)\<rparr>) ?t'" by (rule pair_changed [OF st [unfolded t] p q n cells])
  have "contents ?t' = contents t" unfolding t using cells(1) by (simp add: contents_def flat_plug)
  moreover have "small_tree ?t'"
  proof -
    have "small_mark (fst c, Some (snd c))" if "c \<in> set (lcs @ rcs)" for c using that small unfolding t by (auto simp: small_tree_def flat_plug)
    then have "small_mark (fst c, Some (snd c))" "small_mark (k', None)" if "c \<in> set (lcs' @ rcs')" for c
      using that k' small_cost(3) unfolding cells(1) by fastforce+
    then show ?thesis using small cells(2) unfolding t by (cases lcs') (auto simp: small_tree_def flat_plug)
  qed
  ultimately show ?thesis using new by (auto simp: updated_def)
qed

text \<open>What is known about two neighbouring leaves of a stored tree.\<close>

lemma pair_facts:
  assumes st: "stores c (plug path (pair_node par pre (Leaf lid lcs) k (Leaf rid rcs) rs))" and cap: "3 \<le> capacity c" and ids: "ids_ok c"
  defines "cs \<equiv> pre_cells pre lid @ (k, rid) # ids rs"
  shows "inner_node (content c par) cs" "leaf_node (content c lid) lcs" "leaf_node (content c rid) rcs"
    "par \<noteq> lid" "par \<noteq> rid" "lid \<noteq> rid" "{par, lid, rid} \<subseteq> allocated_ids c" "lid \<noteq> INVALID_PAGE_ID" "rid \<noteq> INVALID_PAGE_ID"
    "distinct (first_child (content c par) # map snd cs)" "first_child (content c par) = pre_first pre lid"
    "\<forall>x \<in> set lcs. fst x < k" "\<forall>x \<in> set rcs. k \<le> fst x"
proof -
  note S = st [unfolded stores_def]
  let ?t = "pair_node par pre (Leaf lid lcs) k (Leaf rid rcs) rs"
  have T: "tree_at (content c) (path_parent path) ?t" using S by (simp add: tree_at_plug)
  then show "inner_node (content c par) cs" "leaf_node (content c lid) lcs" "leaf_node (content c rid) rcs"
    "first_child (content c par) = pre_first pre lid" by (simp_all add: pair_node_at cs_def)
  have "distinct (pages ?t)" using S by (simp add: pages_plug_distinct)
  then have dis: "distinct (par # concat (map pages (pre_kids pre @ [Leaf lid lcs, Leaf rid rcs] @ map snd rs)))"
    using mset_eq_imp_distinct_iff [of "pages ?t" "par # concat (map pages (pre_kids pre @ [Leaf lid lcs, Leaf rid rcs] @ map snd rs))"]
    by (simp add: pair_node_pages comp_def)
  then show "par \<noteq> lid" "par \<noteq> rid" "lid \<noteq> rid" by auto
  have "set (pages ?t) \<subseteq> allocated_ids c" using S by (simp add: pages_plug_set)
  moreover have "set (pages ?t) = set_mset (mset (pages ?t))" by simp
  ultimately show sub: "{par, lid, rid} \<subseteq> allocated_ids c" unfolding pair_node_pages by auto
  show "lid \<noteq> INVALID_PAGE_ID" "rid \<noteq> INVALID_PAGE_ID" using sub ids by (auto simp: ids_ok_def)
  have "distinct (map tid (pre_kids pre @ [Leaf lid lcs, Leaf rid rcs] @ map snd rs))" using dis by (intro kids_distinct) simp
  moreover have "first_child (content c par) # map snd cs = map tid (pre_kids pre @ [Leaf lid lcs, Leaf rid rcs] @ map snd rs)"
    using T by (cases "(par, pre, Leaf lid lcs, k, Leaf rid rcs, rs)" rule: pair_node.cases) (simp_all add: cs_def)
  ultimately show "distinct (first_child (content c par) # map snd cs)" by simp
  have "ordered ((path_before path @ pre_marks pre) @ marks lcs @ (k, None) # marks rcs @ flats rs @ path_after path)"
    using S by (simp add: flat_plug)
  then have "\<forall>e \<in> set (marks lcs). mark_less e (k, None)" "\<forall>e \<in> set (marks rcs). mark_less (k, None) e"
    by (simp_all add: sorted_wrt_append)
  then show "\<forall>x \<in> set lcs. fst x < k" "\<forall>x \<in> set rcs. k \<le> fst x" by (auto simp: mark_less_def)
qed

text \<open>The end of both ways to borrow: \<open>x\<close> and \<open>y\<close> are the two leaves.\<close>

lemma finish_borrow:
  assumes st: "stores c t" and t: "t = plug path (pair_node par pre (Leaf lid lcs) k (Leaf rid rcs) rs)" and cap: "3 \<le> capacity c"
    and small: "small_tree t" and ids: "ids_ok c" and i: "i = length (pre_cells pre lid)" and fit: "fits child_tail (pre_cells pre lid @ (k', rid) # ids rs)"
    and p: "leaf_node p lcs'" "node_meta p = node_meta (content c lid)" and q: "leaf_node q rcs'" "node_meta q = node_meta (content c rid)"
    and cells: "lcs' @ rcs' = lcs @ rcs" "lcs' \<noteq> []" "rcs' \<noteq> []" "\<forall>c \<in> set lcs'. fst c < k'" "\<forall>c \<in> set rcs'. k' \<le> fst c"
    and k': "k' \<in> fst ` set (lcs @ rcs)" and xy: "{x, y} = {lid, rid}" and d: "pinned d = [par \<mapsto> f, lid \<mapsto> g, rid \<mapsto> h]" "changed d \<subseteq> {lid, rid}"
      "content d = (content c)(lid := p, rid := q)" "d\<lparr>content := content c, pinned := pinned c, changed := changed c\<rparr> = c"
  shows "runs cached (op_bind (replace_separator f i k') (\<lambda>_. op_bind (unpin_page x True) (\<lambda>_. op_bind (unpin_page y True) (\<lambda>_.
      op_bind (unpin_page par True) (\<lambda>_. op_return True))))) d (\<lambda>r c'. r \<and> updated c (contents t) c')"
proof (rule replace_separator_step [of _ par _ "pre_cells pre lid @ (k, rid) # ids rs"])
  note F = pair_facts [OF st [unfolded t] cap ids]
  let ?cs = "pre_cells pre lid @ (k, rid) # ids rs"
  have cs': "?cs[i := (k', snd (?cs ! i))] = pre_cells pre lid @ (k', rid) # ids rs" by (simp add: i)
  show "pinned d par = Some f" "inner_node (content d par) ?cs" "i < length ?cs" using d F(1,4,5) i by simp_all
  show "sorted_keys (?cs[i := (k', snd (?cs ! i))])" unfolding cs' by (rule pair_order(2) [OF st [unfolded t] cells])
  show "fits child_tail (?cs[i := (k', snd (?cs ! i))])" unfolding cs' by (rule fit)
  fix n assume n: "inner_node n (?cs[i := (k', snd (?cs ! i))])" "node_meta n = node_meta (content d par)"
  have "updated c (contents t) (c\<lparr>content := (content c)(lid := p, rid := q, par := n)\<rparr>)"
    by (rule pair_borrowed [OF st t small p q _ _ cells k']) (use n F(4,5) d(3) in \<open>simp_all add: cs' [symmetric]\<close>)
  moreover have "pinned c = Map.empty" "changed c = {}" using st by (simp_all add: stores_def quiet_def)
  then have "c\<lparr>content := (content c)(lid := p, rid := q, par := n)\<rparr> =
      d\<lparr>content := (content c)(lid := p, rid := q, par := n), pinned := Map.empty, changed := {}\<rparr>" by (subst d(4) [symmetric]) simp
  moreover have ch: "insert par (changed d) - {x} - {y} - {par} = {}" and "((pinned d)(x := None, y := None, par := None)) = Map.empty"
    using d(1,2) xy by (auto simp: fun_eq_iff doubleton_eq_iff)
  moreover have "x \<noteq> y" "x \<noteq> par" "y \<noteq> par" "pinned d x \<noteq> None" "pinned d y \<noteq> None" using xy F(4-6) d(1) by (auto simp: doubleton_eq_iff)
  ultimately show "runs cached (op_bind (unpin_page x True) (\<lambda>_. op_bind (unpin_page y True) (\<lambda>_. op_bind (unpin_page par True) (\<lambda>_. op_return True))))
      (d\<lparr>content := (content d)(par := n), changed := insert par (changed d)\<rparr>) (\<lambda>r c'. r \<and> updated c (contents t) c')"
    using d(1,3) by (intro unpin_step runs_return) (simp_all add: ch)
qed

lemma borrow_left_runs:
  assumes st: "stores c t" and t: "t = plug path (pair_node par pre (Leaf lid (as @ [(k', v)])) k (Leaf pid bs) rs)"
    and cap: "3 \<le> capacity c" and small: "small_tree t" and full: "2020 \<le> space leaf_tail (as @ [(k', v)])" and low: "space leaf_tail bs < 2020"
    and i: "i = length (pre_cells pre lid)" and fit: "fits child_tail (pre_cells pre lid @ (k', pid) # ids rs)"
  shows "runs cached (try_steal_left pfid par pid i lid) (c\<lparr>pinned := [par \<mapsto> pfid]\<rparr>)
    (\<lambda>r c'. r \<and> updated c (contents t) c')"
proof (rule with_ids)
  assume "ids_ok (c\<lparr>pinned := [par \<mapsto> pfid]\<rparr>)"
  then have ids: "ids_ok c" using st by (auto simp: ids_ok_def stores_def quiet_def)
  note st' = st [unfolded t]
  note F = pair_facts [OF st' cap ids]
  let ?cs = "pre_cells pre lid @ (k, pid) # ids rs"
  have q: "quiet c" "pinned c = Map.empty" "changed c = {}" using st by (simp_all add: stores_def quiet_def)
  have costs: "cost leaf_tail x \<le> 1010" if "x \<in> set (as @ [(k', v)])" for x
    using that small small_cost(2) [of "fst x" "snd x"] unfolding t by (auto simp: small_tree_def flat_plug)
  have ne: "as \<noteq> []" using full costs [of "(k', v)"] by (auto simp: space_def)
  have so: "sorted_keys (as @ [(k', v)])" using F(2) by (simp add: leaf_node_def)
  have kk: "k' < k" "\<forall>x \<in> set as. fst x < k'" "\<forall>x \<in> set bs. k' < fst x" using F(12,13) so by (auto simp: sorted_wrt_append)
  have fit': "fits leaf_tail ((k', v) # bs)" using low costs [of "(k', v)"] by (simp add: fits_space space_def)
  have cells: "as @ (k', v) # bs = (as @ [(k', v)]) @ bs" "(k', v) # bs \<noteq> []" "\<forall>x \<in> set ((k', v) # bs). k' \<le> fst x" using kk by auto
  have keys: "\<exists>x. key_at j (content c par) = Inr x" if "j \<le> i" for j
    using that key_at_slotted [OF inner_nodeD(1) [OF F(1)], of j] by (auto simp: i)
  have fc: "first_child (content c par) \<noteq> pid" using F(10) by auto
  have "(if 0 < i then i - 1 else 0) \<le> i" by simp
  from keys [OF this] obtain x where x: "key_at (if 0 < i then i - 1 else 0) (content c par) = Inr x" by blast
  obtain y where y: "key_at i (content c par) = Inr y" using keys [of i] by auto
  have core: "runs cached (op_bind (page_read pfid (key_at (if i > 0 then i - 1 else 0))) (\<lambda>_.
          op_bind (page_get pfid first_child) (\<lambda>fc.
          op_bind (page_read pfid (key_at (if fc = pid then 0 else i))) (\<lambda>_.
          op_bind (steal_from_left cf lf) (\<lambda>new_sep.
          op_bind (replace_separator pfid (if fc = pid then 0 else i) new_sep) (\<lambda>_.
          op_bind (unpin_page pid True) (\<lambda>_.
          op_bind (unpin_page lid True) (\<lambda>_.
          op_bind (unpin_page par True) (\<lambda>_.
          op_return True))))))))) (c\<lparr>pinned := [par \<mapsto> pfid, lid \<mapsto> lf, pid \<mapsto> cf]\<rparr>) (\<lambda>r c'. r \<and> updated c (contents t) c')" (is "runs _ _ ?d _") for lf cf
  proof -
    have d: "content ?d = content c" "pinned ?d par = Some pfid" "pinned ?d lid = Some lf" "pinned ?d pid = Some cf" using F(4-6) by simp_all
    show ?thesis
      apply (rule page_read_step [OF d(2)], unfold d(1), rule x)
      apply (rule page_get_step [OF d(2)], unfold d(1) if_not_P [OF fc])
      apply (rule page_read_step [OF d(2)], unfold d(1), rule y)
      apply (rule steal_from_left_step [OF d(3) _ d(4) _ F(6) kk(3) fit'], unfold d(1), rule F(2), rule F(3))
      subgoal for p q
        by (rule finish_borrow [OF st t cap small ids i fit _ _ _ _ cells(1) ne cells(2) kk(2) cells(3), where p = p and q = q]) (use q in auto)
      done
  qed
  show ?thesis
    unfolding try_steal_left_def if_not_P [OF F(8)]
    apply (rule fetch_step, use F cap in \<open>simp add: can_fetch_def\<close>)
    subgoal for lf
      apply (rule mk_node_step [of _ lid], simp, use Node_check_node(1) [OF F(2)] in simp)
      apply (rule page_read_step [of _ lid], simp, simp, rule underflow_leaf(1) [OF F(2) full])
      apply (simp only: not_False_eq_True if_True)
      apply (rule fetch_step, use F cap in \<open>simp add: can_fetch_def\<close>)
      subgoal for cf
        apply (rule mk_node_step [of _ pid], simp, use Node_check_node(1) [OF F(3)] in simp)
        using core [of cf lf] by simp
      done
    done
qed

lemma borrow_right_runs:
  assumes st: "stores c t" and t: "t = plug path (pair_node par pre (Leaf pid bs) k (Leaf rid ((j, v) # (k', v') # as)) rs)"
    and cap: "3 \<le> capacity c" and small: "small_tree t" and full: "2020 \<le> space leaf_tail ((j, v) # (k', v') # as)" and low: "space leaf_tail bs < 2020"
    and i: "i = length (pre_cells pre pid)" and fit: "fits child_tail (pre_cells pre pid @ (k', rid) # ids rs)"
  shows "runs cached (try_steal_right pfid par pid i rid) (c\<lparr>pinned := [par \<mapsto> pfid]\<rparr>) (\<lambda>r c'. r \<and> updated c (contents t) c')"
proof (rule with_ids)
  assume "ids_ok (c\<lparr>pinned := [par \<mapsto> pfid]\<rparr>)"
  then have ids: "ids_ok c" using st by (auto simp: ids_ok_def stores_def quiet_def)
  note F = pair_facts [OF st [unfolded t] cap ids]
  have q: "quiet c" "pinned c = Map.empty" "changed c = {}" using st by (simp_all add: stores_def quiet_def)
  have "small_mark (j, Some v)" using small unfolding t by (auto simp: small_tree_def flat_plug)
  then have fit': "fits leaf_tail (bs @ [(j, v)])" using low small_cost(2) [of j v] by (simp add: fits_space space_def)
  have so: "sorted_keys ((j, v) # (k', v') # as)" using F(3) by (simp add: leaf_node_def)
  have kk: "\<forall>x \<in> set bs. fst x < j" "\<forall>x \<in> set (bs @ [(j, v)]). fst x < k'" "\<forall>x \<in> set ((k', v') # as). k' \<le> fst x"
    using F(12,13) so by fastforce+
  have cells: "(bs @ [(j, v)]) @ (k', v') # as = bs @ (j, v) # (k', v') # as" "bs @ [(j, v)] \<noteq> []" "(k', v') # as \<noteq> []" by simp_all
  obtain y where y: "key_at i (content c par) = Inr y" using key_at_slotted [OF inner_nodeD(1) [OF F(1)], of i] by (auto simp: i)
  have core: "runs cached (op_bind (page_read pfid (key_at i)) (\<lambda>_.
          op_bind (steal_from_right cf rf) (\<lambda>new_sep.
          op_bind (replace_separator pfid i new_sep) (\<lambda>_.
          op_bind (unpin_page pid True) (\<lambda>_.
          op_bind (unpin_page rid True) (\<lambda>_.
          op_bind (unpin_page par True) (\<lambda>_.
          op_return True))))))) (c\<lparr>pinned := [par \<mapsto> pfid, rid \<mapsto> rf, pid \<mapsto> cf]\<rparr>) (\<lambda>r c'. r \<and> updated c (contents t) c')" (is "runs _ _ ?d _") for rf cf
  proof -
    have d: "content ?d = content c" "pinned ?d par = Some pfid" "pinned ?d rid = Some rf" "pinned ?d pid = Some cf" using F(4-6) by simp_all
    show ?thesis
      apply (rule page_read_step [OF d(2)], unfold d(1), rule y)
      apply (rule steal_from_right_step [OF d(3) _ d(4) _ F(6) [symmetric] kk(1) fit'], unfold d(1), rule F(3), rule F(2), unfold fst_conv)
      subgoal for p q
        by (rule finish_borrow [OF st t cap small ids i fit _ _ _ _ cells kk(2,3), where p = q and q = p]) (use q F(6) in \<open>auto simp: fun_upd_twist\<close>)
      done
  qed
  show ?thesis
    unfolding try_steal_right_def if_not_P [OF F(9)]
    apply (rule fetch_step, use F cap in \<open>simp add: can_fetch_def\<close>)
    subgoal for rf
      apply (rule mk_node_step [of _ rid], simp, use Node_check_node(1) [OF F(3)] in simp)
      apply (rule page_read_step [of _ rid], simp, simp, rule underflow_leaf(1) [OF F(3) full])
      apply (simp only: not_False_eq_True if_True)
      apply (rule fetch_step, use F cap in \<open>simp add: can_fetch_def\<close>)
      subgoal for cf
        apply (rule mk_node_step [of _ pid], simp, use Node_check_node(1) [OF F(2)] in simp)
        using core [of cf rf] by simp
      done
    done
qed

end
