(* ===== verification/Btree_Remove.thy ===== *)
theory Btree_Remove
  imports Btree_Borrow
begin

section \<open>Removal from the tree\<close>

text \<open>
  Removal takes the cell out of its leaf. A leaf that is then less than half full is repaired with
  the help of its neighbours. This is right when the leaf can borrow a cell, that is, from its left
  neighbour if it has one and from its right neighbour if it is the first child. In the other cases the
  code may use the wrong separator, or it merges pages and loses a frame of the pool with each.
\<close>

subsection \<open>Leaves that can borrow\<close>

text \<open>The neighbour is at least half full, and the parent has room for the new separator.\<close>

fun can_borrow :: "ctx \<Rightarrow> page_id \<Rightarrow> bool" where
  "can_borrow (First par rs) pid \<longleftrightarrow> (case rs of
     (k, Leaf rid rcs) # rs' \<Rightarrow> 2020 \<le> space leaf_tail rcs \<and> fits child_tail ((fst (rcs ! 1), rid) # ids rs') | _ \<Rightarrow> False)"
| "can_borrow (Later par u ls k rs) pid \<longleftrightarrow> (case if ls = [] then u else snd (last ls) of
     Leaf lid lcs \<Rightarrow> 2020 \<le> space leaf_tail lcs \<and> fits child_tail (ids ls @ (fst (last lcs), pid) # ids rs) | Inner _ _ _ \<Rightarrow> False)"

definition leaf_removable :: "bytes \<Rightarrow> ctx \<Rightarrow> tree \<Rightarrow> bool" where
  "leaf_removable key x h \<longleftrightarrow> (case h of
     Leaf pid cs \<Rightarrow> key \<in> fst ` set cs \<longrightarrow> 2020 \<le> space leaf_tail (del_key key cs) \<or> can_borrow x pid | Inner _ _ _ \<Rightarrow> True)"

text \<open>The leaf with the key is the root, stays at least half full, or can borrow.\<close>

fun removable :: "bytes \<Rightarrow> tree \<Rightarrow> bool" where
  "removable key (Leaf pid cs) \<longleftrightarrow> True"
| "removable key (Inner par t ts) \<longleftrightarrow> removable key t \<and> (\<forall>c \<in> set ts. removable key (snd c)) \<and>
     leaf_removable key (First par ts) t \<and>
     (\<forall>i < length ts. leaf_removable key (Later par t (take i ts) (fst (ts ! i)) (drop (Suc i) ts)) (snd (ts ! i)))"

lemma removable_fill: "removable key (fill x h) \<Longrightarrow> removable key h \<and> leaf_removable key x h"
proof (cases x)
  case (Later par u ls k rs)
  assume r: "removable key (fill x h)"
  have "length ls < length (ls @ (k, h) # rs)" by simp
  with r Later have "leaf_removable key (Later par u (take (length ls) (ls @ (k, h) # rs)) (fst ((ls @ (k, h) # rs) ! length ls))
      (drop (Suc (length ls)) (ls @ (k, h) # rs))) (snd ((ls @ (k, h) # rs) ! length ls))" unfolding Later fill.simps removable.simps by blast
  then show ?thesis using Later r by simp
qed simp

lemma removable_plug: "removable key (plug path h) \<Longrightarrow> removable key h"
  by (induction path arbitrary: h) (auto dest: removable_fill)

subsection \<open>Repair by borrowing\<close>

lemma space_two:
  assumes "2020 \<le> space leaf_tail cs" "\<forall>c \<in> set cs. small_mark (fst c, Some (snd c))"
  obtains j v k v' as where "cs = (j, v) # (k, v') # as"
proof -
  have "cost leaf_tail c \<le> 1010" if "c \<in> set cs" for c using that assms(2) small_cost(2) [of "fst c" "snd c"] by simp
  then have "length cs > 1" using assms(1) by (cases cs; cases "tl cs") (auto simp: space_def)
  then show ?thesis using that by (cases cs; cases "tl cs") auto
qed

lemma fix_left:
  assumes st: "stores c t" and t: "t = plug path (pair_node par pre (Leaf lid lcs) k (Leaf pid bs) rs)"
    and cap: "3 \<le> capacity c" and small: "small_tree t" and full: "2020 \<le> space leaf_tail lcs" and low: "space leaf_tail bs < 2020"
    and fit: "fits child_tail (pre_cells pre lid @ (fst (last lcs), pid) # ids rs)"
  shows "runs cached (fix_underflow pid (par # bcs)) c (\<lambda>_ c'. updated c (contents t) c')"
proof (rule with_ids)
  assume ids: "ids_ok c"
  note F = pair_facts [OF st [unfolded t] cap ids]
  have q: "pinned c = Map.empty" using st by (simp add: stores_def quiet_def)
  have "lcs \<noteq> []" using full by (auto simp: space_def)
  then obtain as k' v where lcs: "lcs = as @ [(k', v)]" by (metis append_butlast_last_id surj_pair)
  let ?i = "length (pre_cells pre lid)" and ?cs = "pre_cells pre lid @ (k, pid) # ids rs"
  have "?i < length ?cs" "snd (?cs ! ?i) = pid" by simp_all
  moreover have "(if ?i = 0 then first_child (content c par) else snd (?cs ! (?i - 1))) = lid"
    using F(11) by (cases "(pre, lid)" rule: pre_cells.cases) (simp_all add: nth_append)
  ultimately obtain r where r: "locate_child pid (content c par) = Inr (?i, lid, r)" using locate_later [OF F(1) _ F(10), of ?i] by auto
  have fit': "fits child_tail (pre_cells pre lid @ (k', pid) # ids rs)" using fit lcs by simp
  note B = borrow_left_runs [OF st t [unfolded lcs] cap small full [unfolded lcs] low refl fit']
  show ?thesis
    unfolding fix_underflow.simps
    apply (rule fetch_step, use F q cap in \<open>simp add: can_fetch_def\<close>)
    apply (rule mk_node_step [of _ par], simp, use Node_check_node(2) [OF F(1)] in simp)
    apply (rule page_read_step [of _ par], simp, simp, rule r)
    subgoal for pfid
      unfolding prod.case using q by (intro runs_bind [OF B [of pfid, folded q]]) (auto intro: runs_return)
    done
qed

lemma fix_right:
  assumes st: "stores c t" and t: "t = plug path (pair_node par None (Leaf pid bs) k (Leaf rid rcs) rs)"
    and cap: "3 \<le> capacity c" and small: "small_tree t" and full: "2020 \<le> space leaf_tail rcs" and low: "space leaf_tail bs < 2020"
    and fit: "fits child_tail ((fst (rcs ! 1), rid) # ids rs)"
  shows "runs cached (fix_underflow pid (par # bcs)) c (\<lambda>_ c'. updated c (contents t) c')"
proof (rule with_ids)
  assume ids: "ids_ok c"
  note F = pair_facts [OF st [unfolded t] cap ids]
  have q: "pinned c = Map.empty" using st by (simp add: stores_def quiet_def)
  have "\<forall>c \<in> set rcs. small_mark (fst c, Some (snd c))" using small unfolding t by (auto simp: small_tree_def flat_plug)
  from space_two [OF full this] obtain j v k' v' as where rcs: "rcs = (j, v) # (k', v') # as" by blast
  have r: "locate_child pid (content c par) = Inr (0, INVALID_PAGE_ID, rid)" using locate_first [of "content c par"] F(1,11) by simp
  have fit': "fits child_tail (pre_cells None pid @ (k', rid) # ids rs)" using fit rcs by simp
  have "0 = length (pre_cells None pid)" by simp
  note B = borrow_right_runs [OF st t [unfolded rcs] cap small full [unfolded rcs] low this fit']
  show ?thesis
    unfolding fix_underflow.simps
    apply (rule fetch_step, use F q cap in \<open>simp add: can_fetch_def\<close>)
    apply (rule mk_node_step [of _ par], simp, use Node_check_node(2) [OF F(1)] in simp)
    apply (rule page_read_step [of _ par], simp, simp, rule r)
    subgoal for pfid
      unfolding prod.case try_steal_left_def if_P [OF refl]
      apply (rule runs_skip)
      unfolding if_False
      using q by (intro runs_bind [OF B [of pfid, folded q]]) (auto intro: runs_return)
    done
qed

subsection \<open>Removal\<close>

lemma del_key_append_right: "\<forall>c \<in> set bs. fst c \<noteq> k \<Longrightarrow> del_key k (as @ bs) = del_key k as @ bs"
proof (induction as)
  case Nil
  have "k \<notin> fst ` set bs" using Nil by auto
  then show ?case by simp
qed auto

lemma del_between:
  assumes "\<forall>e \<in> set as. below key e" "\<forall>e \<in> set bs. key < fst e"
  shows "del_key key (entries (as @ marks cs @ bs)) = entries (as @ marks (del_key key cs) @ bs)"
    "key \<in> fst ` set (entries (as @ marks cs @ bs)) \<longleftrightarrow> key \<in> fst ` set cs"
proof -
  have A: "\<forall>c \<in> set (entries as). fst c < key" and B: "\<forall>c \<in> set (entries bs). key < fst c"
    using assms entries_in by fastforce+
  have a: "key \<notin> fst ` set (entries as)" using A by force
  have b: "\<forall>c \<in> set (entries bs). fst c \<noteq> key" using B by force
  show "del_key key (entries (as @ marks cs @ bs)) = entries (as @ marks (del_key key cs) @ bs)"
    by (simp add: del_key_append [OF a] del_key_append_right [OF b])
  have "key \<notin> fst ` set (entries bs)" using b by force
  with a show "key \<in> fst ` set (entries (as @ marks cs @ bs)) \<longleftrightarrow> key \<in> fst ` set cs" by (simp add: image_Un)
qed

lemma remove_leaf:
  assumes "leaf_node p cs" "key \<in> fst ` set cs"
  obtains q where "remove_cell (lb key cs) p = (Inr (), q)" "leaf_node q (del_key key cs)" "node_meta q = node_meta p"
    "2020 \<le> space leaf_tail (del_key key cs) \<Longrightarrow> underflow q = Inr False" "\<exists>b. underflow q = Inr b"
proof -
  have L: "slotted leaf_tail p cs" "is_leaf p" "sorted_keys cs" using assms(1) by (auto simp: leaf_node_def)
  have i: "lb key cs < length cs" using lb_present [OF L(3), of key] assms(2) by blast
  obtain q where q: "remove_cell (lb key cs) p = (Inr (), q)" "slotted leaf_tail q (take (lb key cs) cs @ drop (Suc (lb key cs)) cs)"
    "node_meta q = node_meta p" using remove_cell_slotted [OF L(1) i] by blast
  have del: "take (lb key cs) cs @ drop (Suc (lb key cs)) cs = del_key key cs" using del_key_lb [OF L(3), of key] assms(2) by simp
  note S = q(2) [unfolded del]
  have "leaf_node q (del_key key cs)"
    using S L(3) assms(1) meta_type [OF q(3)] by (simp add: leaf_node_def is_leaf_def)
  moreover have "underflow q = Inr False" if "2020 \<le> space leaf_tail (del_key key cs)"
    using that slotted_used(1) [OF S] slottedD(3-5) [OF S]
    by (simp add: underflow_def free_space_slotted [OF S] space_eq)
  moreover have "\<exists>b. underflow q = Inr b" using free_space_slotted [OF S] by (simp add: underflow_def)
  ultimately show ?thesis using that q(1,3) by blast
qed

lemma small_del: "small_tree (plug path (Leaf pid cs)) \<Longrightarrow> small_tree (plug path (Leaf pid (del_key key cs)))"
  using del_key_subset [of key cs] by (fastforce simp: small_tree_def flat_plug)

lemma root_get_step:
  "runs cached (k (root_id c)) c Q \<Longrightarrow> runs cached (op_bind (op_gets tree_root) k) c Q"
  using cachedD(10) by (fastforce simp: runs_def op_bind_def op_gets_def)

lemma fix_underflow_runs:
  assumes st: "stores c t" and t: "t = plug (x # path) (Leaf pid bs)" and cap: "3 \<le> capacity c" and small: "small_tree t"
    and low: "space leaf_tail bs < 2020" and can: "can_borrow x pid"
  shows "runs cached (fix_underflow pid (map ctx_id (x # path))) c (\<lambda>_ c'. updated c (contents t) c')"
proof (cases x)
  case (First par rs)
  then obtain k rid rcs rs' where rs: "rs = (k, Leaf rid rcs) # rs'" "2020 \<le> space leaf_tail rcs" "fits child_tail ((fst (rcs ! 1), rid) # ids rs')"
    using can by (auto split: list.splits tree.splits)
  have "t = plug path (pair_node par None (Leaf pid bs) k (Leaf rid rcs) rs')" using t First rs(1) by simp
  from fix_right [OF st this cap small rs(2) low rs(3), of "map ctx_id path"] show ?thesis using First by simp
next
  case (Later par u ls k rs)
  obtain lid lcs where l: "(if ls = [] then u else snd (last ls)) = Leaf lid lcs" "2020 \<le> space leaf_tail lcs"
    "fits child_tail (ids ls @ (fst (last lcs), pid) # ids rs)"
    using can Later by (auto split: tree.splits)
  define pre where "pre = (if ls = [] then None else Some (u, butlast ls, fst (last ls)))"
  have ls: "ls \<noteq> [] \<Longrightarrow> ls = butlast ls @ [(fst (last ls), Leaf lid lcs)]"
    using l(1) append_butlast_last_id [of ls] by (metis (full_types) prod.collapse)
  have "t = plug path (pair_node par pre (Leaf lid lcs) k (Leaf pid bs) rs)"
    using t Later l(1) ls by (cases "ls = []") (simp_all add: pre_def, metis append.assoc append_Cons append_Nil)
  moreover have "pre_cells pre lid = ids ls"
  proof (cases "ls = []")
    case False
    have "ids ls = ids (butlast ls @ [(fst (last ls), Leaf lid lcs)])" using ls [OF False] by simp
    then show ?thesis using False by (simp add: pre_def)
  qed (simp add: pre_def)
  ultimately have "runs cached (fix_underflow pid (par # map ctx_id path)) c (\<lambda>_ c'. updated c (contents t) c')"
    using fix_left [OF st _ cap small l(2) low] l(3) by simp
  then show ?thesis using Later by simp
qed

text \<open>Removal of a key that the leaf has.\<close>

lemma remove_at_leaf:
  fixes c :: "'r cache"
  assumes t_def: "t = plug path (Leaf pid cs)" and st: "stores c t" and cap: "3 \<le> capacity c" and small: "small_tree t" and rem: "removable key t"
    and to: "leads_to key path" and key: "key \<in> fst ` set cs" and ids: "ids_ok c"
  shows "runs cached (op_bind (at_frame fid (remove_cell (lb key cs))) (\<lambda>_.
       op_bind (page_read fid underflow) (\<lambda>under.
       op_bind (op_gets tree_root) (\<lambda>root.
       op_bind (unpin_page pid True) (\<lambda>_.
       op_bind (if under \<and> pid \<noteq> root then fix_underflow pid (map ctx_id path) else op_return ()) (\<lambda>_.
       op_return True)))))) (c\<lparr>pinned := [pid \<mapsto> fid]\<rparr>)
     (\<lambda>found c'. found \<and> updated c (del_key key (contents t)) c' \<and> leaf_kept (del_key key) t c c')"
    (is "runs _ _ _ ?Q")
proof -
  note st' = st [unfolded t_def]
  note S = st' [unfolded stores_def]
  have L: "leaf_node (content c pid) cs" using S by (simp add: tree_at_plug)
  obtain q where q: "remove_cell (lb key cs) (content c pid) = (Inr (), q)" "leaf_node q (del_key key cs)"
      "node_meta q = node_meta (content c pid)"
    and under: "\<exists>b. underflow q = Inr b" using remove_leaf [OF L key] by metis
  obtain b where b: "underflow q = Inr b" using under by blast
  have "page_id (content c pid) = pid" using S ids by (auto simp: pages_plug_set ids_ok_def)
  then have ok: "page_ok q" "page_id q = pid" using q(2,3) nodes_ok(1) by (auto simp: node_meta_def)
  let ?c = "c\<lparr>content := (content c)(pid := q)\<rparr>" and ?u = "plug path (Leaf pid (del_key key cs))"
  have "ordered (path_before path @ marks (del_key key cs) @ path_after path)" by (rule ordered_del) (use S in \<open>simp add: flat_plug\<close>)
  note new = leaf_changed [OF st' q(2,3) this]
  have del: "del_key key (contents t) = entries (path_before path @ marks (del_key key cs) @ path_after path)"
    using del_between [of "path_before path" key "path_after path" cs] to by (simp add: t_def contents_def flat_plug leads_to_def)
  have sm: "small_tree ?u" by (rule small_del [OF small [unfolded t_def]])
  have fin: "updated c (del_key key (contents t)) ?c \<and> leaf_kept (del_key key) t c ?c"
    using leaf_replaced [OF new _ del [unfolded t_def]] sm by (simp add: t_def small_tree_def flat_plug)
  have repair: "runs cached (fix_underflow pid (map ctx_id path)) ?c (\<lambda>_ c'. ?Q True c')" if low: "b" "pid \<noteq> root_id c"
  proof -
    obtain x xs where path: "path = x # xs" using low(2) S by (cases path) simp_all
    have "leaf_removable key x (Leaf pid cs)" using rem removable_plug [of key xs "fill x (Leaf pid cs)"] removable_fill unfolding t_def path by simp
    moreover have sp: "space leaf_tail (del_key key cs) < 2020" using underflow_leaf(2) [OF q(2)] b low(1) by simp
    ultimately have "can_borrow x pid" using key by (simp add: leaf_removable_def)
    from fix_underflow_runs [OF new [unfolded path] refl _ sm [unfolded path] sp this] cap
    have "runs cached (fix_underflow pid (map ctx_id path)) ?c (\<lambda>_ c'. updated ?c (contents ?u) c')" unfolding path by simp
    moreover have "contents ?u = del_key key (contents t)" unfolding del by (simp add: contents_def flat_plug)
    moreover have "leaf_kept (del_key key) t c c'" for c' using plug_leaf [of path pid cs] path by (auto simp: leaf_kept_def t_def)
    ultimately show ?thesis by (auto simp: updated_def elim!: runs_weaken)
  qed
  have ch: "changed c = {}" and root: "root_id ?c = root_id c" using S by (simp_all add: quiet_def)
  have last: "runs cached (op_bind (if b \<and> pid \<noteq> root_id c then fix_underflow pid (map ctx_id path) else op_return ()) (\<lambda>_. op_return True)) ?c ?Q"
    using fin by (cases "b \<and> pid \<noteq> root_id c") (auto intro!: runs_skip runs_return runs_bind [OF repair])
  show ?thesis
    apply (rule at_frame_step [of _ pid], simp, simp, rule q(1), rule ok, rule ok)
    apply (rule page_read_step [of _ pid], simp, simp, rule b)
    apply (rule root_get_step)
    apply (rule unpin_step, simp, simp)
    subgoal using last S ch by (simp add: quiet_restore split del: if_split)
    done
qed

lemma btree_remove_runs:
  fixes c :: "'r cache"
  assumes "stores c t" "3 \<le> capacity c" "small_tree t" "removable key t"
  shows "runs cached (btree_remove key) c (\<lambda>found c'. found = (key \<in> fst ` set (contents t)) \<and> updated c (del_key key (contents t)) c' \<and> leaf_kept (del_key key) t c c')"
  unfolding btree_remove_def
proof (rule with_ids, rule runs_bind [OF find_leaf_runs [OF assms(1)]])
  show "0 < capacity c" using assms(2) by simp
  assume ids: "ids_ok c"
  fix r c' assume "found_leaf key c t r c'"
  then obtain fid path pid cs where r: "r = (fid, map ctx_id path)" "t = plug path (Leaf pid cs)" "leads_to key path"
    "c' = c\<lparr>pinned := [pid \<mapsto> fid]\<rparr>" by (cases r) (auto simp: found_leaf_def)
  note S = assms(1) [unfolded r(2) stores_def]
  have L: "leaf_node (content c pid) cs" using S by (simp add: tree_at_plug)
  have pid: "page_id (content c pid) = pid" "pinned c' pid = Some fid" using S ids r(4) by (auto simp: pages_plug_set ids_ok_def)
  have same: "content c' = content c" "changed c' = {}" using r(4) S by (simp_all add: quiet_def)
  have found: "key \<in> fst ` set (contents t) \<longleftrightarrow> key \<in> fst ` set cs"
    using del_between [of "path_before path" key "path_after path" cs] r(3) by (simp add: r(2) contents_def flat_plug leads_to_def)
  let ?Q = "\<lambda>found c'. found = (key \<in> fst ` set (contents t)) \<and> updated c (del_key key (contents t)) c' \<and> leaf_kept (del_key key) t c c'"
  have missing: "runs cached (op_bind (unpin_page pid False) (\<lambda>_. op_return False)) c' ?Q" if k: "key \<notin> fst ` set cs"
  proof -
    have "leaf_kept (del_key key) t c c" using k assms(1) plug_leaf [of path pid cs] by (auto simp: leaf_kept_def r(2))
    moreover have "updated c (del_key key (contents t)) c" using k found assms(1,3) by (auto simp: updated_def)
    moreover have "c\<lparr>pinned := (\<lambda>_. None), changed := {}\<rparr> = c" using S by (simp add: quiet_def)
    ultimately show ?thesis using r(4) k found same by - (rule unpin_step, simp, simp, rule runs_return, simp)
  qed
  note there = remove_at_leaf [OF r(2) assms r(3) _ ids, of fid, folded r(4)]
  show "runs cached (case r of (fid, breadcrumbs) \<Rightarrow> op_bind (page_get fid page_id) (\<lambda>leaf_id.
     op_bind (mk_node fid) (\<lambda>_.
     op_bind (page_read fid (leaf_slot key)) (\<lambda>r. case r of
       None \<Rightarrow> op_bind (unpin_page leaf_id False) (\<lambda>_. op_return False)
     | Some slot \<Rightarrow>
         op_bind (at_frame fid (remove_cell slot)) (\<lambda>_.
         op_bind (page_read fid underflow) (\<lambda>under.
         op_bind (op_gets tree_root) (\<lambda>root.
         op_bind (unpin_page leaf_id True) (\<lambda>_.
         op_bind (if under \<and> leaf_id \<noteq> root then fix_underflow leaf_id breadcrumbs else op_return ()) (\<lambda>_.
         op_return True))))))))) c' ?Q"
    unfolding r(1) prod.case
    apply (rule page_get_step [OF pid(2)], rule mk_node_step [OF pid(2)])
    subgoal using same Node_check_node(1) [OF L] by simp
    apply (rule page_read_step [OF pid(2)], unfold same pid(1), rule leaf_slot_leaf [OF L])
    subgoal using missing there found by (cases "key \<in> fst ` set cs") simp_all
    done
qed

end
