(* ===== verification/Kv_Store.thy ===== *)
theory Kv_Store
  imports Prelude
begin

section \<open>What a key-value store promises\<close>

text \<open>
  The interface between the B+Tree and its clients, recovery and the transactions. \<open>holds s m\<close>
  says that the store in state \<open>s\<close> contains exactly the map \<open>m\<close>. The laws of insertion
  and removal have preconditions, because the store may run out of pages and because removal is
  right only in some states. \<open>rest\<close> is the part of the state that the store does not touch.
  A client runs a list of updates; \<open>kv_can_all\<close> says that the precondition of each holds when its
  turn comes.
\<close>

type_synonym kv_map = "bytes \<rightharpoonup> bytes"

datatype kv_update = Put_key bytes bytes | Delete_key bytes

fun kv_apply :: "kv_update \<Rightarrow> kv_map \<Rightarrow> kv_map" where
  "kv_apply (Put_key k v) m = m(k \<mapsto> v)"
| "kv_apply (Delete_key k) m = m(k := None)"

definition kv_step :: "(bytes \<Rightarrow> bytes \<Rightarrow> ('s, unit) op) \<Rightarrow> (bytes \<Rightarrow> ('s, bool) op) \<Rightarrow> kv_update \<Rightarrow> ('s, unit) op" where
  "kv_step ins rem u = (case u of Put_key k v \<Rightarrow> ins k v | Delete_key k \<Rightarrow> op_bind (rem k) (\<lambda>_. op_return ()))"

fun update_key :: "kv_update \<Rightarrow> bytes" where
  "update_key (Put_key k v) = k"
| "update_key (Delete_key k) = k"

fun update_val :: "kv_update \<Rightarrow> bytes option" where
  "update_val (Put_key k v) = Some v"
| "update_val (Delete_key k) = None"

lemma kv_apply_eq: "kv_apply u m = m(update_key u := update_val u)"
  by (cases u) auto

text \<open>The last update of a key decides.\<close>

lemma find_append: "find P (xs @ ys) = (case find P xs of None \<Rightarrow> find P ys | Some x \<Rightarrow> Some x)"
  by (induction xs) auto

lemma fold_kv_apply:
  "fold kv_apply us m k = (case find (\<lambda>u. update_key u = k) (rev us) of None \<Rightarrow> m k | Some u \<Rightarrow> update_val u)"
proof (induction us arbitrary: m)
  case (Cons u us)
  have "fold kv_apply (u # us) m k = fold kv_apply us (kv_apply u m) k" by simp
  also have "\<dots> = (case find (\<lambda>u. update_key u = k) (rev us) of None \<Rightarrow> kv_apply u m k | Some u \<Rightarrow> update_val u)" by (rule Cons)
  also have "\<dots> = (case find (\<lambda>u. update_key u = k) (rev (u # us)) of None \<Rightarrow> m k | Some u \<Rightarrow> update_val u)"
    by (auto simp: kv_apply_eq find_append split: option.split)
  finally show ?case .
qed simp

lemma find_map_filter: "find Q (map f (filter P xs)) = map_option f (find (\<lambda>x. P x \<and> Q (f x)) xs)"
  by (induction xs) auto

text \<open>The precondition of an update, and of each update of a list when its turn comes.\<close>

fun kv_can :: "(bytes \<Rightarrow> bytes \<Rightarrow> 's \<Rightarrow> bool) \<Rightarrow> (bytes \<Rightarrow> 's \<Rightarrow> bool) \<Rightarrow> kv_update \<Rightarrow> 's \<Rightarrow> bool" where
  "kv_can can_put can_delete (Put_key k v) s = can_put k v s"
| "kv_can can_put can_delete (Delete_key k) s = can_delete k s"

fun kv_can_all :: "(bytes \<Rightarrow> bytes \<Rightarrow> ('s, unit) op) \<Rightarrow> (bytes \<Rightarrow> ('s, bool) op) \<Rightarrow>
    (bytes \<Rightarrow> bytes \<Rightarrow> 's \<Rightarrow> bool) \<Rightarrow> (bytes \<Rightarrow> 's \<Rightarrow> bool) \<Rightarrow> kv_update list \<Rightarrow> 's \<Rightarrow> bool" where
  "kv_can_all ins rem can_put can_delete [] s \<longleftrightarrow> True"
| "kv_can_all ins rem can_put can_delete (u # us) s \<longleftrightarrow>
     kv_can can_put can_delete u s \<and> kv_can_all ins rem can_put can_delete us (snd (kv_step ins rem u s))"

locale kv_store =
  fixes holds :: "'s \<Rightarrow> kv_map \<Rightarrow> bool"
    and get :: "bytes \<Rightarrow> ('s, bytes option) op"
    and ins :: "bytes \<Rightarrow> bytes \<Rightarrow> ('s, unit) op"
    and rem :: "bytes \<Rightarrow> ('s, bool) op"
    and can_put :: "bytes \<Rightarrow> bytes \<Rightarrow> 's \<Rightarrow> bool"
    and can_delete :: "bytes \<Rightarrow> 's \<Rightarrow> bool"
    and rest :: "'s \<Rightarrow> 'r"
  assumes get_law: "holds s m \<Longrightarrow> \<exists>s'. get k s = (Inr (m k), s') \<and> holds s' m \<and> rest s' = rest s"
    and get_put: "holds s m \<Longrightarrow> can_put k v s \<Longrightarrow> can_put k v (snd (get k' s))"
    and get_delete: "holds s m \<Longrightarrow> can_delete k s \<Longrightarrow> can_delete k (snd (get k' s))"
    and ins_law: "holds s m \<Longrightarrow> can_put k v s \<Longrightarrow> \<exists>s'. ins k v s = (Inr (), s') \<and> holds s' (m(k \<mapsto> v)) \<and> rest s' = rest s"
    and rem_law: "holds s m \<Longrightarrow> can_delete k s \<Longrightarrow>
      \<exists>s'. rem k s = (Inr (m k \<noteq> None), s') \<and> holds s' (m(k := None)) \<and> rest s' = rest s"
begin

text \<open>A state contains one map only, because a lookup has one result.\<close>

lemma holds_unique: "holds s m \<Longrightarrow> holds s m' \<Longrightarrow> m = m'"
proof
  fix k assume "holds s m" "holds s m'"
  then show "m k = m' k" using get_law [of s m k] get_law [of s m' k] by force
qed

lemma put_get: "holds s m \<Longrightarrow> can_put k v s \<Longrightarrow> \<exists>s'. ins k v s = (Inr (), s') \<and> fst (get k' s') = Inr ((m(k \<mapsto> v)) k')"
  using ins_law get_law by (metis fst_conv)

lemma delete_get: "holds s m \<Longrightarrow> can_delete k s \<Longrightarrow>
    \<exists>s'. rem k s = (Inr (m k \<noteq> None), s') \<and> fst (get k' s') = Inr ((m(k := None)) k')"
  using rem_law get_law by (metis fst_conv)

lemma step_law:
  assumes "holds s m" "kv_can can_put can_delete u s"
  shows "\<exists>s'. kv_step ins rem u s = (Inr (), s') \<and> holds s' (kv_apply u m) \<and> rest s' = rest s"
  using assms ins_law rem_law by (cases u) (fastforce simp: kv_step_def op_simps)+

lemma updates_law:
  assumes "holds s m" "kv_can_all ins rem can_put can_delete us s"
  shows "\<exists>s'. op_foreach (kv_step ins rem) us s = (Inr (), s') \<and> holds s' (fold kv_apply us m) \<and> rest s' = rest s"
  using assms
proof (induction us arbitrary: s m)
  case (Cons u us)
  obtain s1 where s1: "kv_step ins rem u s = (Inr (), s1)" "holds s1 (kv_apply u m)" "rest s1 = rest s"
    using step_law [of s m u] Cons.prems by auto
  with Cons.IH [of s1 "kv_apply u m"] Cons.prems(2) show ?case by (auto simp: op_simps)
qed (simp add: op_simps)

end

end
