(* ===== verification/Btree_Store.thy ===== *)
theory Btree_Store
  imports Btree_Remove Kv_Store
begin

section \<open>The B+Tree is a key-value store\<close>

text \<open>
  The state of the tree seen by its clients: the map it holds. Insertion needs a key and value of at
  most 1002 bytes together (larger ones may be lost in a split) and fewer than \<open>2 ^ 30\<close> pages, which
  leaves enough page ids for every split on the way to the root. Removal needs a leaf that stays
  half full or can borrow a cell: the other ways to repair a leaf break the order of separators or lose
  frames of the pool.
\<close>

definition holds_tree :: "'r btree_scheme \<Rightarrow> tree \<Rightarrow> bool" where
  "holds_tree s t \<longleftrightarrow> (\<exists>c. cached c s \<and> 3 \<le> capacity c \<and> stores c t \<and> small_tree t)"

definition tree_holds :: "'r btree_scheme \<Rightarrow> kv_map \<Rightarrow> bool" where
  "tree_holds s m \<longleftrightarrow> (\<exists>t. holds_tree s t \<and> m = map_of (contents t))"

definition tree_can_put :: "bytes \<Rightarrow> bytes \<Rightarrow> 'r btree_scheme \<Rightarrow> bool" where
  "tree_can_put k v s \<longleftrightarrow> length k + length v \<le> 1002 \<and> unat (num_pages s) < 1073741824"

definition tree_can_delete :: "bytes \<Rightarrow> 'r btree_scheme \<Rightarrow> bool" where
  "tree_can_delete k s \<longleftrightarrow> (\<exists>t. holds_tree s t \<and> removable k t)"

lemma holds_treeE:
  assumes "holds_tree s t"
  obtains c where "cached c s" "3 \<le> capacity c" "stores c t" "small_tree t"
  using assms by (auto simp: holds_tree_def)

lemma stores_sorted: "stores c t \<Longrightarrow> sorted_keys (contents t)"
  unfolding stores_def contents_def by (blast intro: ordered_entries)

lemma updated_holds:
  assumes "cached c' s'" "updated c cs c'" "3 \<le> capacity c"
  shows "\<exists>t. holds_tree s' t \<and> contents t = cs"
proof -
  obtain t where t: "stores c' t" "small_tree t" "contents t = cs" "capacity c' = capacity c" using assms(2) by (auto simp: updated_def)
  then have "holds_tree s' t" unfolding holds_tree_def using assms(1,3) by (intro exI [of _ c']) simp
  with t(3) show ?thesis by blast
qed

lemma cached_more: "cached c s \<Longrightarrow> btree.more s = others c"
  by (rule cachedD)

lemma holds_tree_cong:
  assumes "holds_tree s t" "same_pool s' s" "tree_root s' = tree_root s"
  shows "holds_tree s' t"
proof -
  obtain c where c: "cached c s" "3 \<le> capacity c" "stores c t" "small_tree t" by (rule holds_treeE [OF assms(1)])
  let ?c = "\<lparr>content = content c, pinned = pinned c, changed = changed c, allocated_ids = allocated_ids c,
    capacity = capacity c, growth = growth c, root_id = root_id c, saved_root = saved_root c, others = btree.more s'\<rparr>"
  have "cached ?c s'" using c(1) same_poolD [OF assms(2)] same_pool_header [OF assms(2)] assms(3) by (simp add: cached_def)
  moreover have "stores ?c t" using c(3) by (simp add: stores_def quiet_def)
  ultimately show ?thesis unfolding holds_tree_def using c(2,4) by (intro exI [of _ ?c]) simp
qed

lemma tree_holds_cong: "tree_holds s m \<Longrightarrow> same_pool s' s \<Longrightarrow> tree_root s' = tree_root s \<Longrightarrow> tree_holds s' m"
  using holds_tree_cong unfolding tree_holds_def by blast

text \<open>The pages the file may still grow by are a bound, and any smaller one is as good.\<close>

lemma cached_growth: "cached c s \<Longrightarrow> unat (num_pages s) + g \<le> 2147483647 \<Longrightarrow> cached (c\<lparr>growth := g\<rparr>) s"
  by (simp add: cached_def)

lemma tree_pages_few:
  assumes "cached c s" "stores c t"
  shows "length (pages t) < unat (num_pages s)"
proof -
  have "length (pages t) = card (set (pages t))" using assms(2) by (simp add: stores_def distinct_card)
  also have "\<dots> \<le> card (allocated_ids c)" using assms(2) allocated_less(1) [OF assms(1)] by (auto simp: stores_def intro: card_mono)
  also have "\<dots> < unat (num_pages s)" by (rule allocated_less(2) [OF assms(1)])
  finally show ?thesis .
qed

lemma tree_get_law:
  assumes "holds_tree s t"
  shows "\<exists>s'. btree_get key s = (Inr (map_of (contents t) key), s') \<and> holds_tree s' t \<and> btree.more s' = btree.more s \<and>
    unat (num_pages s') \<le> unat (num_pages s)"
proof -
  obtain c where c: "cached c s" "3 \<le> capacity c" "stores c t" "small_tree t" by (rule holds_treeE [OF assms])
  let ?c = "c\<lparr>growth := 2147483647 - unat (num_pages s)\<rparr>"
  have n: "unat (num_pages s) \<le> 2147483647" using cachedD(9) [OF c(1)] by simp
  have d: "cached ?c s" by (rule cached_growth [OF c(1)]) (use n in simp)
  have st: "stores ?c t" using c(3) by (simp add: stores_def quiet_def)
  have "0 < capacity ?c" using c(2) by simp
  from runsD [OF btree_get_runs [OF st this] d] obtain s' where
    s': "btree_get key s = (Inr (map_of (contents t) key), s')" "cached ?c s'" by blast
  moreover have "holds_tree s' t" unfolding holds_tree_def using s'(2) c(2,4) st by (intro exI [of _ ?c]) simp
  moreover have "unat (num_pages s') \<le> unat (num_pages s)" using cachedD(9) [OF s'(2)] n by simp
  ultimately show ?thesis using cached_more [OF d] cached_more [OF s'(2)] by simp
qed

text \<open>A root that is a leaf stays one as long as its entries fit on the page, and takes no new page.\<close>

definition leaf_stays :: "((bytes \<times> bytes) list \<Rightarrow> (bytes \<times> bytes) list) \<Rightarrow> tree \<Rightarrow> 'r btree_scheme \<Rightarrow> 'r btree_scheme \<Rightarrow> bool" where
  "leaf_stays f t s s' \<longleftrightarrow> (\<forall>pid cs. t = Leaf pid cs \<longrightarrow> fits leaf_tail (f cs) \<longrightarrow>
     holds_tree s' (Leaf pid (f cs)) \<and> unat (num_pages s') \<le> unat (num_pages s))"

lemma leaf_staysI:
  assumes "cached c s" "cached c' s'" "\<And>pid cs. t = Leaf pid cs \<Longrightarrow> small_tree (Leaf pid (f cs))" "leaf_kept f t c c'"
    "3 \<le> capacity c'" "growth c = 2147483647 - unat (num_pages s)" "unat (num_pages s) \<le> 2147483647"
  shows "leaf_stays f t s s'"
  unfolding leaf_stays_def
proof (intro allI impI)
  fix pid cs assume t: "t = Leaf pid cs" "fits leaf_tail (f cs)"
  with assms(4) have k: "stores c' (Leaf pid (f cs))" "growth c' = growth c" by (simp_all add: leaf_kept_def)
  have "unat (num_pages s') \<le> unat (num_pages s)" using cachedD(9) [OF assms(2)] k(2) assms(6,7) by linarith
  moreover have "holds_tree s' (Leaf pid (f cs))" using assms(2,5) k(1) assms(3) [OF t(1)] by (auto simp: holds_tree_def)
  ultimately show "holds_tree s' (Leaf pid (f cs)) \<and> unat (num_pages s') \<le> unat (num_pages s)" by blast
qed

lemma tree_put_law:
  assumes "holds_tree s t" "tree_can_put key val s"
  shows "\<exists>s' t'. btree_insert key val s = (Inr (), s') \<and> holds_tree s' t' \<and> contents t' = put_key key val (contents t) \<and>
    btree.more s' = btree.more s \<and>
    leaf_stays (put_key key val) t s s'"
proof -
  obtain c where c: "cached c s" "3 \<le> capacity c" "stores c t" "small_tree t" by (rule holds_treeE [OF assms(1)])
  note A = assms(2) [unfolded tree_can_put_def]
  let ?c = "c\<lparr>growth := 2147483647 - unat (num_pages s)\<rparr>"
  have d: "cached ?c s" by (rule cached_growth [OF c(1)]) (use A in simp)
  have st: "stores ?c t" using c(3) by (simp add: stores_def quiet_def)
  have "length (pages t) < growth ?c" using tree_pages_few [OF c(1,3)] A by simp linarith
  moreover have sm: "small_mark (key, Some val)" using A by (simp add: small_mark_def)
  ultimately have "runs cached (btree_insert key val) ?c
      (\<lambda>_ c'. updated ?c (put_key key val (contents t)) c' \<and> leaf_kept (put_key key val) t ?c c')"
    using c(2,4) by (intro btree_insert_runs [OF st]) simp_all
  from runsD [OF this d] obtain s' c' where s': "btree_insert key val s = (Inr (), s')" "cached c' s'"
    "updated ?c (put_key key val (contents t)) c'" "leaf_kept (put_key key val) t ?c c'" by auto
  have "small_tree (Leaf pid (put_key key val cs))" if "t = Leaf pid cs" for pid cs
    using small_put [of "[]" pid cs key val] c(4) sm that by (simp add: small_tree_def)
  then have "leaf_stays (put_key key val) t s s'"
    by (rule leaf_staysI [OF d s'(2) _ s'(4)]) (use s'(3) c(2) A in \<open>simp_all add: updated_def\<close>)
  moreover have "btree.more s' = btree.more s"
    using cached_more [OF s'(2)] cached_more [OF d] s'(3) by (simp add: updated_def)
  ultimately show ?thesis using updated_holds [OF s'(2,3)] c(2) s'(1) by auto
qed

lemma tree_delete_law:
  assumes "holds_tree s t" "removable key t"
  shows "\<exists>s' t'. btree_remove key s = (Inr (key \<in> fst ` set (contents t)), s') \<and> holds_tree s' t' \<and>
    contents t' = del_key key (contents t) \<and> btree.more s' = btree.more s \<and> leaf_stays (del_key key) t s s'"
proof -
  obtain c where c: "cached c s" "3 \<le> capacity c" "stores c t" "small_tree t" by (rule holds_treeE [OF assms(1)])
  let ?c = "c\<lparr>growth := 2147483647 - unat (num_pages s)\<rparr>"
  have n: "unat (num_pages s) \<le> 2147483647" using cachedD(9) [OF c(1)] by simp
  have d: "cached ?c s" by (rule cached_growth [OF c(1)]) (use n in simp)
  have st: "stores ?c t" using c(3) by (simp add: stores_def quiet_def)
  have "3 \<le> capacity ?c" using c(2) by simp
  from runsD [OF btree_remove_runs [OF st this c(4) assms(2)] d]
  obtain s' c' where s': "btree_remove key s = (Inr (key \<in> fst ` set (contents t)), s')" "cached c' s'"
    "updated ?c (del_key key (contents t)) c'" "leaf_kept (del_key key) t ?c c'" by auto
  have "small_tree (Leaf pid (del_key key cs))" if "t = Leaf pid cs" for pid cs
    using small_del [of "[]" pid cs key] c(4) that by simp
  then have "leaf_stays (del_key key) t s s'"
    by (rule leaf_staysI [OF d s'(2) _ s'(4)]) (use s'(3) c(2) n in \<open>simp_all add: updated_def\<close>)
  moreover have "btree.more s' = btree.more s"
    using cached_more [OF s'(2)] cached_more [OF d] s'(3) by (simp add: updated_def)
  ultimately show ?thesis using updated_holds [OF s'(2,3)] c(2) s'(1) by auto
qed

lemma holds_sorted: "holds_tree s t \<Longrightarrow> sorted_keys (contents t)"
  by (auto simp: holds_tree_def intro: stores_sorted)

lemma tree_holds_unique: "tree_holds s m \<Longrightarrow> tree_holds s m' \<Longrightarrow> m = m'"
proof
  fix k assume "tree_holds s m" "tree_holds s m'"
  then obtain t t' where t: "holds_tree s t" "m = map_of (contents t)" "holds_tree s t'" "m' = map_of (contents t')"
    by (auto simp: tree_holds_def)
  show "m k = m' k" using tree_get_law [OF t(1), of k] tree_get_law [OF t(3), of k] t(2,4) by auto
qed

interpretation bt: kv_store tree_holds btree_get btree_insert btree_remove tree_can_put tree_can_delete btree.more
proof
  fix s :: "'r btree_scheme" and m k v
  assume h: "tree_holds s m"
  then obtain t where t: "holds_tree s t" "m = map_of (contents t)" by (auto simp: tree_holds_def)
  show "\<exists>s'. btree_get k s = (Inr (m k), s') \<and> tree_holds s' m \<and> btree.more s' = btree.more s"
    using tree_get_law [OF t(1), of k] t(2) by (auto simp: tree_holds_def)
  show "tree_can_put k v (snd (btree_get k' s))" if "tree_can_put k v s" for k'
    using tree_get_law [OF t(1), of k'] that by (auto simp: tree_can_put_def)
  show "tree_can_delete k (snd (btree_get k' s))" if "tree_can_delete k s" for k'
  proof -
    obtain u where u: "holds_tree s u" "removable k u" using \<open>tree_can_delete k s\<close> by (auto simp: tree_can_delete_def)
    then show ?thesis using tree_get_law [OF u(1), of k'] by (auto simp: tree_can_delete_def)
  qed
  show "\<exists>s'. btree_insert k v s = (Inr (), s') \<and> tree_holds s' (m(k \<mapsto> v)) \<and> btree.more s' = btree.more s"
    if "tree_can_put k v s"
  proof -
    obtain s' t' where s': "btree_insert k v s = (Inr (), s')" "holds_tree s' t'" "contents t' = put_key k v (contents t)"
      "btree.more s' = btree.more s" using tree_put_law [OF t(1) \<open>tree_can_put k v s\<close>] by blast
    then have "m(k \<mapsto> v) = map_of (contents t')" using t(2) map_of_put_key [OF holds_sorted [OF t(1)], of k v] by simp
    with s' show ?thesis by (auto simp: tree_holds_def)
  qed
  show "\<exists>s'. btree_remove k s = (Inr (m k \<noteq> None), s') \<and> tree_holds s' (m(k := None)) \<and> btree.more s' = btree.more s"
    if "tree_can_delete k s"
  proof -
    obtain u where u: "holds_tree s u" "removable k u" using \<open>tree_can_delete k s\<close> by (auto simp: tree_can_delete_def)
    then have "tree_holds s (map_of (contents u))" by (auto simp: tree_holds_def)
    then have m: "m = map_of (contents u)" using tree_holds_unique [OF h] by blast
    then have "k \<in> fst ` set (contents u) \<longleftrightarrow> m k \<noteq> None" by (auto simp: map_of_eq_None_iff)
    moreover obtain s' t' where s': "btree_remove k s = (Inr (k \<in> fst ` set (contents u)), s')" "holds_tree s' t'"
      "contents t' = del_key k (contents u)" "btree.more s' = btree.more s" using tree_delete_law [OF u] by blast
    moreover have "m(k := None) = map_of (contents t')" using s'(3) m map_of_del_key [OF holds_sorted [OF u(1)], of k] by simp
    ultimately show ?thesis by (auto simp: tree_holds_def)
  qed
qed

subsection \<open>The tree on disk\<close>

text \<open>The pages on disk are those of the pool, and page 0 has the root and the free list.\<close>

definition on_disk :: "'r btree_scheme \<Rightarrow> bool" where
  "on_disk s \<longleftrightarrow> (\<forall>pid. live s pid \<longrightarrow> disk_page s pid = view s pid) \<and> header_ok (tree_root s) s"

lemma tree_flush_law:
  assumes "holds_tree s t"
  shows "\<exists>s'. flush_all s = (Inr (), s') \<and> holds_tree s' t \<and> on_disk s' \<and> num_pages s' = num_pages s \<and> btree.more s' = btree.more s"
proof -
  obtain c where c: "cached c s" "3 \<le> capacity c" "stores c t" "small_tree t" by (rule holds_treeE [OF assms])
  obtain s' where s': "flush_all s = (Inr (), s')" "cached c s'" "num_pages s' = num_pages s"
    "pinned c = Map.empty \<longrightarrow> (\<forall>pid \<in> allocated_ids c. disk_page s' pid = content c pid)"
    using flush_cached [OF c(1)] by blast
  note C = cachedD [OF s'(2)]
  have "on_disk s'" using C(2,3,10,12) s'(4) c(3) by (auto simp: on_disk_def stores_def quiet_def)
  moreover have "holds_tree s' t" unfolding holds_tree_def using s'(2) c(2-4) by blast
  ultimately show ?thesis using s'(1,3) cached_more [OF c(1)] cached_more [OF s'(2)] by auto
qed

lemma holds_tree_io: "holds_tree s t \<Longrightarrow> io_faults s = []"
  by (erule holds_treeE) (auto dest!: cachedD(1) pool_invD(5) simp: disk_ok_def)

subsection \<open>Small databases\<close>

text \<open>As long as everything fits into the root leaf, the preconditions of all updates hold.\<close>

fun update_cost :: "kv_update \<Rightarrow> nat" where
  "update_cost (Put_key k v) = cost leaf_tail (k, v)"
| "update_cost (Delete_key k) = 0"

fun update_small :: "kv_update \<Rightarrow> bool" where
  "update_small (Put_key k v) \<longleftrightarrow> length k + length v \<le> 1002"
| "update_small (Delete_key k) \<longleftrightarrow> True"

lemma space_del_key: "space ft (del_key k cs) \<le> space ft cs"
  by (induction cs) (auto simp: space_def)

lemma leaf_can_all:
  assumes "holds_tree s (Leaf pid cs)" "unat (num_pages s) < 1073741824" "\<forall>u \<in> set us. update_small u"
    "space leaf_tail cs + sum_list (map update_cost us) \<le> 4040"
  shows "kv_can_all btree_insert btree_remove tree_can_put tree_can_delete us s"
  using assms
proof (induction us arbitrary: s cs)
  case (Cons u us)
  have "kv_can tree_can_put tree_can_delete u s \<and> (\<exists>ds. holds_tree (snd (kv_step btree_insert btree_remove u s)) (Leaf pid ds) \<and>
      unat (num_pages (snd (kv_step btree_insert btree_remove u s))) \<le> unat (num_pages s) \<and>
      space leaf_tail ds \<le> space leaf_tail cs + update_cost u)"
  proof (cases u)
    case (Put_key k v)
    have can: "tree_can_put k v s" using Cons.prems(2,3) Put_key by (simp add: tree_can_put_def)
    have sp: "space leaf_tail (put_key k v cs) \<le> space leaf_tail cs + update_cost u" using Put_key space_put_key by simp
    then have "fits leaf_tail (put_key k v cs)" using Cons.prems(4) by (simp add: fits_space)
    then show ?thesis using tree_put_law [OF Cons.prems(1) can] can sp Put_key by (auto simp: leaf_stays_def kv_step_def)
  next
    case (Delete_key k)
    have full: "removable k (Leaf pid cs)" by (simp add: removable.simps)
    then have can: "tree_can_delete k s" using Cons.prems(1) by (auto simp: tree_can_delete_def)
    have sp: "space leaf_tail (del_key k cs) \<le> space leaf_tail cs" by (rule space_del_key)
    then have "fits leaf_tail (del_key k cs)" using Cons.prems(4) by (simp add: fits_space)
    then show ?thesis using tree_delete_law [OF Cons.prems(1) full] can sp Delete_key
      by (auto simp: leaf_stays_def kv_step_def op_simps)
  qed
  then obtain ds where ds: "kv_can tree_can_put tree_can_delete u s"
    "holds_tree (snd (kv_step btree_insert btree_remove u s)) (Leaf pid ds)"
    "unat (num_pages (snd (kv_step btree_insert btree_remove u s))) \<le> unat (num_pages s)"
    "space leaf_tail ds \<le> space leaf_tail cs + update_cost u" by blast
  with Cons.IH [OF ds(2)] Cons.prems(2-4) show ?case by simp
qed simp

end
