(* ===== verification/Btree_Props.thy ===== *)
theory Btree_Props
  imports Btree_Store Storage_Props
begin

section \<open>Properties of the B+Tree\<close>

text \<open>
  The tree refines a map from keys to values, over the buffer pool, the free list and the file it
  lives in: lookup, insertion with all its splits, removal with borrowing, and creation.
\<close>

subsection \<open>Creation\<close>

text \<open>The pool before there is a tree: nothing is pinned, and three pages can be pinned at once.\<close>

definition pool_idle :: "'a buffer_pool_scheme \<Rightarrow> bool" where
  "pool_idle s \<longleftrightarrow> pool_inv s \<and> (\<forall>pid. pins s pid = 0) \<and> 3 \<le> card (usable s) \<and> fl_persisted s"

definition idle_cache :: "'r btree_scheme \<Rightarrow> 'r cache" where
  "idle_cache s = \<lparr>content = view s, pinned = Map.empty, changed = {}, allocated_ids = {pid. live s pid},
     capacity = card (usable s), growth = 2147483647 - unat (num_pages s), root_id = tree_root s, saved_root = page0_root (disk_page s 0), others = btree.more s\<rparr>"

lemma idle_cached: "pool_idle s \<Longrightarrow> unat (num_pages s) \<le> 2147483647 \<Longrightarrow> cached (idle_cache s) s"
  by (auto simp: pool_idle_def idle_cache_def cached_def header_ok_def fun_eq_iff)

lemma BTree_create_runs:
  assumes "pinned c = Map.empty" "changed c = {}" "0 < capacity c" "0 < growth c"
  shows "runs cached BTree_create c (\<lambda>_ c'. \<exists>pid. stores c' (Leaf pid []) \<and> capacity c' = capacity c \<and>
    growth c' = growth c - 1 \<and> others c' = others c)" (is "runs _ _ _ ?Q")
  unfolding BTree_create_def
proof (rule fresh_step)
  show "card (dom (pinned c)) < capacity c" "0 < growth c" using assms by simp_all
  fix new fid assume new: "new \<notin> allocated_ids c" "new \<noteq> INVALID_PAGE_ID"
  have "page_ok (fresh_page new)" by simp
  note F = init_leaf_node [OF this, of new INVALID_PAGE_ID]
  let ?p = "init_leaf new INVALID_PAGE_ID (fresh_page new)"
  have ini: "page_ok ?p" "page_id ?p = new" using F nodes_ok(1) by (auto simp: node_meta_def)
  let ?c = "c\<lparr>content := (content c)(new := ?p), allocated_ids := insert new (allocated_ids c), growth := growth c - 1, root_id := new, saved_root := new\<rparr>"
  have "stores ?c (Leaf new [])" using F assms(1,2) by (auto simp: stores_def quiet_def node_meta_def)
  then have "?Q () ?c" by (intro exI [of _ new]) simp
  then show "runs cached (case (new, fid) of (rid, fid) \<Rightarrow>
     op_bind (page_set fid (init_leaf rid INVALID_PAGE_ID)) (\<lambda>_.
     op_bind (unpin_page rid True) (\<lambda>_.
     op_bind (op_modify (\<lambda>s. s\<lparr>tree_root := rid\<rparr>)) (\<lambda>_. persist_root))))
     (c\<lparr>content := (content c)(new := fresh_page new), pinned := (pinned c)(new \<mapsto> fid),
        allocated_ids := insert new (allocated_ids c), growth := growth c - 1\<rparr>) ?Q"
    unfolding prod.case using assms(1,2) ini
    by - (rule page_set_step [of _ new], simp, simp, simp, rule unpin_step, simp, simp, rule root_step, rule runs_last,
        rule persist_root_step, rule runs_return, simp)
qed

lemma BTree_create_law:
  assumes "pool_idle s" "unat (num_pages s) < 2147483647"
  shows "\<exists>s' pid. BTree_create s = (Inr (), s') \<and> holds_tree s' (Leaf pid []) \<and> btree.more s' = btree.more s \<and>
    unat (num_pages s') \<le> unat (num_pages s) + 1"
proof -
  have c: "cached (idle_cache s) s" by (rule idle_cached [OF assms(1) less_imp_le [OF assms(2)]])
  have cap: "3 \<le> capacity (idle_cache s)" using assms(1) by (simp add: idle_cache_def pool_idle_def)
  have g: "growth (idle_cache s) = 2147483647 - unat (num_pages s)" by (simp add: idle_cache_def)
  have "pinned (idle_cache s) = Map.empty" "changed (idle_cache s) = {}" by (simp_all add: idle_cache_def)
  from runsD [OF BTree_create_runs [OF this] c] obtain s' c' pid where
    s': "BTree_create s = (Inr (), s')" "cached c' s'" "stores c' (Leaf pid [])" "capacity c' = capacity (idle_cache s)"
    "growth c' = growth (idle_cache s) - 1" "others c' = others (idle_cache s)"
    using cap g assms(2) by auto
  have "holds_tree s' (Leaf pid [])"
    unfolding holds_tree_def using s'(2-4) cap by (intro exI [of _ c']) (simp add: small_tree_def)
  moreover have "btree.more s' = btree.more s"
    using cached_more [OF s'(2)] s'(6) by (simp add: idle_cache_def)
  moreover have "unat (num_pages s') \<le> unat (num_pages s) + 1"
    using cachedD(9) [OF s'(2)] s'(5) g assms(2) by simp
  ultimately show ?thesis using s'(1) by blast
qed

subsection \<open>A small tree used by the witnesses\<close>

definition sample_db :: btree where
  "sample_db = buffer_pool.extend sample_pool (btree.fields INVALID_PAGE_ID)"

definition sample_tree :: btree where
  "sample_tree = snd (BTree_create sample_db)"

lemma sample_db_ok: "pool_idle sample_db" "num_pages sample_db = 2"
proof -
  have same: "same_pool sample_db sample_pool" by (simp add: same_pool_def sample_db_def buffer_pool.defs)
  have "pool_inv sample_db" using same_poolD(8) [OF same] sample_pool_ok(1) by simp
  moreover have "card (usable sample_pool) = 64" by (simp add: usable_def sample_pool_def atLeast0LessThan)
  moreover have "fl_persisted sample_db"
    by (simp add: fl_persisted_def page0_count_def page0_entries_def get32_def peek_numeral peek_Suc disk_page_def
        sample_db_def buffer_pool.defs sample_pool_def sample_fl_def sample_dm_def)
  ultimately show "pool_idle sample_db" using sample_pool_ok(5) same_poolD(4,6) [OF same] by (simp add: pool_idle_def)
  show "num_pages sample_db = 2" using same_poolD(1) [OF same] by (simp add: sample_pool_def sample_fl_def sample_dm_def)
qed

lemma sample_tree_ok: "\<exists>pid. holds_tree sample_tree (Leaf pid [])" "unat (num_pages sample_tree) \<le> 3"
  using BTree_create_law [of sample_db] sample_db_ok by (auto simp: sample_tree_def)

lemma sample_tree_holds: "tree_holds sample_tree Map.empty"
  using sample_tree_ok(1) by (auto simp: tree_holds_def contents_def)

subsection \<open>The tree refines a map\<close>

text \<open>C4. Inserting a key and value of at most 1002 bytes together into a tree that holds a map
  succeeds, whatever leaf, parents or root have to be split on the way, and the tree then holds
  the map with the key mapped to the value; nothing outside the tree changes.\<close>

theorem btree_insert_correct:
  assumes "tree_holds s m" "length key + length val \<le> 1002" "unat (num_pages s) < 1073741824"
  shows "\<exists>s'. btree_insert key val s = (Inr (), s') \<and> tree_holds s' (m(key \<mapsto> val)) \<and> btree.more s' = btree.more s"
  using bt.ins_law [OF assms(1), of key val] assms(2,3) by (simp add: tree_can_put_def)

theorem btree_insert_correct_witness:
  "\<exists>s'. btree_insert [1, 2] [3] sample_tree = (Inr (), s') \<and> tree_holds s' [[1, 2] \<mapsto> [3]] \<and> btree.more s' = btree.more sample_tree"
  using btree_insert_correct [OF sample_tree_holds, of "[1, 2]" "[3]"] sample_tree_ok(2) by simp

text \<open>C5. Looking a key up in a tree that holds the map \<open>m\<close> returns \<open>m key\<close> and leaves the map as
  it is.\<close>

theorem btree_get_correct:
  assumes "tree_holds s m"
  shows "\<exists>s'. btree_get key s = (Inr (m key), s') \<and> tree_holds s' m \<and> btree.more s' = btree.more s"
  using assms by (rule bt.get_law)

theorem btree_get_correct_witness:
  "\<exists>s s' s''. btree_insert [1] [2] sample_tree = (Inr (), s) \<and> btree_get [1] s = (Inr (Some [2]), s') \<and>
    btree_get [2] s = (Inr None, s'')"
proof -
  have "tree_can_put [1] [2] sample_tree" using sample_tree_ok(2) by (simp add: tree_can_put_def)
  then obtain s where s: "btree_insert [1] [2] sample_tree = (Inr (), s)" "tree_holds s [[1] \<mapsto> [2]]"
    using bt.ins_law [OF sample_tree_holds] by force
  show ?thesis using s(1) btree_get_correct [OF s(2), of "[1]"] btree_get_correct [OF s(2), of "[2]"] by auto
qed

text \<open>C27. The search for a leaf ends: the number of pages of the file, the fuel of the model, is more
  than the length of any path from the root, so that the loop always returns a leaf, with the pages
  it passed on the way.\<close>

theorem find_leaf_terminates:
  assumes "tree_holds s m"
  shows "\<exists>fid breadcrumbs s'. find_leaf key s = (Inr (fid, breadcrumbs), s') \<and> is_leaf (fr_page (frames s' ! fid)) \<and>
    length breadcrumbs < unat (num_pages s)"
proof -
  obtain t c where c: "cached c s" "3 \<le> capacity c" "stores c t" using assms by (auto simp: tree_holds_def holds_tree_def)
  have "0 < capacity c" using c(2) by simp
  from runsD [OF find_leaf_runs [OF c(3) this] c(1), of key]
  obtain fid bcs s' c' where r: "find_leaf key s = (Inr (fid, bcs), s')" "cached c' s'" "found_leaf key c t (fid, bcs) c'" by auto
  then obtain path pid cs where p: "t = plug path (Leaf pid cs)" "bcs = map ctx_id path" "c' = c\<lparr>pinned := [pid \<mapsto> fid]\<rparr>"
    by (auto simp: found_leaf_def)
  have "leaf_node (content c pid) cs" using c(3) p(1) by (simp add: stores_def tree_at_plug)
  moreover have "fr_page (frames s' ! fid) = content c pid"
    using pc.frame_content [OF r(2), of pid fid] p(3) by simp
  ultimately have "is_leaf (fr_page (frames s' ! fid))" using Node_check_node(3) by simp
  moreover have "length bcs < unat (num_pages s)"
    using path_shorter [of path "Leaf pid cs"] tree_pages_few [OF c(1,3)] p(1,2) by simp
  ultimately show ?thesis using r(1) by blast
qed

theorem find_leaf_terminates_witness:
  "\<exists>fid breadcrumbs s'. find_leaf [7] sample_tree = (Inr (fid, breadcrumbs), s') \<and> is_leaf (fr_page (frames s' ! fid)) \<and>
    length breadcrumbs < unat (num_pages sample_tree)"
  by (rule find_leaf_terminates [OF sample_tree_holds])

text \<open>C28. Removing a key reports whether it was there, and the tree then holds the map without it,
  provided that the key's leaf is the root, stays half full, or can borrow: its left neighbour, or for a
  first child the right one, is half full, and the parent has room for the new separator.\<close>

theorem btree_remove_correct:
  assumes "holds_tree s t" "removable key t"
  shows "\<exists>s'. btree_remove key s = (Inr (map_of (contents t) key \<noteq> None), s') \<and>
    tree_holds s' ((map_of (contents t))(key := None)) \<and> btree.more s' = btree.more s"
proof -
  have "tree_holds s (map_of (contents t))" "tree_can_delete key s"
    using assms by (auto simp: tree_holds_def tree_can_delete_def)
  then show ?thesis by (rule bt.rem_law)
qed

theorem btree_remove_correct_witness:
  "\<exists>s s'. btree_insert [1] [2] sample_tree = (Inr (), s) \<and> btree_remove [1] s = (Inr True, s') \<and> tree_holds s' Map.empty"
proof -
  obtain pid where t: "holds_tree sample_tree (Leaf pid [])" using sample_tree_ok(1) by blast
  have "tree_can_put [1] [2] sample_tree" using sample_tree_ok(2) by (simp add: tree_can_put_def)
  moreover have "fits leaf_tail (put_key [1] [2] [])" by (simp add: fits_space space_def cost_def encode_leaf leaf_cell_size_def)
  ultimately obtain s where s: "btree_insert [1] [2] sample_tree = (Inr (), s)" "holds_tree s (Leaf pid [([1], [2])])"
    using tree_put_law [OF t, of "[1]" "[2]"] by (auto simp: leaf_stays_def)
  have "removable [1] (Leaf pid [([1], [2])])" by (simp add: removable.simps)
  from btree_remove_correct [OF s(2) this] s(1) show ?thesis by (auto simp: contents_def)
qed

subsection \<open>Room after a split\<close>

text \<open>C31. A split always makes room. When a leaf whose keys and values have at most 1002 bytes refuses a
  cell of at most that size, splitting the page that the refused insertion left into an empty leaf
  succeeds, and so does the second insertion, on the side of the separator that \<open>BTree::insert\<close> chooses and whose
  result it ignores. The two leaves together then have the cells of the old one with the new cell, in order,
  divided by the separator, and neither is empty.\<close>

theorem split_makes_room:
  assumes "leaf_node p cs" "insert_leaf_cell key val p = (Inr False, p1)" "leaf_node q []"
    and "\<forall>c \<in> set cs. length (fst c) + length (snd c) \<le> 1002" "length key + length val \<le> 1002"
  shows "\<exists>sep p2 q2 p3 q3 ls rs. split_into (p1, q) = (Inr sep, (p2, q2)) \<and>
    (if key < sep then insert_leaf_cell key val p2 = (Inr True, p3) \<and> q3 = q2
     else insert_leaf_cell key val q2 = (Inr True, q3) \<and> p3 = p2) \<and>
    leaf_node p3 ls \<and> leaf_node q3 rs \<and> ls @ rs = put_key key val cs \<and> ls \<noteq> [] \<and> rs \<noteq> [] \<and>
    (\<forall>c \<in> set ls. fst c < sep) \<and> (\<forall>c \<in> set rs. sep \<le> fst c)"
proof -
  have sc: "sorted_keys cs" using assms(1) by (simp add: leaf_node_def)
  have p1: "\<not> fits leaf_tail (put_key key val cs)" "leaf_node p1 (del_key key cs)" "compacted leaf_tail p1 (del_key key cs)"
    using insert_leaf_cell_run [OF assms(1), of key val] assms(2) by (auto split: if_splits)
  have sm: "\<forall>c \<in> set cs. small_mark (fst c, Some (snd c))" "small_mark (key, Some val)"
    using assms(4,5) by (simp_all add: small_mark_def)
  obtain sep p2 q2 p3 q3 ls rs where S: "split_into (p1, q) = (Inr sep, (p2, q2))" "inserted_half key val sep p2 q2 p3 q3"
    "leaf_node p3 ls" "leaf_node q3 rs" "ls @ rs = put_key key val cs" "ls \<noteq> []" "rs \<noteq> []" "\<forall>c \<in> set ls. fst c < sep" "\<forall>c \<in> set rs. sep \<le> fst c"
    by (rule split_full_leaf [OF sc p1(2,3) assms(3) p1(1) sm])
  show ?thesis by (intro exI conjI) (rule S(1), rule S(2) [unfolded inserted_half_def], (rule S)+)
qed

text \<open>A leaf of four large cells refuses a fifth one.\<close>

lemma sample_full_leaf:
  obtains p p1 where "leaf_node p (map (\<lambda>k. ([k], replicate 1000 0)) [1, 2, 3, 4])"
    "insert_leaf_cell [5] (replicate 1000 0) p = (Inr False, p1)"
proof -
  let ?v = "replicate 1000 (0 :: byte)"
  have fit: "length cs \<le> 4 \<Longrightarrow> fits leaf_tail (map (\<lambda>k :: byte. ([k], ?v)) cs)" for cs
    by (simp add: fits_space space_def cost_def encode_leaf leaf_cell_size_def comp_def sum_list_triv)
  have add: "\<exists>p'. leaf_node p' (map (\<lambda>k. ([k], ?v)) (ks @ [k]))"
    if "leaf_node p (map (\<lambda>k. ([k], ?v)) ks)" "put_key [k] ?v (map (\<lambda>k. ([k], ?v)) ks) = map (\<lambda>k. ([k], ?v)) (ks @ [k])" "length ks < 4" for p ks k
    using insert_leaf_cell_run [OF that(1), of "[k]" ?v] fit [of "ks @ [k]"] that(2,3) by auto
  have "leaf_node (init_leaf 1 INVALID_PAGE_ID new_Page) []" by (rule init_leaf_node) simp
  then obtain a where a: "leaf_node a (map (\<lambda>k. ([k], ?v)) [1])" using add [of _ "[]" 1] by auto
  then obtain b where b: "leaf_node b (map (\<lambda>k. ([k], ?v)) [1, 2])" using add [OF a, of 2] by auto
  then obtain c where c: "leaf_node c (map (\<lambda>k. ([k], ?v)) [1, 2, 3])" using add [OF b, of 3] by auto
  then obtain p where p: "leaf_node p (map (\<lambda>k. ([k], ?v)) [1, 2, 3, 4])" using add [OF c, of 4] by auto
  have "\<not> fits leaf_tail (put_key [5] ?v (map (\<lambda>k. ([k], ?v)) [1, 2, 3, 4]))"
    by (simp add: fits_space space_def cost_def encode_leaf leaf_cell_size_def)
  then show thesis using that [OF p] insert_leaf_cell_run [OF p, of "[5]" ?v] by auto
qed

theorem split_makes_room_witness:
  "\<exists>p p1 sep p2 q2 p3 q3 ls rs. insert_leaf_cell [5] (replicate 1000 0) p = (Inr False, p1) \<and>
    split_into (p1, init_leaf 2 INVALID_PAGE_ID new_Page) = (Inr sep, (p2, q2)) \<and>
    (if [5] < sep then insert_leaf_cell [5] (replicate 1000 0) p2 = (Inr True, p3) \<and> q3 = q2
     else insert_leaf_cell [5] (replicate 1000 0) q2 = (Inr True, q3) \<and> p3 = p2) \<and>
    leaf_node p3 ls \<and> leaf_node q3 rs \<and> map fst (ls @ rs) = [[1], [2], [3], [4], [5]]"
proof -
  let ?v = "replicate 1000 (0 :: byte)" and ?cs = "map (\<lambda>k :: byte. ([k], replicate 1000 (0 :: byte))) [1, 2, 3, 4]"
  obtain p p1 where p: "leaf_node p ?cs" "insert_leaf_cell [5] ?v p = (Inr False, p1)" by (rule sample_full_leaf)
  have q: "leaf_node (init_leaf 2 INVALID_PAGE_ID new_Page) []" by (rule init_leaf_node) simp
  have sz: "\<forall>c \<in> set ?cs. length (fst c) + length (snd c) \<le> 1002" "length [5 :: byte] + length ?v \<le> 1002" by simp_all
  obtain sep p2 q2 p3 q3 ls rs where S: "split_into (p1, init_leaf 2 INVALID_PAGE_ID new_Page) = (Inr sep, (p2, q2))"
    "if [5] < sep then insert_leaf_cell [5] ?v p2 = (Inr True, p3) \<and> q3 = q2 else insert_leaf_cell [5] ?v q2 = (Inr True, q3) \<and> p3 = p2"
    "leaf_node p3 ls" "leaf_node q3 rs" "ls @ rs = put_key [5] ?v ?cs"
    using split_makes_room [OF p q sz] by (elim exE conjE) (rule that; assumption)
  have "map fst (ls @ rs) = [[1], [2], [3], [4], [5]]" unfolding S(5) by simp
  with p(2) S(1-4) show ?thesis by (intro exI conjI)
qed

subsection \<open>Limits and creation\<close>

text \<open>A key and value of more than 4034 bytes together are refused with \<open>invalid_argument\<close> before
  anything is read or written.\<close>

theorem btree_insert_too_large:
  assumes "4034 < length key + length val"
  shows "btree_insert key val s = (Inl Invalid_argument, s)"
  using assms by (simp add: btree_insert_def leaf_cell_size_def op_simps)

theorem btree_insert_too_large_witness:
  "btree_insert [] (replicate 4035 0) sample_tree = (Inl Invalid_argument, sample_tree)"
  by (rule btree_insert_too_large) simp

text \<open>Creating a tree in an idle pool makes an empty leaf the root and costs one page.\<close>

theorem BTree_create_empty:
  assumes "pool_idle s" "unat (num_pages s) < 2147483647"
  shows "\<exists>s'. BTree_create s = (Inr (), s') \<and> tree_holds s' Map.empty \<and> btree.more s' = btree.more s \<and>
    unat (num_pages s') \<le> unat (num_pages s) + 1"
proof -
  have "tree_holds s' Map.empty" if "holds_tree s' (Leaf pid [])" for s' :: "'a btree_scheme" and pid
    using that by (auto simp: tree_holds_def contents_def)
  then show ?thesis using BTree_create_law [OF assms] by blast
qed

theorem BTree_create_empty_witness:
  "\<exists>s'. BTree_create sample_db = (Inr (), s') \<and> tree_holds s' Map.empty \<and> btree.more s' = btree.more sample_db \<and>
    unat (num_pages s') \<le> unat (num_pages sample_db) + 1"
  by (rule BTree_create_empty [OF sample_db_ok(1)]) (simp add: sample_db_ok(2))

end
