(* ===== verification/Recovery_Manager.thy ===== *)
theory Recovery_Manager
  imports Btree_Store Log_Manager
begin

section \<open>Recovery (\<open>src/src/wal/recovery_manager.{h,cpp}\<close>)\<close>

text \<open>
  Recovery reads the log and replays it on the tree. The state is that of the tree with the log
  manager beside it. A set of transaction ids (\<open>std::unordered_set\<close>) is a HOL set.

  \<open>redo\<close> and \<open>undo\<close> are shown to be lists of updates of a key-value store, so that the laws
  of the store give their effect on the map that the tree holds.
\<close>

record engine = btree +
  wal :: log_manager

definition on_wal :: "(log_manager, 'x) op \<Rightarrow> ('a engine_scheme, 'x) op" where
  "on_wal m = (\<lambda>s. case m (wal s) of (r, l) \<Rightarrow> (r, s\<lparr>wal := l\<rparr>))"

definition has_type :: "WalRecordType \<Rightarrow> wal_record \<Rightarrow> bool" where
  "has_type ty r \<longleftrightarrow> rec_type r = wal_type_code ty"

subsection \<open>The phases\<close>

definition analysis_step :: "wal_record \<Rightarrow> txn_id set \<Rightarrow> txn_id set" where
  "analysis_step r active =
     (if has_type WAL_BEGIN r then insert (rec_txn_id r) active
      else if has_type WAL_COMMIT r \<or> has_type WAL_ABORT r then active - {rec_txn_id r}
      else active)"

definition analysis :: "wal_record list \<Rightarrow> txn_id set" where
  "analysis records = fold analysis_step records {}"

definition txns_with :: "WalRecordType \<Rightarrow> wal_record list \<Rightarrow> txn_id set" where
  "txns_with ty records = rec_txn_id ` set (filter (has_type ty) records)"

definition redo_record :: "txn_id set \<Rightarrow> wal_record \<Rightarrow> ('a btree_scheme, unit) op" where
  "redo_record aborted r =
     (if \<not> has_type WAL_WRITE r then op_return ()
      else if rec_txn_id r \<in> aborted then op_return ()
      else if rec_after_val r = [] then op_bind (btree_remove (rec_key r)) (\<lambda>_. op_return ())
      else btree_insert (rec_key r) (rec_after_val r))"

text \<open>The source also collects the committed transactions, but does not use them.\<close>

definition redo :: "wal_record list \<Rightarrow> ('a btree_scheme, unit) op" where
  "redo records = op_foreach (redo_record (txns_with WAL_ABORT records)) records"

definition undo_record :: "txn_id set \<Rightarrow> wal_record \<Rightarrow> ('a btree_scheme, unit) op" where
  "undo_record losers r =
     (if \<not> has_type WAL_WRITE r then op_return ()
      else if rec_txn_id r \<notin> losers then op_return ()
      else if \<not> rec_before_exists r then op_bind (btree_remove (rec_key r)) (\<lambda>_. op_return ())
      else btree_insert (rec_key r) (rec_before_val r))"

definition undo :: "wal_record list \<Rightarrow> txn_id set \<Rightarrow> ('a btree_scheme, unit) op" where
  "undo records losers = (if losers = {} then op_return () else op_foreach (undo_record losers) (rev records))"

definition recover :: "('a engine_scheme, nat) op" where
  "recover = op_bind (on_wal read_all) (\<lambda>records.
     if records = [] then op_return 0
     else
       let losers = analysis records in
       op_bind (redo records) (\<lambda>_.
       op_bind (undo records losers) (\<lambda>_.
       op_return (card losers))))"

subsection \<open>The phases as updates of a store\<close>

definition after_update :: "wal_record \<Rightarrow> kv_update" where
  "after_update r = (if rec_after_val r = [] then Delete_key (rec_key r) else Put_key (rec_key r) (rec_after_val r))"

definition before_update :: "wal_record \<Rightarrow> kv_update" where
  "before_update r = (if rec_before_exists r then Put_key (rec_key r) (rec_before_val r) else Delete_key (rec_key r))"

definition writes_of :: "(txn_id \<Rightarrow> bool) \<Rightarrow> wal_record list \<Rightarrow> wal_record list" where
  "writes_of P = filter (\<lambda>r. has_type WAL_WRITE r \<and> P (rec_txn_id r))"

definition redo_updates :: "wal_record list \<Rightarrow> kv_update list" where
  "redo_updates records = map after_update (writes_of (\<lambda>t. t \<notin> txns_with WAL_ABORT records) records)"

definition undo_updates :: "wal_record list \<Rightarrow> kv_update list" where
  "undo_updates records = map before_update (rev (writes_of (\<lambda>t. t \<in> analysis records) records))"

abbreviation tree_step :: "kv_update \<Rightarrow> ('a btree_scheme, unit) op" where
  "tree_step \<equiv> kv_step btree_insert btree_remove"

lemma redo_eq: "redo records = op_foreach tree_step (redo_updates records)"
  unfolding redo_def redo_updates_def writes_of_def
  by (rule foreach_filter) (auto simp: redo_record_def after_update_def kv_step_def)

lemma undo_eq: "undo records (analysis records) = op_foreach tree_step (undo_updates records)"
proof -
  have "op_foreach (undo_record (analysis records)) (rev records) = op_foreach tree_step (undo_updates records)"
    unfolding undo_updates_def writes_of_def rev_filter
    by (rule foreach_filter) (auto simp: undo_record_def before_update_def kv_step_def)
  then show ?thesis by (auto simp: undo_def undo_updates_def writes_of_def)
qed

text \<open>What recovery makes of the map on disk.\<close>

definition recovered :: "wal_record list \<Rightarrow> kv_map \<Rightarrow> kv_map" where
  "recovered records m = fold kv_apply (redo_updates records @ undo_updates records) m"

lemma more_wal: "btree.more t = btree.more s \<Longrightarrow> wal t = wal s \<and> engine.more t = engine.more s"
  by (cases s rule: engine.cases_scheme, cases t rule: engine.cases_scheme) (simp add: btree.defs)

lemma recover_run:
  fixes s :: "'a engine_scheme"
  assumes "tree_holds s m" "read_all (wal s) = (Inr records, w)"
    and "kv_can_all btree_insert btree_remove tree_can_put tree_can_delete (redo_updates records @ undo_updates records) (s\<lparr>wal := w\<rparr>)"
  shows "\<exists>s'. recover s = (Inr (card (analysis records)), s') \<and> tree_holds s' (recovered records m) \<and> wal s' = w \<and>
    engine.more s' = engine.more s"
proof -
  let ?s = "s\<lparr>wal := w\<rparr>" and ?us = "redo_updates records @ undo_updates records"
  have "tree_holds ?s m" by (rule tree_holds_cong [OF assms(1)]) (simp_all add: same_pool_def)
  from bt.updates_law [OF this assms(3)] obtain s' where
    s': "op_foreach tree_step ?us ?s = (Inr (), s')" "tree_holds s' (recovered records m)" "btree.more s' = btree.more ?s"
    by (auto simp: recovered_def)
  have w: "wal s' = w" "engine.more s' = engine.more s" using more_wal [OF s'(3)] by simp_all
  have r: "on_wal read_all s = (Inr records, ?s)" using assms(2) by (simp add: on_wal_def)
  show ?thesis
  proof (cases "records = []")
    case True
    then have "?us = []" by (simp add: redo_updates_def undo_updates_def writes_of_def)
    with s' w True r show ?thesis by (simp add: recover_def op_simps analysis_def)
  next
    case False
    have "recover s = op_bind (op_foreach tree_step ?us) (\<lambda>_. op_return (card (analysis records))) ?s"
      using r False by (simp add: recover_def op_simps Let_def redo_eq undo_eq op_foreach_append op_bind_assoc)
    then show ?thesis using s' w by (simp add: op_simps)
  qed
qed

end
