(* ===== verification/Log_History.thy ===== *)
theory Log_History
  imports Recovery_Manager
begin

section \<open>Histories of transactions and their log\<close>

text \<open>
  The log that transactions under strict two-phase locking leave behind: \<open>logged m0 rs m p\<close> says
  that the records \<open>rs\<close> lead from the map \<open>m0\<close> to the committed map \<open>m\<close>, with the
  transactions in \<open>p\<close> still running, each with its own writes. A transaction writes a key only
  if no other running one has written it, and logs the committed value of the key as before image.
  Recovery of such a log restores the committed map.
\<close>

type_synonym running = "txn_id \<rightharpoonup> (bytes \<rightharpoonup> bytes option)"

definition before_image :: "wal_record \<Rightarrow> bytes option" where
  "before_image r = (if rec_before_exists r then Some (rec_before_val r) else None)"

definition after_image :: "wal_record \<Rightarrow> bytes option" where
  "after_image r = (if rec_after_val r = [] then None else Some (rec_after_val r))"

inductive logged :: "kv_map \<Rightarrow> wal_record list \<Rightarrow> kv_map \<Rightarrow> running \<Rightarrow> bool" for m0 where
  logged_start: "logged m0 [] m0 Map.empty"
| logged_begin: "logged m0 rs m p \<Longrightarrow> has_type WAL_BEGIN r \<Longrightarrow> rec_txn_id r \<notin> rec_txn_id ` set rs \<Longrightarrow>
    logged m0 (rs @ [r]) m (p(rec_txn_id r \<mapsto> Map.empty))"
| logged_write: "logged m0 rs m p \<Longrightarrow> has_type WAL_WRITE r \<Longrightarrow> p (rec_txn_id r) = Some w \<Longrightarrow>
    (\<And>t w'. t \<noteq> rec_txn_id r \<Longrightarrow> p t = Some w' \<Longrightarrow> w' (rec_key r) = None) \<Longrightarrow> before_image r = m (rec_key r) \<Longrightarrow>
    logged m0 (rs @ [r]) m (p(rec_txn_id r \<mapsto> w(rec_key r \<mapsto> after_image r)))"
| logged_commit: "logged m0 rs m p \<Longrightarrow> has_type WAL_COMMIT r \<Longrightarrow> p (rec_txn_id r) = Some w \<Longrightarrow>
    logged m0 (rs @ [r]) (\<lambda>k. case w k of None \<Rightarrow> m k | Some v \<Rightarrow> v) (p(rec_txn_id r := None))"
| logged_abort: "logged m0 rs m p \<Longrightarrow> has_type WAL_ABORT r \<Longrightarrow> p (rec_txn_id r) = Some w \<Longrightarrow>
    logged m0 (rs @ [r]) m (p(rec_txn_id r := None))"

definition last_write :: "(txn_id \<Rightarrow> bool) \<Rightarrow> bytes \<Rightarrow> wal_record list \<Rightarrow> wal_record option" where
  "last_write P k rs = find (\<lambda>r. has_type WAL_WRITE r \<and> P (rec_txn_id r) \<and> rec_key r = k) (rev rs)"

lemma last_write_snoc:
  "last_write P k (rs @ [r]) = (if has_type WAL_WRITE r \<and> P (rec_txn_id r) \<and> rec_key r = k then Some r else last_write P k rs)"
  by (simp add: last_write_def)

lemma last_write_cong:
  "(\<And>r. r \<in> set rs \<Longrightarrow> has_type WAL_WRITE r \<Longrightarrow> rec_key r = k \<Longrightarrow> P (rec_txn_id r) = Q (rec_txn_id r)) \<Longrightarrow>
   last_write P k rs = last_write Q k rs"
  unfolding last_write_def by (rule find_cong) auto

lemma last_write_None: "last_write P k rs = None \<longleftrightarrow> (\<forall>r \<in> set rs. has_type WAL_WRITE r \<longrightarrow> rec_key r = k \<longrightarrow> \<not> P (rec_txn_id r))"
  by (auto simp: last_write_def find_None_iff)

lemma last_write_Some:
  "last_write P k rs = Some r \<Longrightarrow> r \<in> set rs \<and> has_type WAL_WRITE r \<and> P (rec_txn_id r) \<and> rec_key r = k"
proof (induction rs rule: rev_induct)
  case (snoc x rs)
  then show ?case by (auto simp: last_write_snoc split: if_splits)
qed (simp add: last_write_def)

text \<open>If the last write of all is by one of the transactions, it is the last of these.\<close>

lemma last_write_mono:
  "last_write P k rs = Some r \<Longrightarrow> Q (rec_txn_id r) \<Longrightarrow> (\<And>t. Q t \<Longrightarrow> P t) \<Longrightarrow> last_write Q k rs = Some r"
proof (induction rs rule: rev_induct)
  case (snoc x rs)
  then show ?case by (auto simp: last_write_snoc split: if_splits)
qed (simp add: last_write_def)

lemma has_type_unique: "has_type ty r \<Longrightarrow> has_type ty' r \<Longrightarrow> ty = ty'"
  by (simp add: has_type_def)

lemma txns_with_snoc [simp]:
  "txns_with ty (rs @ [r]) = (if has_type ty r then insert (rec_txn_id r) (txns_with ty rs) else txns_with ty rs)"
  by (auto simp: txns_with_def)

lemma analysis_snoc [simp]: "analysis (rs @ [r]) = analysis_step r (analysis rs)"
  by (simp add: analysis_def)

subsection \<open>The invariant\<close>

text \<open>Every transaction is running, committed or aborted.\<close>

definition log_status :: "wal_record list \<Rightarrow> running \<Rightarrow> bool" where
  "log_status rs p \<longleftrightarrow> analysis rs = dom p \<and> txns_with WAL_COMMIT rs \<inter> dom p = {} \<and> txns_with WAL_ABORT rs \<inter> dom p = {} \<and>
     txns_with WAL_COMMIT rs \<inter> txns_with WAL_ABORT rs = {} \<and>
     (\<forall>r \<in> set rs. rec_txn_id r \<in> dom p \<union> txns_with WAL_COMMIT rs \<union> txns_with WAL_ABORT rs)"

text \<open>The committed map is that of the last writes of committed transactions. A running
  transaction has the last write of each key it wrote, and its before images are still current.\<close>

definition log_values :: "kv_map \<Rightarrow> wal_record list \<Rightarrow> kv_map \<Rightarrow> running \<Rightarrow> bool" where
  "log_values m0 rs m p \<longleftrightarrow>
     (\<forall>k. m k = (case last_write (\<lambda>t. t \<in> txns_with WAL_COMMIT rs) k rs of None \<Rightarrow> m0 k | Some r \<Rightarrow> after_image r)) \<and>
     (\<forall>t w k. p t = Some w \<longrightarrow> w k = map_option after_image (last_write (\<lambda>u. u = t) k rs)) \<and>
     (\<forall>r \<in> set rs. has_type WAL_WRITE r \<longrightarrow> rec_txn_id r \<in> dom p \<longrightarrow> before_image r = m (rec_key r) \<and>
        (\<exists>r'. last_write (\<lambda>_. True) (rec_key r) rs = Some r' \<and> rec_txn_id r' = rec_txn_id r))"

lemma log_statusD:
  assumes "log_status rs p"
  shows "analysis rs = dom p" "t \<in> dom p \<Longrightarrow> t \<notin> txns_with WAL_COMMIT rs \<and> t \<notin> txns_with WAL_ABORT rs"
    "t \<in> txns_with WAL_COMMIT rs \<Longrightarrow> t \<notin> txns_with WAL_ABORT rs"
    "r \<in> set rs \<Longrightarrow> rec_txn_id r \<in> dom p \<or> rec_txn_id r \<in> txns_with WAL_COMMIT rs \<or> rec_txn_id r \<in> txns_with WAL_ABORT rs"
  using assms unfolding log_status_def by blast+

lemma txns_with_seen: "t \<in> txns_with ty rs \<Longrightarrow> t \<in> rec_txn_id ` set rs"
  by (auto simp: txns_with_def)

lemma only_type:
  "has_type WAL_BEGIN r \<Longrightarrow> \<not> has_type WAL_WRITE r \<and> \<not> has_type WAL_COMMIT r \<and> \<not> has_type WAL_ABORT r"
  "has_type WAL_WRITE r \<Longrightarrow> \<not> has_type WAL_BEGIN r \<and> \<not> has_type WAL_COMMIT r \<and> \<not> has_type WAL_ABORT r"
  "has_type WAL_COMMIT r \<Longrightarrow> \<not> has_type WAL_BEGIN r \<and> \<not> has_type WAL_WRITE r \<and> \<not> has_type WAL_ABORT r"
  "has_type WAL_ABORT r \<Longrightarrow> \<not> has_type WAL_BEGIN r \<and> \<not> has_type WAL_WRITE r \<and> \<not> has_type WAL_COMMIT r"
  by (simp_all add: has_type_def)

lemma logged_status: "logged m0 rs m p \<Longrightarrow> log_status rs p"
proof (induction rule: logged.induct)
  case logged_start
  then show ?case by (simp add: log_status_def analysis_def txns_with_def)
next
  case (logged_begin rs m p r)
  have "rec_txn_id r \<notin> txns_with ty rs" for ty using txns_with_seen logged_begin(3) by blast
  then show ?case
    using logged_begin(2,4) only_type(1) [OF logged_begin(2)] unfolding log_status_def by (simp add: analysis_step_def)
next
  case (logged_write rs m p r w)
  have "rec_txn_id r \<in> dom p" using logged_write(3) by blast
  then show ?case
    using logged_write(2,6) only_type(2) [OF logged_write(2)] unfolding log_status_def
    by (simp add: analysis_step_def insert_absorb)
next
  case (logged_commit rs m p r w)
  have "rec_txn_id r \<in> dom p" using logged_commit(3) by blast
  then show ?case
    using logged_commit(2,4) only_type(3) [OF logged_commit(2)] unfolding log_status_def by (simp add: analysis_step_def) blast
next
  case (logged_abort rs m p r w)
  have "rec_txn_id r \<in> dom p" using logged_abort(3) by blast
  then show ?case
    using logged_abort(2,4) only_type(4) [OF logged_abort(2)] unfolding log_status_def by (simp add: analysis_step_def) blast
qed

lemma log_valuesD:
  assumes "log_values m0 rs m p"
  shows "m k = (case last_write (\<lambda>t. t \<in> txns_with WAL_COMMIT rs) k rs of None \<Rightarrow> m0 k | Some r \<Rightarrow> after_image r)"
    "p t = Some w \<Longrightarrow> w k = map_option after_image (last_write (\<lambda>u. u = t) k rs)"
    "r \<in> set rs \<Longrightarrow> has_type WAL_WRITE r \<Longrightarrow> rec_txn_id r \<in> dom p \<Longrightarrow> before_image r = m (rec_key r)"
    "r \<in> set rs \<Longrightarrow> has_type WAL_WRITE r \<Longrightarrow> rec_txn_id r \<in> dom p \<Longrightarrow>
      \<exists>r'. last_write (\<lambda>_. True) (rec_key r) rs = Some r' \<and> rec_txn_id r' = rec_txn_id r"
  using assms unfolding log_values_def by blast+

lemma log_valuesI:
  assumes "\<And>k. m k = (case last_write (\<lambda>t. t \<in> txns_with WAL_COMMIT rs) k rs of None \<Rightarrow> m0 k | Some r \<Rightarrow> after_image r)"
    "\<And>t w k. p t = Some w \<Longrightarrow> w k = map_option after_image (last_write (\<lambda>u. u = t) k rs)"
    "\<And>r. r \<in> set rs \<Longrightarrow> has_type WAL_WRITE r \<Longrightarrow> rec_txn_id r \<in> dom p \<Longrightarrow> before_image r = m (rec_key r)"
    "\<And>r. r \<in> set rs \<Longrightarrow> has_type WAL_WRITE r \<Longrightarrow> rec_txn_id r \<in> dom p \<Longrightarrow>
      \<exists>r'. last_write (\<lambda>_. True) (rec_key r) rs = Some r' \<and> rec_txn_id r' = rec_txn_id r"
  shows "log_values m0 rs m p"
  using assms unfolding log_values_def by blast

text \<open>A running transaction that has written a key.\<close>

lemma wrote_key:
  assumes "log_values m0 rs m p" "p t = Some w"
  shows "w k \<noteq> None \<longleftrightarrow> (\<exists>r \<in> set rs. has_type WAL_WRITE r \<and> rec_txn_id r = t \<and> rec_key r = k)"
  using log_valuesD(2) [OF assms, of k] last_write_None [of "\<lambda>u. u = t" k rs] by auto

text \<open>Each kind of record keeps the relation between the log and the values.\<close>

lemma values_begin:
  assumes "logged m0 rs m p" "has_type WAL_BEGIN r" "rec_txn_id r \<notin> rec_txn_id ` set rs" "log_values m0 rs m p"
  shows "log_values m0 (rs @ [r]) m (p(rec_txn_id r \<mapsto> Map.empty))"
proof -
  note T = only_type(1) [OF assms(2)] and V = log_valuesD [OF assms(4)]
  have none: "last_write (\<lambda>u. u = rec_txn_id r) k rs = None" for k
    unfolding last_write_None using assms(3) by (metis imageI)
  show ?thesis
  proof (rule log_valuesI)
    show "m k = (case last_write (\<lambda>t. t \<in> txns_with WAL_COMMIT (rs @ [r])) k (rs @ [r]) of None \<Rightarrow> m0 k | Some r \<Rightarrow> after_image r)" for k
      using V(1) [of k] T by (simp add: last_write_snoc)
    show "w k = map_option after_image (last_write (\<lambda>u. u = t) k (rs @ [r]))" if "(p(rec_txn_id r \<mapsto> Map.empty)) t = Some w" for t w k
      using that V(2) [of t w k] T none [of k] by (auto simp: last_write_snoc split: if_splits)
    fix x assume x: "x \<in> set (rs @ [r])" "has_type WAL_WRITE x" "rec_txn_id x \<in> dom (p(rec_txn_id r \<mapsto> Map.empty))"
    have xr: "x \<in> set rs" using x(1,2) T by auto
    then have "rec_txn_id x \<noteq> rec_txn_id r" using assms(3) by (metis imageI)
    then have xp: "rec_txn_id x \<in> dom p" using x(3) by auto
    show "before_image x = m (rec_key x)" by (rule V(3) [OF xr x(2) xp])
    show "\<exists>r'. last_write (\<lambda>_. True) (rec_key x) (rs @ [r]) = Some r' \<and> rec_txn_id r' = rec_txn_id x"
      using V(4) [OF xr x(2) xp] T by (simp add: last_write_snoc)
  qed
qed

lemma values_write:
  assumes "logged m0 rs m p" "has_type WAL_WRITE r" "p (rec_txn_id r) = Some w"
    "\<And>t w'. t \<noteq> rec_txn_id r \<Longrightarrow> p t = Some w' \<Longrightarrow> w' (rec_key r) = None" "before_image r = m (rec_key r)" "log_values m0 rs m p"
  shows "log_values m0 (rs @ [r]) m (p(rec_txn_id r \<mapsto> w(rec_key r \<mapsto> after_image r)))"
proof -
  note T = only_type(2) [OF assms(2)] and V = log_valuesD [OF assms(6)]
  note S = log_statusD [OF logged_status [OF assms(1)]]
  show ?thesis
  proof (rule log_valuesI)
    have "rec_txn_id r \<notin> txns_with WAL_COMMIT rs" using S(2) assms(3) by blast
    then show "m k = (case last_write (\<lambda>t. t \<in> txns_with WAL_COMMIT (rs @ [r])) k (rs @ [r]) of None \<Rightarrow> m0 k | Some r \<Rightarrow> after_image r)" for k
      using V(1) [of k] T by (simp add: last_write_snoc)
    show "w' k = map_option after_image (last_write (\<lambda>u. u = t) k (rs @ [r]))"
      if "(p(rec_txn_id r \<mapsto> w(rec_key r \<mapsto> after_image r))) t = Some w'" for t w' k
      using that V(2) [of t w' k] V(2) [OF assms(3), of k] assms(2) by (auto simp: last_write_snoc split: if_splits)
    fix x assume x: "x \<in> set (rs @ [r])" "has_type WAL_WRITE x" "rec_txn_id x \<in> dom (p(rec_txn_id r \<mapsto> w(rec_key r \<mapsto> after_image r)))"
    then have xp: "rec_txn_id x \<in> dom p" using assms(3) by (auto split: if_splits)
    show "before_image x = m (rec_key x)" using x(1,2) xp V(3) assms(5) by auto
    have "rec_txn_id x = rec_txn_id r" if "x \<in> set rs" "rec_key x = rec_key r"
    proof (rule ccontr)
      assume ne: "rec_txn_id x \<noteq> rec_txn_id r"
      obtain w' where w': "p (rec_txn_id x) = Some w'" using xp by blast
      have "w' (rec_key r) \<noteq> None" using wrote_key [OF assms(6) w', of "rec_key r"] that x(2) by blast
      with assms(4) [OF ne w'] show False by simp
    qed
    then show "\<exists>r'. last_write (\<lambda>_. True) (rec_key x) (rs @ [r]) = Some r' \<and> rec_txn_id r' = rec_txn_id x"
      using x(1,2) xp V(4) [of x] assms(2) by (auto simp: last_write_snoc)
  qed
qed

lemma values_commit:
  assumes "logged m0 rs m p" "has_type WAL_COMMIT r" "p (rec_txn_id r) = Some w" "log_values m0 rs m p"
  shows "log_values m0 (rs @ [r]) (\<lambda>k. case w k of None \<Rightarrow> m k | Some v \<Rightarrow> v) (p(rec_txn_id r := None))"
proof -
  note T = only_type(3) [OF assms(2)] and V = log_valuesD [OF assms(4)]
  note S = log_statusD [OF logged_status [OF assms(1)]]
  let ?t = "rec_txn_id r"
  have own: "last_write (\<lambda>u. u = ?t \<or> Q u) k rs = last_write (\<lambda>u. u = ?t) k rs" if "w k \<noteq> None" for k Q
  proof -
    obtain x where x: "x \<in> set rs" "has_type WAL_WRITE x" "rec_txn_id x = ?t" "rec_key x = k"
      using wrote_key [OF assms(4,3), of k] \<open>w k \<noteq> None\<close> by blast
    then obtain y where "last_write (\<lambda>_. True) k rs = Some y" "rec_txn_id y = ?t" using V(4) [of x] assms(3) by auto
    then show ?thesis using last_write_mono [of "\<lambda>_. True" k rs y] by auto
  qed
  have no: "last_write (\<lambda>u. u = ?t \<or> Q u) k rs = last_write Q k rs" if "w k = None" for k Q
    by (rule last_write_cong) (use wrote_key [OF assms(4,3), of k] that in auto)
  show ?thesis
  proof (rule log_valuesI)
    show "(case w k of None \<Rightarrow> m k | Some v \<Rightarrow> v) =
      (case last_write (\<lambda>t. t \<in> txns_with WAL_COMMIT (rs @ [r])) k (rs @ [r]) of None \<Rightarrow> m0 k | Some r \<Rightarrow> after_image r)" for k
      using V(1) [of k] V(2) [OF assms(3), of k] T assms(2) own [of k "\<lambda>t. t \<in> txns_with WAL_COMMIT rs"]
        no [of k "\<lambda>t. t \<in> txns_with WAL_COMMIT rs"]
      by (auto simp: last_write_snoc split: option.splits)
    show "w' k = map_option after_image (last_write (\<lambda>u. u = t) k (rs @ [r]))" if "(p(?t := None)) t = Some w'" for t w' k
      using that V(2) [of t w' k] T by (auto simp: last_write_snoc split: if_splits)
    fix x assume x: "x \<in> set (rs @ [r])" "has_type WAL_WRITE x" "rec_txn_id x \<in> dom (p(?t := None))"
    then have xr: "x \<in> set rs" "rec_txn_id x \<in> dom p" "rec_txn_id x \<noteq> ?t" using T by (auto split: if_splits)
    have "w (rec_key x) = None"
    proof (rule ccontr)
      assume "w (rec_key x) \<noteq> None"
      then obtain y where y: "y \<in> set rs" "has_type WAL_WRITE y" "rec_txn_id y = ?t" "rec_key y = rec_key x"
        using wrote_key [OF assms(4,3)] by blast
      have "rec_txn_id y \<in> dom p" using y(3) assms(3) by (simp add: domI)
      from V(4) [OF y(1,2) this] V(4) [OF xr(1) x(2) xr(2)] y(3,4) xr(3) show False by auto
    qed
    then show "before_image x = (case w (rec_key x) of None \<Rightarrow> m (rec_key x) | Some v \<Rightarrow> v)" using V(3) [OF xr(1) x(2) xr(2)] by simp
    show "\<exists>r'. last_write (\<lambda>_. True) (rec_key x) (rs @ [r]) = Some r' \<and> rec_txn_id r' = rec_txn_id x"
      using V(4) [OF xr(1) x(2) xr(2)] T by (simp add: last_write_snoc)
  qed
qed

lemma values_abort:
  assumes "logged m0 rs m p" "has_type WAL_ABORT r" "p (rec_txn_id r) = Some w" "log_values m0 rs m p"
  shows "log_values m0 (rs @ [r]) m (p(rec_txn_id r := None))"
proof -
  note T = only_type(4) [OF assms(2)] and V = log_valuesD [OF assms(4)]
  show ?thesis
  proof (rule log_valuesI)
    show "m k = (case last_write (\<lambda>t. t \<in> txns_with WAL_COMMIT (rs @ [r])) k (rs @ [r]) of None \<Rightarrow> m0 k | Some r \<Rightarrow> after_image r)" for k
      using V(1) [of k] T by (simp add: last_write_snoc)
    show "w' k = map_option after_image (last_write (\<lambda>u. u = t) k (rs @ [r]))" if "(p(rec_txn_id r := None)) t = Some w'" for t w' k
      using that V(2) [of t w' k] T by (auto simp: last_write_snoc split: if_splits)
    fix x assume x: "x \<in> set (rs @ [r])" "has_type WAL_WRITE x" "rec_txn_id x \<in> dom (p(rec_txn_id r := None))"
    have xr: "x \<in> set rs" "rec_txn_id x \<in> dom p" using x T by (auto split: if_splits)
    show "before_image x = m (rec_key x)" by (rule V(3) [OF xr(1) x(2) xr(2)])
    show "\<exists>r'. last_write (\<lambda>_. True) (rec_key x) (rs @ [r]) = Some r' \<and> rec_txn_id r' = rec_txn_id x"
      using V(4) [OF xr(1) x(2) xr(2)] T by (simp add: last_write_snoc)
  qed
qed

lemma logged_values: "logged m0 rs m p \<Longrightarrow> log_values m0 rs m p"
proof (induction rule: logged.induct)
  case logged_start
  then show ?case by (simp add: log_values_def txns_with_def last_write_def)
next
  case (logged_write rs m p r w)
  show ?case by (rule values_write [OF logged_write(1-3) _ logged_write(5,6)]) (rule logged_write(4))
qed (rule values_begin values_commit values_abort; assumption)+

subsection \<open>Recovery restores the committed map\<close>

lemma update_images [simp]:
  "update_key (after_update r) = rec_key r" "update_val (after_update r) = after_image r"
  "update_key (before_update r) = rec_key r" "update_val (before_update r) = before_image r"
  by (simp_all add: after_update_def after_image_def before_update_def before_image_def)

text \<open>Of the writes of a key, the first one of a loser decides, else the last one that was not
  aborted.\<close>

definition first_write :: "(txn_id \<Rightarrow> bool) \<Rightarrow> bytes \<Rightarrow> wal_record list \<Rightarrow> wal_record option" where
  "first_write P k rs = find (\<lambda>r. has_type WAL_WRITE r \<and> P (rec_txn_id r) \<and> rec_key r = k) rs"

lemma recovered_value:
  "recovered rs m k = (case first_write (\<lambda>t. t \<in> analysis rs) k rs of
      Some r \<Rightarrow> before_image r
    | None \<Rightarrow> (case last_write (\<lambda>t. t \<notin> txns_with WAL_ABORT rs) k rs of Some r \<Rightarrow> after_image r | None \<Rightarrow> m k))"
proof -
  have u: "find (\<lambda>u. update_key u = k) (rev (undo_updates rs)) = map_option before_update (first_write (\<lambda>t. t \<in> analysis rs) k rs)"
    by (simp add: undo_updates_def writes_of_def rev_map find_map_filter first_write_def conj_assoc)
  have r: "find (\<lambda>u. update_key u = k) (rev (redo_updates rs)) =
      map_option after_update (last_write (\<lambda>t. t \<notin> txns_with WAL_ABORT rs) k rs)"
    by (simp add: redo_updates_def writes_of_def rev_map rev_filter find_map_filter last_write_def conj_assoc)
  show ?thesis
    by (simp add: recovered_def fold_kv_apply find_append u r del: fold_append split: option.split)
qed

lemma recovered_committed:
  assumes "logged m0 rs m p"
    "\<And>k. (\<forall>r \<in> set rs. has_type WAL_WRITE r \<longrightarrow> rec_key r = k \<longrightarrow> rec_txn_id r \<in> txns_with WAL_ABORT rs) \<Longrightarrow> d k = m0 k"
  shows "recovered rs d = m"
proof
  fix k
  note S = log_statusD [OF logged_status [OF assms(1)]] and V = log_valuesD [OF logged_values [OF assms(1)]]
  show "recovered rs d k = m k"
  proof (cases "first_write (\<lambda>t. t \<in> analysis rs) k rs")
    case (Some r)
    then have "r \<in> set rs \<and> has_type WAL_WRITE r \<and> rec_txn_id r \<in> analysis rs \<and> rec_key r = k"
      by (auto simp: first_write_def find_Some_iff)
    then show ?thesis using Some V(3) [of r] S(1) by (simp add: recovered_value)
  next
    case None
    then have none: "rec_txn_id r \<notin> dom p" if "r \<in> set rs" "has_type WAL_WRITE r" "rec_key r = k" for r
      using that S(1) by (auto simp: first_write_def find_None_iff)
    have "last_write (\<lambda>t. t \<notin> txns_with WAL_ABORT rs) k rs = last_write (\<lambda>t. t \<in> txns_with WAL_COMMIT rs) k rs"
      by (rule last_write_cong) (use none S(3,4) in blast)
    moreover have "d k = m0 k" if "last_write (\<lambda>t. t \<notin> txns_with WAL_ABORT rs) k rs = None"
      using assms(2) [of k] that by (auto simp: last_write_None)
    ultimately show ?thesis using None V(1) [of k] by (auto simp: recovered_value split: option.split)
  qed
qed

end
