(* ===== verification/Recovery_Props.thy ===== *)
theory Recovery_Props
  imports Log_History Btree_Props Wal_Props
begin

section \<open>Properties of recovery\<close>

text \<open>
  Recovery on the tree and the log of the model: it restores exactly the committed map of a history
  of transactions, and its two deviations, a rolled back write that had reached the disk and an
  empty value.
\<close>

subsection \<open>A sample database with a log\<close>

definition sample_engine :: "wal_record list \<Rightarrow> engine" where
  "sample_engine rs = btree.extend sample_tree (engine.fields
     \<lparr>wal_file = log_bytes rs, wal_faults = [], next_lsn = of_nat (length rs) + 1, next_txn_id = 100\<rparr>)"

lemma sample_engine_ok:
  "\<exists>pid. holds_tree (sample_engine rs) (Leaf pid [])" "unat (num_pages (sample_engine rs)) \<le> 3"
  "wal_file (wal (sample_engine rs)) = log_bytes rs" "wal_faults (wal (sample_engine rs)) = []"
proof -
  have same: "same_pool (sample_engine rs) sample_tree" "tree_root (sample_engine rs) = tree_root sample_tree"
    by (simp_all add: same_pool_def sample_engine_def btree.defs)
  show "\<exists>pid. holds_tree (sample_engine rs) (Leaf pid [])" using sample_tree_ok(1) holds_tree_cong [OF _ same] by blast
  show "unat (num_pages (sample_engine rs)) \<le> 3" using sample_tree_ok(2) same_poolD(1) [OF same(1)] by simp
  show "wal_file (wal (sample_engine rs)) = log_bytes rs" "wal_faults (wal (sample_engine rs)) = []"
    by (simp_all add: sample_engine_def btree.defs engine.defs)
qed

definition sample_begin :: "lsn \<Rightarrow> txn_id \<Rightarrow> WalRecordType \<Rightarrow> wal_record" where
  "sample_begin l t ty = new_WalRecord\<lparr>rec_lsn := l, rec_txn_id := t, rec_type := wal_type_code ty\<rparr>"

definition sample_write :: "lsn \<Rightarrow> txn_id \<Rightarrow> bytes \<Rightarrow> bytes \<Rightarrow> wal_record" where
  "sample_write l t old new = new_WalRecord\<lparr>rec_lsn := l, rec_txn_id := t, rec_type := wal_type_code WAL_WRITE,
     rec_key := [5], rec_before_val := old, rec_after_val := new, rec_before_exists := (old \<noteq> [])\<rparr>"

text \<open>Transaction 1 inserted a key and committed; transaction 2 changed it and was interrupted.\<close>

definition sample_history :: "wal_record list" where
  "sample_history = [sample_begin 1 1 WAL_BEGIN, sample_write 2 1 [] [6], sample_begin 3 1 WAL_COMMIT,
     sample_begin 4 2 WAL_BEGIN, sample_write 5 2 [6] [7]]"

lemmas sample_defs = sample_begin_def sample_write_def new_WalRecord_def

lemma sample_history_logged: "logged Map.empty sample_history [[5] \<mapsto> [6]] [2 \<mapsto> [[5] \<mapsto> Some [7]]]"
proof -
  have 1: "logged Map.empty ([] @ [sample_begin 1 1 WAL_BEGIN]) Map.empty (Map.empty(1 \<mapsto> Map.empty))"
    using logged_begin [OF logged_start, of "sample_begin 1 1 WAL_BEGIN"] by (simp add: has_type_def sample_defs)
  have 2: "logged Map.empty (([] @ [sample_begin 1 1 WAL_BEGIN]) @ [sample_write 2 1 [] [6]]) Map.empty [1 \<mapsto> [[5] \<mapsto> Some [6]]]"
    using logged_write [OF 1, of "sample_write 2 1 [] [6]"]
    by (simp add: has_type_def sample_defs before_image_def after_image_def)
  let ?h = "(([] @ [sample_begin 1 1 WAL_BEGIN]) @ [sample_write 2 1 [] [6]]) @ [sample_begin 3 1 WAL_COMMIT]"
  have "(\<lambda>k. case [[5] \<mapsto> Some [6]] k of None \<Rightarrow> None | Some v \<Rightarrow> v) = [[5 :: byte] \<mapsto> [6 :: byte]]" by (simp add: fun_eq_iff)
  then have 3: "logged Map.empty ?h [[5] \<mapsto> [6]] Map.empty"
    using logged_commit [OF 2, of "sample_begin 3 1 WAL_COMMIT"] by (simp add: has_type_def sample_defs)
  have 4: "logged Map.empty (?h @ [sample_begin 4 2 WAL_BEGIN]) [[5] \<mapsto> [6]] [2 \<mapsto> Map.empty]"
    using logged_begin [OF 3, of "sample_begin 4 2 WAL_BEGIN"] by (simp add: has_type_def sample_defs)
  show ?thesis
    using logged_write [OF 4, of "sample_write 5 2 [6] [7]"]
    by (simp add: has_type_def sample_defs before_image_def after_image_def sample_history_def)
qed

lemma sample_log_reads:
  assumes "sorted_wrt (<) (map (unat \<circ> rec_lsn) rs)" "\<forall>r \<in> set rs. wal_wf r \<and> stored r = r \<and> unat (rec_lsn r) < unat (next_lsn (wal (sample_engine rs)))"
    "unat (next_lsn (wal (sample_engine rs))) < 2 ^ 63"
  shows "read_all (wal (sample_engine rs)) = (Inr rs, wal (sample_engine rs))"
proof -
  have "log_inv (wal (sample_engine rs)) rs" using assms sample_engine_ok(3,4) by (simp add: log_inv_def)
  moreover have "map stored rs = rs" using assms(2) by (simp add: map_idI)
  ultimately show ?thesis using read_all_run by simp
qed

lemma sample_engine_lsn [simp]: "next_lsn (wal (sample_engine rs)) = of_nat (length rs) + 1"
  by (simp add: sample_engine_def btree.defs engine.defs)

lemma sample_history_reads: "read_all (wal (sample_engine sample_history)) = (Inr sample_history, wal (sample_engine sample_history))"
  by (rule sample_log_reads) (simp_all add: sample_history_def sample_defs wal_wf_def stored_def)

lemma sample_history_can:
  "kv_can_all btree_insert btree_remove tree_can_put tree_can_delete (redo_updates sample_history @ undo_updates sample_history)
     (sample_engine sample_history)" (is "kv_can_all _ _ _ _ _ ?s")
proof -
  obtain pid where t: "holds_tree ?s (Leaf pid [])" using sample_engine_ok(1) by blast
  show ?thesis
  proof (rule leaf_can_all [OF t])
    have us: "redo_updates sample_history @ undo_updates sample_history = [Put_key [5] [6], Put_key [5] [7], Put_key [5] [6]]"
      by (simp add: redo_updates_def undo_updates_def writes_of_def txns_with_def analysis_def analysis_step_def
          after_update_def before_update_def sample_history_def has_type_def sample_defs)
    show "\<forall>u \<in> set (redo_updates sample_history @ undo_updates sample_history). update_small u" unfolding us by simp
    show "space leaf_tail [] + sum_list (map update_cost (redo_updates sample_history @ undo_updates sample_history)) \<le> 4040"
      unfolding us by (simp add: space_def cost_def encode_leaf leaf_cell_size_def)
    show "unat (num_pages ?s) < 1073741824" using sample_engine_ok(2) [of sample_history] by simp
  qed
qed

subsection \<open>Recovery\<close>

text \<open>Recovery restores the committed map. If the log is that of transactions under strict two-phase
  locking, and the tree on disk is up to date on all keys that no transaction but a rolled back one
  wrote, whatever it contains for the others, then after recovery the tree holds exactly the effects
  of the committed transactions, and the number returned is that of the interrupted ones.\<close>

theorem recover_restores_committed:
  fixes s :: "'a engine_scheme"
  assumes "tree_holds s d" "read_all (wal s) = (Inr records, w)" "logged m0 records m p"
    "\<And>k. (\<forall>r \<in> set records. has_type WAL_WRITE r \<longrightarrow> rec_key r = k \<longrightarrow> rec_txn_id r \<in> txns_with WAL_ABORT records) \<Longrightarrow> d k = m0 k"
    "kv_can_all btree_insert btree_remove tree_can_put tree_can_delete (redo_updates records @ undo_updates records) (s\<lparr>wal := w\<rparr>)"
  shows "\<exists>s'. recover s = (Inr (card (dom p)), s') \<and> tree_holds s' m \<and> wal s' = w"
  using recover_run [OF assms(1,2,5)] recovered_committed [OF assms(3,4)] log_statusD(1) [OF logged_status [OF assms(3)]] by auto

theorem recover_restores_committed_witness:
  "\<exists>s'. recover (sample_engine sample_history) = (Inr 1, s') \<and> tree_holds s' [[5] \<mapsto> [6]]"
proof -
  let ?s = "sample_engine sample_history"
  obtain pid where t: "holds_tree ?s (Leaf pid [])" using sample_engine_ok(1) by blast
  then have h: "tree_holds ?s Map.empty" by (auto simp: tree_holds_def contents_def)
  from recover_restores_committed [OF h sample_history_reads sample_history_logged] sample_history_can show ?thesis by auto
qed

text \<open>Recovery only touches keys that a transaction wrote which was not rolled back.\<close>

lemma recovery_keys:
  assumes "log_status rs p" "u \<in> set (redo_updates rs @ undo_updates rs)"
  obtains r where "r \<in> set rs" "has_type WAL_WRITE r" "rec_key r = update_key u" "rec_txn_id r \<notin> txns_with WAL_ABORT rs"
proof -
  have "t \<notin> txns_with WAL_ABORT rs" if "t \<in> analysis rs" for t using log_statusD(1,2) [OF assms(1)] that by blast
  then show ?thesis using assms(2) that by (auto simp: redo_updates_def undo_updates_def writes_of_def)
qed

lemma fold_kv_untouched: "\<forall>u \<in> set us. update_key u \<noteq> k \<Longrightarrow> fold kv_apply us m k = m k"
proof -
  assume "\<forall>u \<in> set us. update_key u \<noteq> k"
  then have "find (\<lambda>u. update_key u = k) (rev us) = None" by (auto simp: find_None_iff)
  then show ?thesis by (simp add: fold_kv_apply)
qed

text \<open>Recovery can be interrupted: if it stopped after any number of its updates, leaving the tree
  in between, then running it again on the same log still restores the committed map.\<close>

theorem recover_restartable:
  fixes s :: "'a engine_scheme"
  assumes "tree_holds s (fold kv_apply (take n (redo_updates records @ undo_updates records)) d)"
    "read_all (wal s) = (Inr records, w)" "logged m0 records m p"
    "\<And>k. (\<forall>r \<in> set records. has_type WAL_WRITE r \<longrightarrow> rec_key r = k \<longrightarrow> rec_txn_id r \<in> txns_with WAL_ABORT records) \<Longrightarrow> d k = m0 k"
    "kv_can_all btree_insert btree_remove tree_can_put tree_can_delete (redo_updates records @ undo_updates records) (s\<lparr>wal := w\<rparr>)"
  shows "\<exists>s'. recover s = (Inr (card (dom p)), s') \<and> tree_holds s' m \<and> wal s' = w"
proof -
  let ?us = "redo_updates records @ undo_updates records"
  note S = logged_status [OF assms(3)]
  have "fold kv_apply (take n ?us) d k = m0 k"
    if k: "\<forall>r \<in> set records. has_type WAL_WRITE r \<longrightarrow> rec_key r = k \<longrightarrow> rec_txn_id r \<in> txns_with WAL_ABORT records" for k
  proof -
    have "update_key u \<noteq> k" if "u \<in> set (take n ?us)" for u
      using recovery_keys [OF S in_set_takeD [OF that]] k by metis
    then show ?thesis using assms(4) [OF k] fold_kv_untouched [of "take n ?us" k d] by simp
  qed
  from recovered_committed [OF assms(3) this] show ?thesis
    using recover_run [OF assms(1,2,5)] log_statusD(1) [OF S] by auto
qed

theorem recover_restartable_witness:
  "\<exists>s'. recover (sample_engine sample_history) = (Inr 1, s') \<and> tree_holds s' [[5] \<mapsto> [6]]"
proof -
  let ?s = "sample_engine sample_history"
  obtain pid where t: "holds_tree ?s (Leaf pid [])" using sample_engine_ok(1) by blast
  then have h: "tree_holds ?s (fold kv_apply (take 0 (redo_updates sample_history @ undo_updates sample_history)) Map.empty)"
    by (auto simp: tree_holds_def contents_def)
  from recover_restartable [OF h sample_history_reads sample_history_logged] sample_history_can show ?thesis by auto
qed

text \<open>The steps of recovery: one for each record that \<open>redo\<close> and then \<open>undo\<close> visit. A run of \<open>recover\<close> is a run
  of all of them; the first ones of them are as far as an interrupted run has come.\<close>

definition recovery_steps :: "wal_record list \<Rightarrow> ('a btree_scheme, unit) op list" where
  "recovery_steps records = map (redo_record (txns_with WAL_ABORT records)) records @ map (undo_record (analysis records)) (rev records)"

lemma foreach_steps: "op_foreach (\<lambda>step. step) (map f xs) = op_foreach f xs"
  by (induction xs) simp_all

lemma undo_nobody: "op_foreach (undo_record {}) rs = op_return ()"
  by (induction rs) (simp_all add: undo_record_def op_return_bind)

lemma undo_loop: "undo rs losers = op_foreach (undo_record losers) (rev rs)"
  by (simp add: undo_def undo_nobody)

lemma phases_steps:
  "(if rs = [] then op_return 0 else op_bind (redo rs) (\<lambda>_. op_bind (undo rs (analysis rs)) (\<lambda>_. op_return (card (analysis rs))))) =
     op_bind (op_foreach (\<lambda>step. step) (recovery_steps rs)) (\<lambda>_. op_return (card (analysis rs)))"
  by (cases "rs = []") (simp_all add: recovery_steps_def op_foreach_append foreach_steps redo_def undo_loop op_bind_assoc op_return_bind analysis_def)

lemma recover_steps:
  "recover = op_bind (on_wal read_all) (\<lambda>records. op_bind (op_foreach (\<lambda>step. step) (recovery_steps records)) (\<lambda>_. op_return (card (analysis records))))"
  unfolding recover_def Let_def phases_steps ..

text \<open>The first steps are the first updates.\<close>

lemma first_steps:
  obtains us vs where "op_foreach (\<lambda>step. step) (take n (recovery_steps records)) = op_foreach tree_step us"
    "redo_updates records @ undo_updates records = us @ vs"
proof -
  let ?A = "txns_with WAL_ABORT records" and ?L = "analysis records"
  let ?R = "\<lambda>rs. map after_update (filter (\<lambda>r. has_type WAL_WRITE r \<and> rec_txn_id r \<notin> ?A) rs)"
  let ?U = "\<lambda>rs. map before_update (filter (\<lambda>r. has_type WAL_WRITE r \<and> rec_txn_id r \<in> ?L) rs)"
  let ?k = "n - length records"
  have R: "op_foreach (redo_record ?A) rs = op_foreach tree_step (?R rs)" for rs
    by (rule foreach_filter) (auto simp: redo_record_def after_update_def kv_step_def)
  have U: "op_foreach (undo_record ?L) rs = op_foreach tree_step (?U rs)" for rs
    by (rule foreach_filter) (auto simp: undo_record_def before_update_def kv_step_def)
  have run: "op_foreach (\<lambda>step. step) (take n (recovery_steps records)) = op_foreach tree_step (?R (take n records) @ ?U (take ?k (rev records)))"
    by (simp add: recovery_steps_def take_map op_foreach_append foreach_steps R U)
  have all: "redo_updates records @ undo_updates records = ?R records @ ?U (rev records)"
    by (simp add: redo_updates_def undo_updates_def writes_of_def rev_filter)
  show ?thesis
  proof (cases "n \<le> length records")
    case True
    have "?R records = ?R (take n records) @ ?R (drop n records)" by (metis append_take_drop_id filter_append map_append)
    then show ?thesis using all True by (intro that [OF run, of "?R (drop n records) @ ?U (rev records)"]) simp
  next
    case False
    have "?U (rev records) = ?U (take ?k (rev records)) @ ?U (drop ?k (rev records))" by (metis append_take_drop_id filter_append map_append)
    then show ?thesis using all False by (intro that [OF run, of "?U (drop ?k (rev records))"]) simp
  qed
qed

lemma kv_can_all_prefix: "kv_can_all ins rem can_put can_delete (us @ vs) s \<Longrightarrow> kv_can_all ins rem can_put can_delete us s"
  by (induction us arbitrary: s) auto

text \<open>What an interrupted recovery leaves: the log as it was, and a tree that has changed only in keys that
  the next recovery sets again.\<close>

lemma interrupted_run:
  fixes c :: "'a engine_scheme"
  assumes "tree_holds c d" "log_status records p"
    "kv_can_all btree_insert btree_remove tree_can_put tree_can_delete (redo_updates records @ undo_updates records) c"
  shows "\<exists>c' d'. op_foreach (\<lambda>step. step) (take n (recovery_steps records)) c = (Inr (), c') \<and> tree_holds c' d' \<and> wal c' = wal c \<and>
    (\<forall>k. (\<forall>r \<in> set records. has_type WAL_WRITE r \<longrightarrow> rec_key r = k \<longrightarrow> rec_txn_id r \<in> txns_with WAL_ABORT records) \<longrightarrow> d' k = d k)"
proof -
  obtain us vs where us: "op_foreach (\<lambda>step. step) (take n (recovery_steps records)) = (op_foreach tree_step us :: ('a engine_scheme, unit) op)"
    "redo_updates records @ undo_updates records = us @ vs" by (rule first_steps)
  have "kv_can_all btree_insert btree_remove tree_can_put tree_can_delete us c" using assms(3) us(2) kv_can_all_prefix by metis
  from bt.updates_law [OF assms(1) this] obtain c' where
    c': "op_foreach tree_step us c = (Inr (), c')" "tree_holds c' (fold kv_apply us d)" "btree.more c' = btree.more c" by blast
  have "fold kv_apply us d k = d k"
    if k: "\<forall>r \<in> set records. has_type WAL_WRITE r \<longrightarrow> rec_key r = k \<longrightarrow> rec_txn_id r \<in> txns_with WAL_ABORT records" for k
  proof (rule fold_kv_untouched, rule ballI)
    fix u assume "u \<in> set us"
    then have "u \<in> set (redo_updates records @ undo_updates records)" unfolding us(2) by simp
    from recovery_keys [OF assms(2) this] k show "update_key u \<noteq> k" by metis
  qed
  then show ?thesis using us(1) c' more_wal [OF c'(3)] by auto
qed

text \<open>The log of the deviation.\<close>

definition sample_aborted :: "wal_record list" where
  "sample_aborted = [sample_begin 1 1 WAL_BEGIN, sample_write 2 1 [6] [7], sample_begin 3 1 WAL_ABORT]"

text \<open>C38. A write that was rolled back but had reached the disk stays: recovery does not redo it, and does
  not undo it either. Here transaction 1 changed a key, another commit flushed the pages, and then
  transaction 1 was rolled back in memory before the crash.\<close>

theorem recover_keeps_aborted_write:
  fixes s :: "'a engine_scheme"
  assumes "tree_holds s (m(k \<mapsto> v))" "read_all (wal s) = (Inr [b, r, a], w)" "has_type WAL_BEGIN b" "has_type WAL_WRITE r"
    "has_type WAL_ABORT a" "rec_txn_id b = t" "rec_txn_id r = t" "rec_txn_id a = t" "rec_key r = k" "before_image r = m k" "after_image r = Some v"
  shows "\<exists>s'. recover s = (Inr 0, s') \<and> tree_holds s' (m(k \<mapsto> v))"
proof -
  note T = only_type(1) [OF assms(3)] only_type(2) [OF assms(4)] only_type(4) [OF assms(5)]
  have a: "analysis [b, r, a] = {}" using T assms(3-8) by (simp add: analysis_def analysis_step_def)
  moreover have "txns_with WAL_ABORT [b, r, a] = {t}" using T assms(5,8) by (simp add: txns_with_def)
  ultimately have us: "redo_updates [b, r, a] = []" "undo_updates [b, r, a] = []"
    using T assms(7) by (simp_all add: redo_updates_def undo_updates_def writes_of_def)
  show ?thesis using recover_run [OF assms(1,2)] a us by (auto simp: recovered_def)
qed

theorem recover_keeps_aborted_write_witness:
  "\<exists>s s'. btree_insert [5] [7] (sample_engine sample_aborted) = (Inr (), s) \<and> recover s = (Inr 0, s') \<and>
    fst (btree_get [5] s') = Inr (Some [7])"
proof -
  let ?s = "sample_engine sample_aborted"
  obtain pid where "holds_tree ?s (Leaf pid [])" using sample_engine_ok(1) by blast
  then have h: "tree_holds ?s Map.empty" by (auto simp: tree_holds_def contents_def)
  have "tree_can_put [5] [7] ?s" using sample_engine_ok(2) [of sample_aborted] by (simp add: tree_can_put_def)
  from bt.ins_law [OF h this] obtain s where
    s: "btree_insert [5] [7] ?s = (Inr (), s)" "tree_holds s [[5] \<mapsto> [7]]" "btree.more s = btree.more ?s" by auto
  have "read_all (wal ?s) = (Inr sample_aborted, wal ?s)"
    by (rule sample_log_reads) (simp_all add: sample_aborted_def sample_defs wal_wf_def stored_def)
  then have rd: "read_all (wal s) = (Inr sample_aborted, wal s)" using more_wal [OF s(3)] by simp
  have m: "tree_holds s ([[5] \<mapsto> [6]]([5] \<mapsto> [7]))" using s(2) by simp
  obtain s' where s': "recover s = (Inr 0, s')" "tree_holds s' ([[5] \<mapsto> [6]]([5] \<mapsto> [7]))"
    using recover_keeps_aborted_write [OF m rd [unfolded sample_aborted_def], of 1]
    by (auto simp: has_type_def sample_defs before_image_def after_image_def)
  with s(1) bt.get_law [OF s'(2), of "[5]"] show ?thesis by auto
qed

end
