(* ===== verification/Db.thy ===== *)
theory Db
  imports Recovery_Manager Lock_Manager
begin

section \<open>The database and its transactions (\<open>src/src/db.{h,cpp}\<close>)\<close>

text \<open>
  \<open>DB\<close> owns the file, the free list, the pool, the tree and the log, which are one nested record
  here, and the lock manager. A \<open>Transaction\<close> is an object of its own that refers to the
  database; its methods run on the pair of both. Each method holds the database mutex while it uses
  the tree, so that it is one step.

  A call that has to wait for a lock is represented by its last round: it is granted in the state it
  finds then, or its deadline has passed. What other threads do in the meantime are steps of theirs.

  \<open>write_set_\<close> is an unordered map. The order in which \<open>undo_all\<close> walks over it is not
  specified, so it is an argument, and what is proved about it holds for every order.
\<close>

record db = engine +
  locks :: lock_manager

record write_entry =
  we_before_exists :: bool
  we_before_val :: bytes
  we_after_val :: bytes

record transaction =
  txn_id :: txn_id
  txn_done :: bool
  write_set :: "bytes \<rightharpoonup> write_entry"

type_synonym ('a, 'x) txn_op = "(transaction \<times> 'a db_scheme, 'x) op"

definition on_db :: "('a db_scheme, 'x) op \<Rightarrow> ('a, 'x) txn_op" where
  "on_db m = (\<lambda>(t, s). case m s of (r, s') \<Rightarrow> (r, (t, s')))"

definition txn_get :: "(transaction \<Rightarrow> 'x) \<Rightarrow> ('a, 'x) txn_op" where
  "txn_get f = op_gets (\<lambda>(t, s). f t)"

definition txn_set :: "(transaction \<Rightarrow> transaction) \<Rightarrow> ('a, unit) txn_op" where
  "txn_set f = op_modify (\<lambda>(t, s). (f t, s))"

subsection \<open>Opening and closing\<close>

definition new_db :: "buffer_pool \<Rightarrow> log_manager \<Rightarrow> db" where
  "new_db bp lg = engine.extend (btree.extend (buffer_pool.extend bp (btree.fields INVALID_PAGE_ID)) (engine.fields lg))
     (db.fields LockManager_new)"

definition open_tree :: "('a engine_scheme, unit) op" where
  "open_tree = op_bind root_page_id (\<lambda>root.
     if root = INVALID_PAGE_ID then BTree_create
     else
       op_bind (op_modify (BTree_open root)) (\<lambda>_.
       op_bind recover (\<lambda>_.
       op_bind flush_all (\<lambda>_.
       op_bind dm_flush (\<lambda>_.
       on_wal wal_truncate)))))"

definition DB_Open :: "buf \<Rightarrow> nat \<Rightarrow> io_outcome list \<Rightarrow> bytes \<Rightarrow> io_outcome list \<Rightarrow> exc + db" where
  "DB_Open file sz faults log_file log_faults =
     res_bind (DiskManager_open file sz faults) (\<lambda>dm.
     case fl_load (FreeList_new dm) of
       (Inl e, _) \<Rightarrow> Inl e
     | (Inr _, fl) \<Rightarrow>
         res_bind (LogManager_open log_file log_faults) (\<lambda>lg.
         case open_tree (new_db (BufferPool_new fl) lg) of (Inl e, _) \<Rightarrow> Inl e | (Inr _, s) \<Rightarrow> Inr s))"

definition DB_Close :: "('a db_scheme, unit) op" where
  "DB_Close = op_bind flush_all (\<lambda>_. op_bind dm_flush (\<lambda>_. on_wal wal_truncate))"

text \<open>The destructor of \<open>DB\<close> destroys the members; of these only the pool does more than close a descriptor.
  The log is neither forced nor truncated.\<close>

definition DB_destroy :: "('a db_scheme, unit) op" where
  "DB_destroy = BufferPool_destroy"

definition DB_Begin :: "('a db_scheme, transaction) op" where
  "DB_Begin = op_bind (on_wal begin_txn) (\<lambda>(tid, _). op_return \<lparr>txn_id = tid, txn_done = False, write_set = Map.empty\<rparr>)"

subsection \<open>Internal helpers of a transaction\<close>

definition txn_lock :: "bytes \<Rightarrow> LockMode \<Rightarrow> ('a, unit) txn_op" where
  "txn_lock key mode = (\<lambda>(t, s). case lock_attempt (txn_id t) key mode (locks s) of
     (True, l) \<Rightarrow> (Inr (), (t, s\<lparr>locks := l\<rparr>))
   | (False, l) \<Rightarrow> (Inl Deadlock_exception, (t, s\<lparr>locks := lock_timeout key l\<rparr>)))"

definition get_locked :: "bytes \<Rightarrow> ('a, bytes option) txn_op" where
  "get_locked key = on_db (btree_get key)"

definition log_write :: "bytes \<Rightarrow> write_entry \<Rightarrow> bytes \<Rightarrow> ('a, unit) txn_op" where
  "log_write key entry val = op_bind (txn_get txn_id) (\<lambda>tid.
     op_bind (on_db (on_wal (append_write tid key (we_before_exists entry) (we_before_val entry) val))) (\<lambda>_. op_return ()))"

definition put_locked :: "bytes \<Rightarrow> bytes \<Rightarrow> ('a, unit) txn_op" where
  "put_locked key val = op_bind (txn_get (\<lambda>t. write_set t key)) (\<lambda>found.
     op_bind (case found of
         None \<Rightarrow> op_bind (on_db (btree_get key)) (\<lambda>existing.
           op_return \<lparr>we_before_exists = (existing \<noteq> None),
             we_before_val = (case existing of None \<Rightarrow> [] | Some v \<Rightarrow> v), we_after_val = val\<rparr>)
       | Some e \<Rightarrow> op_return (e\<lparr>we_after_val := val\<rparr>)) (\<lambda>entry.
     op_bind (txn_set (\<lambda>t. t\<lparr>write_set := (write_set t)(key \<mapsto> entry)\<rparr>)) (\<lambda>_.
     op_bind (log_write key entry val) (\<lambda>_.
     on_db (btree_insert key val)))))"

definition delete_locked :: "bytes \<Rightarrow> ('a, unit) txn_op" where
  "delete_locked key = op_bind (on_db (btree_get key)) (\<lambda>existing. case existing of
     None \<Rightarrow> op_return ()
   | Some v \<Rightarrow> op_bind (txn_get (\<lambda>t. write_set t key)) (\<lambda>found.
       let entry = (case found of
           None \<Rightarrow> \<lparr>we_before_exists = True, we_before_val = v, we_after_val = []\<rparr>
         | Some e \<Rightarrow> e\<lparr>we_after_val := []\<rparr>) in
       op_bind (txn_set (\<lambda>t. t\<lparr>write_set := (write_set t)(key \<mapsto> entry)\<rparr>)) (\<lambda>_.
       op_bind (log_write key entry []) (\<lambda>_.
       op_bind (on_db (btree_remove key)) (\<lambda>_. op_return ())))))"

definition undo_entry :: "bytes \<Rightarrow> ('a, unit) txn_op" where
  "undo_entry key = op_bind (txn_get (\<lambda>t. write_set t key)) (\<lambda>e. case e of
     None \<Rightarrow> op_return ()
   | Some we \<Rightarrow> if \<not> we_before_exists we then op_bind (on_db (btree_remove key)) (\<lambda>_. op_return ())
       else on_db (btree_insert key (we_before_val we)))"

definition undo_all :: "bytes list \<Rightarrow> ('a, unit) txn_op" where
  "undo_all order = op_foreach undo_entry order"

subsection \<open>Public methods of a transaction\<close>

text \<open>The order is an order of the keys of the write set.\<close>

definition write_order :: "bytes list \<Rightarrow> transaction \<Rightarrow> bool" where
  "write_order order t \<longleftrightarrow> distinct order \<and> set order = dom (write_set t)"

definition check_open :: "('a, unit) txn_op" where
  "check_open = op_bind (txn_get txn_done) (\<lambda>d. if d then op_throw Runtime_error else op_return ())"

definition Txn_Get :: "bytes \<Rightarrow> ('a, bytes option) txn_op" where
  "Txn_Get key = op_bind check_open (\<lambda>_. op_bind (txn_lock key SHARED) (\<lambda>_. get_locked key))"

definition Txn_Put :: "bytes \<Rightarrow> bytes \<Rightarrow> ('a, unit) txn_op" where
  "Txn_Put key val = op_bind check_open (\<lambda>_. op_bind (txn_lock key EXCLUSIVE) (\<lambda>_. put_locked key val))"

definition Txn_Delete :: "bytes \<Rightarrow> ('a, unit) txn_op" where
  "Txn_Delete key = op_bind check_open (\<lambda>_. op_bind (txn_lock key EXCLUSIVE) (\<lambda>_. delete_locked key))"

definition txn_release :: "('a, unit) txn_op" where
  "txn_release = op_modify (\<lambda>(t, s). (t, s\<lparr>locks := release_all (txn_id t) (locks s)\<rparr>))"

definition Txn_Commit :: "('a, unit) txn_op" where
  "Txn_Commit = op_bind check_open (\<lambda>_.
     op_bind (txn_set (\<lambda>t. t\<lparr>txn_done := True\<rparr>)) (\<lambda>_.
     op_bind (txn_get txn_id) (\<lambda>tid.
     op_bind (on_db (on_wal (append_commit tid))) (\<lambda>_.
     op_bind (on_db (on_wal wal_flush)) (\<lambda>_.
     op_bind (on_db flush_all) (\<lambda>_.
     op_bind (on_db dm_flush) (\<lambda>_.
     txn_release)))))))"

definition Txn_Rollback :: "bytes list \<Rightarrow> ('a, unit) txn_op" where
  "Txn_Rollback order = op_bind check_open (\<lambda>_.
     op_bind (txn_set (\<lambda>t. t\<lparr>txn_done := True\<rparr>)) (\<lambda>_.
     op_bind (undo_all order) (\<lambda>_.
     op_bind (txn_get txn_id) (\<lambda>tid.
     op_bind (on_db (on_wal (append_abort tid))) (\<lambda>_.
     txn_release)))))"

text \<open>A failed assertion ends the process; every other error is a C++ exception, which a handler may
  swallow. The destructor rolls back and swallows all of them.\<close>

definition is_exception :: "exc \<Rightarrow> bool" where
  "is_exception e \<longleftrightarrow> e \<noteq> Assertion_failure \<and> e \<noteq> Out_of_fuel"

definition try_catch :: "('s, 'x) op \<Rightarrow> (exc \<Rightarrow> ('s, 'x) op) \<Rightarrow> ('s, 'x) op" where
  "try_catch m h = (\<lambda>s. case m s of
     (Inl e, s') \<Rightarrow> if is_exception e then h e s' else (Inl e, s')
   | (Inr x, s') \<Rightarrow> (Inr x, s'))"

definition Txn_destroy :: "bytes list \<Rightarrow> ('a, unit) txn_op" where
  "Txn_destroy order = op_bind (txn_get txn_done) (\<lambda>d.
     if d then op_return () else try_catch (Txn_Rollback order) (\<lambda>_. op_return ()))"

end
