(* ===== verification/Db_Ops.thy ===== *)
theory Db_Ops
  imports Db Log_History
begin

section \<open>The operations of a transaction on the map and on the log\<close>

text \<open>
  The state of the database for its clients: the map that the tree holds and the records in the log.
  Each operation of a transaction is given by its effect on both, using the laws of the tree as a
  key-value store and of the log as an append-only log.
\<close>

definition db_holds :: "'a engine_scheme \<Rightarrow> kv_map \<Rightarrow> wal_record list \<Rightarrow> bool" where
  "db_holds s m rs \<longleftrightarrow> tree_holds s m \<and> log_inv (wal s) rs"

definition log_room :: "'a engine_scheme \<Rightarrow> bool" where
  "log_room s \<longleftrightarrow> unat (next_lsn (wal s)) + 1 < 2 ^ 63"

lemma same_tree:
  assumes "same_pool s' s" "tree_root s' = tree_root s"
  shows "tree_holds s' m \<longleftrightarrow> tree_holds s m" "tree_can_delete k s' \<longleftrightarrow> tree_can_delete k s"
proof -
  have rev: "same_pool s s'" "tree_root s = tree_root s'" using assms by (simp_all add: same_pool_def)
  show "tree_holds s' m \<longleftrightarrow> tree_holds s m" using tree_holds_cong [OF _ assms] tree_holds_cong [OF _ rev] by blast
  show "tree_can_delete k s' \<longleftrightarrow> tree_can_delete k s"
    using holds_tree_cong [OF _ assms] holds_tree_cong [OF _ rev] unfolding tree_can_delete_def by blast
qed

lemma holds_tree_parts [simp]:
  "holds_tree (s\<lparr>wal := w\<rparr>) t \<longleftrightarrow> holds_tree s t" "holds_tree (s'\<lparr>locks := l\<rparr>) t \<longleftrightarrow> holds_tree s' t"
proof -
  have same: "same_pool (s\<lparr>wal := w\<rparr>) s" "same_pool s (s\<lparr>wal := w\<rparr>)" "same_pool (s'\<lparr>locks := l\<rparr>) s'" "same_pool s' (s'\<lparr>locks := l\<rparr>)"
    by (simp_all add: same_pool_def)
  show "holds_tree (s\<lparr>wal := w\<rparr>) t \<longleftrightarrow> holds_tree s t" using holds_tree_cong [OF _ same(1)] holds_tree_cong [OF _ same(2)] by auto
  show "holds_tree (s'\<lparr>locks := l\<rparr>) t \<longleftrightarrow> holds_tree s' t" using holds_tree_cong [OF _ same(3)] holds_tree_cong [OF _ same(4)] by auto
qed

text \<open>The root stays a leaf, and no page is added, as long as the entries fit on it.\<close>

definition keeps_leaf :: "((bytes \<times> bytes) list \<Rightarrow> (bytes \<times> bytes) list) \<Rightarrow> 'r btree_scheme \<Rightarrow> 'r btree_scheme \<Rightarrow> bool" where
  "keeps_leaf f s s' \<longleftrightarrow> (\<forall>t. holds_tree s t \<longrightarrow> leaf_stays f t s s')"

lemma keeps_leafD:
  "keeps_leaf f s s' \<Longrightarrow> holds_tree s (Leaf pid cs) \<Longrightarrow> fits leaf_tail (f cs) \<Longrightarrow>
   holds_tree s' (Leaf pid (f cs)) \<and> unat (num_pages s') \<le> unat (num_pages s)"
  by (auto simp: keeps_leaf_def leaf_stays_def)

lemma tree_wal [simp]:
  "tree_holds (s\<lparr>wal := w\<rparr>) m \<longleftrightarrow> tree_holds s m" "tree_can_delete k (s\<lparr>wal := w\<rparr>) \<longleftrightarrow> tree_can_delete k s"
  "tree_can_put k v (s\<lparr>wal := w\<rparr>) \<longleftrightarrow> tree_can_put k v s"
  by (rule same_tree; simp add: same_pool_def)+ (simp add: tree_can_put_def)

lemma tree_locks [simp]:
  "tree_holds (s\<lparr>locks := l\<rparr>) m \<longleftrightarrow> tree_holds s m" "tree_can_delete k (s\<lparr>locks := l\<rparr>) \<longleftrightarrow> tree_can_delete k s"
  "tree_can_put k v (s\<lparr>locks := l\<rparr>) \<longleftrightarrow> tree_can_put k v s"
  by (rule same_tree; simp add: same_pool_def)+ (simp add: tree_can_put_def)

lemma db_holds_locks [simp]: "db_holds (s\<lparr>locks := l\<rparr>) m rs \<longleftrightarrow> db_holds s m rs"
  by (simp add: db_holds_def)

lemma more_db:
  fixes s t :: "'a db_scheme"
  assumes "btree.more t = btree.more s"
  shows "wal t = wal s" "locks t = locks s"
  using assms by (cases s rule: db.cases_scheme, cases t rule: db.cases_scheme, simp add: btree.defs)+

text \<open>What is stored is small.\<close>

lemma tree_holds_small:
  assumes "tree_holds s m" "m k = Some v"
  shows "length k + length v \<le> 1002"
proof -
  obtain t where t: "holds_tree s t" "m = map_of (contents t)" using assms(1) by (auto simp: tree_holds_def)
  then have "(k, v) \<in> set (entries (flat t))" using assms(2) by (simp add: contents_def map_of_SomeD)
  then have "(k, Some v) \<in> set (flat t)" by (simp add: entries_in)
  then have "small_mark (k, Some v)" using t(1) by (auto simp: holds_tree_def small_tree_def)
  then show ?thesis by (simp add: small_mark_def)
qed

subsection \<open>Logging\<close>

definition entry_before :: "write_entry \<Rightarrow> bytes option" where
  "entry_before e = (if we_before_exists e then Some (we_before_val e) else None)"

definition write_entry_ok :: "write_entry \<Rightarrow> bool" where
  "write_entry_ok e \<longleftrightarrow> length (we_before_val e) < 2 ^ 32"

definition write_rec :: "transaction \<Rightarrow> bytes \<Rightarrow> write_entry \<Rightarrow> bytes \<Rightarrow> lsn \<Rightarrow> wal_record" where
  "write_rec t key e val l = \<lparr>rec_lsn = l, rec_txn_id = txn_id t, rec_type = wal_type_code WAL_WRITE, rec_key = key,
     rec_before_val = (if we_before_exists e then we_before_val e else []), rec_after_val = val,
     rec_before_exists = we_before_exists e\<rparr>"

definition mark_rec :: "WalRecordType \<Rightarrow> txn_id \<Rightarrow> lsn \<Rightarrow> wal_record" where
  "mark_rec ty i l = new_WalRecord\<lparr>rec_lsn := l, rec_txn_id := i, rec_type := wal_type_code ty\<rparr>"

text \<open>The log after a record was appended.\<close>

definition log_next :: "wal_record \<Rightarrow> log_manager \<Rightarrow> log_manager" where
  "log_next r w = w\<lparr>next_lsn := next_lsn w + 1, wal_file := wal_file w @ encode_record r\<rparr>"

lemma append_run:
  assumes "log_inv w rs" "unat (next_lsn w) + 1 < 2 ^ 63" "wal_wf r"
  shows "append_record_locked r w = (Inr (next_lsn w), log_next (r\<lparr>rec_lsn := next_lsn w\<rparr>) w)"
    "log_inv (log_next (r\<lparr>rec_lsn := next_lsn w\<rparr>) w) (rs @ [r\<lparr>rec_lsn := next_lsn w\<rparr>])"
  using append_record_run [OF assms(1,3,2)] by (simp_all add: log_next_def)

lemma log_write_run:
  assumes "log_inv (wal s) rs" "log_room s" "write_entry_ok e" "length key < 2 ^ 32" "length val < 2 ^ 32"
  shows "log_write key e val (t, s) = (Inr (), (t, s\<lparr>wal := log_next (write_rec t key e val (next_lsn (wal s))) (wal s)\<rparr>))"
    "log_inv (log_next (write_rec t key e val (next_lsn (wal s))) (wal s)) (rs @ [write_rec t key e val (next_lsn (wal s))])"
proof -
  let ?r = "new_WalRecord\<lparr>rec_txn_id := txn_id t, rec_type := wal_type_code WAL_WRITE, rec_key := key,
       rec_before_exists := we_before_exists e, rec_before_val := (if we_before_exists e then we_before_val e else []),
       rec_after_val := val\<rparr>"
  have wf: "wal_wf ?r" using assms(3-5) by (simp add: wal_wf_def write_entry_ok_def)
  have r: "?r\<lparr>rec_lsn := next_lsn (wal s)\<rparr> = write_rec t key e val (next_lsn (wal s))"
    by (simp add: write_rec_def new_WalRecord_def)
  note A = append_run [OF assms(1) assms(2) [unfolded log_room_def] wf, unfolded r]
  show "log_write key e val (t, s) = (Inr (), (t, s\<lparr>wal := log_next (write_rec t key e val (next_lsn (wal s))) (wal s)\<rparr>))"
    using A(1) by (simp add: log_write_def op_bind_def op_return_def txn_get_def op_gets_def on_db_def on_wal_def append_write_def)
  show "log_inv (log_next (write_rec t key e val (next_lsn (wal s))) (wal s)) (rs @ [write_rec t key e val (next_lsn (wal s))])"
    by (rule A(2))
qed

subsection \<open>Reading and writing\<close>

lemma on_db_run [op_simps]: "m s = (r, s') \<Longrightarrow> on_db m (t, s) = (r, (t, s'))"
  by (simp add: on_db_def)

lemma txn_get_run [op_simps]: "txn_get f (t, s) = (Inr (f t), (t, s))"
  by (simp add: txn_get_def op_gets_def)

lemma txn_set_run [op_simps]: "txn_set f (t, s) = (Inr (), (f t, s))"
  by (simp add: txn_set_def op_modify_def)

text \<open>The entry of the write set when a key is written: the first write records the value before.\<close>

definition next_entry :: "transaction \<Rightarrow> kv_map \<Rightarrow> bytes \<Rightarrow> bytes \<Rightarrow> write_entry" where
  "next_entry t m key val = (case write_set t key of
     None \<Rightarrow> \<lparr>we_before_exists = (m key \<noteq> None), we_before_val = (case m key of None \<Rightarrow> [] | Some v \<Rightarrow> v), we_after_val = val\<rparr>
   | Some e \<Rightarrow> e\<lparr>we_after_val := val\<rparr>)"

definition txn_ok :: "transaction \<Rightarrow> bool" where
  "txn_ok t \<longleftrightarrow> (\<forall>k e. write_set t k = Some e \<longrightarrow> write_entry_ok e)"

lemma next_entry_ok: "tree_holds s m \<Longrightarrow> txn_ok t \<Longrightarrow> write_entry_ok (next_entry t m key val)"
  using tree_holds_small [of s m key]
  by (fastforce simp: next_entry_def write_entry_ok_def txn_ok_def split: option.splits)

abbreviation wrote :: "transaction \<Rightarrow> bytes \<Rightarrow> write_entry \<Rightarrow> transaction" where
  "wrote t key e \<equiv> t\<lparr>write_set := (write_set t)(key \<mapsto> e)\<rparr>"

lemma put_locked_run:
  fixes s :: "'a db_scheme"
  assumes "db_holds s m rs" "log_room s" "txn_ok t" "tree_can_put key val s"
  defines "e \<equiv> next_entry t m key val"
  defines "r \<equiv> write_rec t key e val (next_lsn (wal s))"
  shows "\<exists>s'. put_locked key val (t, s) = (Inr (), (wrote t key e, s')) \<and> db_holds s' (m(key \<mapsto> val)) (rs @ [r]) \<and>
    locks s' = locks s \<and> wal s' = log_next r (wal s) \<and> keeps_leaf (put_key key val) s s'"
proof -
  have h: "tree_holds s m" "log_inv (wal s) rs" using assms(1) by (simp_all add: db_holds_def)
  obtain s1 where s1: "btree_get key s = (Inr (m key), s1)" "tree_holds s1 m" "btree.more s1 = btree.more s"
    using bt.get_law [OF h(1)] by blast
  have can1: "tree_can_put key val s1" using bt.get_put [OF h(1) assms(4), of key] s1(1) by simp
  define s2 where "s2 = (if write_set t key = None then s1 else s)"
  have s2: "tree_holds s2 m" "wal s2 = wal s" "locks s2 = locks s" "tree_can_put key val s2"
    using s1 h can1 assms(4) more_db [OF s1(3)] by (simp_all add: s2_def)
  have ok: "write_entry_ok e" unfolding e_def by (rule next_entry_ok [OF h(1) assms(3)])
  have len: "length key < 2 ^ 32" "length val < 2 ^ 32" using assms(4) by (simp_all add: tree_can_put_def)
  have room: "log_room s2" "log_inv (wal s2) rs" using assms(2) h(2) s2(2) by (simp_all add: log_room_def)
  have r2: "write_rec (wrote t key e) key e val (next_lsn (wal s2)) = r" by (simp add: r_def write_rec_def s2(2))
  note L = log_write_run [OF room(2,1) ok len, of "wrote t key e", unfolded r2]
  let ?s3 = "s2\<lparr>wal := log_next r (wal s2)\<rparr>"
  have "tree_holds ?s3 m" "tree_can_put key val ?s3" using s2 by simp_all
  from bt.ins_law [OF this] obtain s' where
    s': "btree_insert key val ?s3 = (Inr (), s')" "tree_holds s' (m(key \<mapsto> val))" "btree.more s' = btree.more ?s3" by blast
  have "put_locked key val (t, s) = (Inr (), (wrote t key e, s'))"
  proof (cases "write_set t key")
    case None
    then have "e = \<lparr>we_before_exists = (m key \<noteq> None), we_before_val = (case m key of None \<Rightarrow> [] | Some v \<Rightarrow> v), we_after_val = val\<rparr>"
      by (simp add: e_def next_entry_def)
    with None s1(1) L(1) s'(1) show ?thesis by (simp add: put_locked_def op_simps s2_def)
  next
    case (Some e0)
    then have "e = e0\<lparr>we_after_val := val\<rparr>" by (simp add: e_def next_entry_def)
    with Some L(1) s'(1) show ?thesis by (simp add: put_locked_def op_simps s2_def)
  qed
  moreover have "wal s' = log_next r (wal s)" "locks s' = locks s" using more_db [OF s'(3)] s2(2,3) by simp_all
  moreover have "keeps_leaf (put_key key val) s s'"
    unfolding keeps_leaf_def
  proof (intro allI impI)
    fix u assume u: "holds_tree s u"
    have "holds_tree s2 u \<and> unat (num_pages s2) \<le> unat (num_pages s)" using tree_get_law [OF u, of key] s1(1) u by (auto simp: s2_def)
    moreover from this have "holds_tree ?s3 u" by simp
    ultimately show "leaf_stays (put_key key val) u s s'"
      using tree_put_law [of ?s3 u key val] s2(4) s'(1) by (fastforce simp: leaf_stays_def)
  qed
  ultimately show ?thesis using s'(2) L(2) s2(2) by (auto simp: db_holds_def)
qed

lemma delete_locked_run:
  fixes s :: "'a db_scheme"
  assumes "db_holds s m rs" "log_room s" "txn_ok t" "length key < 2 ^ 32" "m key \<noteq> None \<Longrightarrow> tree_can_delete key s"
  defines "e \<equiv> next_entry t m key []"
  defines "r \<equiv> write_rec t key e [] (next_lsn (wal s))"
  shows "m key = None \<Longrightarrow> \<exists>s'. delete_locked key (t, s) = (Inr (), (t, s')) \<and> db_holds s' m rs \<and> locks s' = locks s \<and> wal s' = wal s"
    "m key \<noteq> None \<Longrightarrow> \<exists>s'. delete_locked key (t, s) = (Inr (), (wrote t key e, s')) \<and>
      db_holds s' (m(key := None)) (rs @ [r]) \<and> locks s' = locks s \<and> wal s' = log_next r (wal s)"
proof -
  have h: "tree_holds s m" "log_inv (wal s) rs" using assms(1) by (simp_all add: db_holds_def)
  obtain s1 where s1: "btree_get key s = (Inr (m key), s1)" "tree_holds s1 m" "btree.more s1 = btree.more s"
    using bt.get_law [OF h(1)] by blast
  note w1 = more_db [OF s1(3)]
  show "\<exists>s'. delete_locked key (t, s) = (Inr (), (t, s')) \<and> db_holds s' m rs \<and> locks s' = locks s \<and> wal s' = wal s" if "m key = None"
    using that s1 w1 h(2) by (simp add: delete_locked_def op_simps db_holds_def)
  assume some: "m key \<noteq> None"
  then obtain v where v: "m key = Some v" by blast
  have can: "tree_can_delete key s1" using bt.get_delete [OF h(1) assms(5) [OF some], of key] s1(1) by simp
  have ok: "write_entry_ok e" unfolding e_def by (rule next_entry_ok [OF h(1) assms(3)])
  have room: "log_room s1" "log_inv (wal s1) rs" using assms(2) h(2) w1 by (simp_all add: log_room_def)
  have r1: "write_rec (wrote t key e) key e [] (next_lsn (wal s1)) = r" by (simp add: r_def write_rec_def w1)
  have "length ([] :: bytes) < 2 ^ 32" by simp
  note L = log_write_run [OF room(2,1) ok assms(4) this, of "wrote t key e", unfolded r1]
  let ?s2 = "s1\<lparr>wal := log_next r (wal s1)\<rparr>"
  have "tree_holds ?s2 m" "tree_can_delete key ?s2" using s1 can by simp_all
  from bt.rem_law [OF this] obtain s' where
    s': "btree_remove key ?s2 = (Inr (m key \<noteq> None), s')" "tree_holds s' (m(key := None))" "btree.more s' = btree.more ?s2" by blast
  have "e = (case write_set t key of None \<Rightarrow> \<lparr>we_before_exists = True, we_before_val = v, we_after_val = []\<rparr> | Some e \<Rightarrow> e\<lparr>we_after_val := []\<rparr>)"
    using v by (simp add: e_def next_entry_def split: option.split)
  then have "delete_locked key (t, s) = (Inr (), (wrote t key e, s'))"
    using s1(1) v L(1) s'(1) by (simp add: delete_locked_def op_simps Let_def)
  then show "\<exists>s'. delete_locked key (t, s) = (Inr (), (wrote t key e, s')) \<and>
      db_holds s' (m(key := None)) (rs @ [r]) \<and> locks s' = locks s \<and> wal s' = log_next r (wal s)"
    using s'(2) L(2) w1 more_db [OF s'(3)] by (auto simp: db_holds_def)
qed

end
