(* ===== verification/Db_Txn.thy ===== *)
theory Db_Txn
  imports Db_Ops
begin

section \<open>The methods of a transaction\<close>

text \<open>
  The effect of every public method of \<open>DB\<close> and \<open>Transaction\<close> on the map, the log, the locks and
  the write set, on each of its branches: the transaction has ended, the lock is refused, the lock is
  granted.
\<close>

text \<open>What a write left in the tree, and the update that takes it back.\<close>

definition entry_after :: "write_entry \<Rightarrow> bytes option" where
  "entry_after e = (if we_after_val e = [] then None else Some (we_after_val e))"

definition entry_update :: "bytes \<Rightarrow> write_entry \<Rightarrow> kv_update" where
  "entry_update k e = (if we_before_exists e then Put_key k (we_before_val e) else Delete_key k)"

definition rollback_updates :: "bytes list \<Rightarrow> transaction \<Rightarrow> kv_update list" where
  "rollback_updates order t = map (\<lambda>k. entry_update k (the (write_set t k))) order"

definition restored :: "transaction \<Rightarrow> kv_map \<Rightarrow> kv_map" where
  "restored t m = (\<lambda>k. case write_set t k of None \<Rightarrow> m k | Some e \<Rightarrow> entry_before e)"

lemma entry_update_simps [simp]: "update_key (entry_update k e) = k" "update_val (entry_update k e) = entry_before e"
  by (simp_all add: entry_update_def entry_before_def)

lemma fold_rollback:
  assumes "set order = dom (write_set t)"
  shows "fold kv_apply (rollback_updates order t) m = restored t m"
proof
  fix k
  let ?us = "rollback_updates order t"
  have in_us: "u = entry_update (update_key u) (the (write_set t (update_key u))) \<and> update_key u \<in> dom (write_set t)" if "u \<in> set ?us" for u
    using that assms by (auto simp: rollback_updates_def)
  show "fold kv_apply ?us m k = restored t m k"
  proof (cases "find (\<lambda>u. update_key u = k) (rev ?us)")
    case None
    then have "\<forall>u \<in> set ?us. update_key u \<noteq> k" by (simp add: find_None_iff)
    then have "k \<notin> set order" by (auto simp: rollback_updates_def)
    then have "write_set t k = None" using assms by auto
    with None show ?thesis by (simp add: fold_kv_apply restored_def)
  next
    case (Some u)
    then have u: "u \<in> set ?us" "update_key u = k" using find_SomeD by fastforce+
    then obtain e where "write_set t k = Some e" "u = entry_update k e" using in_us [OF u(1)] by auto
    with Some show ?thesis by (simp add: fold_kv_apply restored_def)
  qed
qed

subsection \<open>Rolling back\<close>

lemma undo_entry_run:
  "write_set t k = Some e \<Longrightarrow> undo_entry k (t, s) = on_db (tree_step (entry_update k e)) (t, s)"
  by (simp add: undo_entry_def op_simps entry_update_def kv_step_def on_db_def op_bind_def op_return_def
      split: prod.split sum.split)

lemma undo_all_eq:
  "set order \<subseteq> dom (write_set t) \<Longrightarrow> undo_all order (t, s) = on_db (op_foreach tree_step (rollback_updates order t)) (t, s)"
proof (induction order arbitrary: s)
  case Nil
  then show ?case by (simp add: undo_all_def rollback_updates_def on_db_def op_return_def)
next
  case (Cons k order)
  then obtain e where e: "write_set t k = Some e" by auto
  obtain r s' where r: "tree_step (entry_update k e) s = (r, s')" by (cases "tree_step (entry_update k e) s")
  with Cons e undo_entry_run [OF e, of s] show ?case
    by (cases r) (simp_all add: undo_all_def rollback_updates_def on_db_def op_bind_def)
qed

lemma undo_all_run:
  assumes "tree_holds s m" "write_order order t"
    "kv_can_all btree_insert btree_remove tree_can_put tree_can_delete (rollback_updates order t) s"
  shows "\<exists>s'. undo_all order (t, s) = (Inr (), (t, s')) \<and> tree_holds s' (restored t m) \<and> btree.more s' = btree.more s"
proof -
  have o: "set order = dom (write_set t)" using assms(2) by (simp add: write_order_def)
  obtain s' where "op_foreach tree_step (rollback_updates order t) s = (Inr (), s')" "tree_holds s' (restored t m)"
    "btree.more s' = btree.more s"
    using bt.updates_law [OF assms(1,3)] fold_rollback [OF o] by auto
  then show ?thesis using undo_all_eq [of order t s] o by (simp add: on_db_def)
qed

abbreviation ended :: "transaction \<Rightarrow> transaction" where
  "ended t \<equiv> t\<lparr>txn_done := True\<rparr>"

lemma check_open_run: "check_open (t, s) = (if txn_done t then (Inl Runtime_error, (t, s)) else (Inr (), (t, s)))"
  by (simp add: check_open_def op_simps op_throw_def)

text \<open>A record that ends a transaction is always well-formed.\<close>

lemma mark_run:
  fixes i :: txn_id
  assumes "log_inv (wal s) rs" "log_room s" "ty \<noteq> WAL_INVALID"
  defines "r \<equiv> mark_rec ty i (next_lsn (wal s))"
  shows "on_wal (append_record_locked (new_WalRecord\<lparr>rec_txn_id := i, rec_type := wal_type_code ty\<rparr>)) s =
      (Inr (next_lsn (wal s)), s\<lparr>wal := log_next r (wal s)\<rparr>)" (is ?run)
    "log_inv (log_next r (wal s)) (rs @ [r])" (is ?inv)
proof -
  let ?r = "new_WalRecord\<lparr>rec_txn_id := i, rec_type := wal_type_code ty\<rparr>"
  have "wal_wf ?r" using assms(3) by (cases ty) (simp_all add: wal_wf_def new_WalRecord_def)
  note A = append_run [OF assms(1) assms(2) [unfolded log_room_def] this]
  moreover have "?r\<lparr>rec_lsn := next_lsn (wal s)\<rparr> = r" by (simp add: r_def mark_rec_def new_WalRecord_def)
  ultimately show ?run ?inv by (simp_all add: on_wal_def)
qed

lemma Txn_Rollback_run:
  fixes s :: "'a db_scheme"
  assumes "db_holds s m rs" "log_room s" "\<not> txn_done t" "write_order order t"
    "kv_can_all btree_insert btree_remove tree_can_put tree_can_delete (rollback_updates order t) s"
  defines "r \<equiv> mark_rec WAL_ABORT (txn_id t) (next_lsn (wal s))"
  shows "\<exists>s'. Txn_Rollback order (t, s) = (Inr (), (ended t, s')) \<and> db_holds s' (restored t m) (rs @ [r]) \<and>
    locks s' = release_all (txn_id t) (locks s) \<and> wal s' = log_next r (wal s)"
proof -
  have h: "tree_holds s m" "log_inv (wal s) rs" using assms(1) by (simp_all add: db_holds_def)
  have t: "rollback_updates order (ended t) = rollback_updates order t" "restored (ended t) = restored t"
    "write_order order (ended t) = write_order order t"
    by (simp_all add: rollback_updates_def restored_def write_order_def fun_eq_iff)
  obtain s1 where s1: "undo_all order (ended t, s) = (Inr (), (ended t, s1))" "tree_holds s1 (restored t m)" "btree.more s1 = btree.more s"
    using undo_all_run [OF h(1), of order "ended t"] assms(4,5) t by auto
  note w = more_db [OF s1(3)]
  have "log_inv (wal s1) rs" "log_room s1" using h(2) assms(2) w by (simp_all add: log_room_def)
  note A = mark_run [OF this, of WAL_ABORT "txn_id t", folded append_abort_def]
  have r: "mark_rec WAL_ABORT (txn_id t) (next_lsn (wal s1)) = r" by (simp add: r_def w)
  let ?s = "s1\<lparr>wal := log_next r (wal s1), locks := release_all (txn_id t) (locks s1)\<rparr>"
  have "Txn_Rollback order (t, s) = (Inr (), (ended t, ?s))"
    using assms(3) s1(1) A(1) r by (simp add: Txn_Rollback_def op_simps check_open_run txn_release_def op_modify_def)
  moreover have "db_holds ?s (restored t m) (rs @ [r])" using s1(2) A(2) r by (simp add: db_holds_def)
  ultimately show ?thesis using w by auto
qed

subsection \<open>Committing\<close>

lemma wal_flush_run: "wal_faults w = [] \<Longrightarrow> wal_flush w = (Inr (), w)"
  by (simp add: wal_flush_def wal_io_def op_defs)

lemma flush_tree_run:
  fixes s :: "'a engine_scheme"
  assumes "tree_holds s m"
  shows "\<exists>s'. flush_all s = (Inr (), s') \<and> dm_flush s' = (Inr (), s') \<and> tree_holds s' m \<and> on_disk s' \<and> num_pages s' = num_pages s \<and>
    btree.more s' = btree.more s"
proof -
  obtain t where t: "holds_tree s t" "m = map_of (contents t)" using assms by (auto simp: tree_holds_def)
  obtain s' where s': "flush_all s = (Inr (), s')" "holds_tree s' t" "on_disk s'" "num_pages s' = num_pages s" "btree.more s' = btree.more s"
    using tree_flush_law [OF t(1)] by blast
  then show ?thesis using dm_flush_run [OF holds_tree_io [OF s'(2)]] t(2) by (auto simp: tree_holds_def)
qed

lemma on_disk_wal [simp]: "on_disk (s\<lparr>wal := w\<rparr>) = on_disk s"
  and on_disk_locks [simp]: "on_disk (s'\<lparr>locks := l\<rparr>) = on_disk s'"
proof -
  have "same_pool (s\<lparr>wal := w\<rparr>) s" "same_pool (s'\<lparr>locks := l\<rparr>) s'" by (simp_all add: same_pool_def)
  note S = this [THEN same_poolD(2)] this [THEN same_poolD(3)] this [THEN same_pool_header]
  have "disk_page (s\<lparr>wal := w\<rparr>) = disk_page s" "disk_page (s'\<lparr>locks := l\<rparr>) = disk_page s'"
    by (simp_all add: disk_page_def fun_eq_iff)
  with S show "on_disk (s\<lparr>wal := w\<rparr>) = on_disk s" "on_disk (s'\<lparr>locks := l\<rparr>) = on_disk s'"
    by (simp_all add: on_disk_def)
qed

lemma Txn_Commit_run:
  fixes s :: "'a db_scheme"
  assumes "db_holds s m rs" "log_room s" "\<not> txn_done t"
  defines "r \<equiv> mark_rec WAL_COMMIT (txn_id t) (next_lsn (wal s))"
  shows "\<exists>s'. Txn_Commit (t, s) = (Inr (), (ended t, s')) \<and> db_holds s' m (rs @ [r]) \<and> on_disk s' \<and> num_pages s' = num_pages s \<and>
    locks s' = release_all (txn_id t) (locks s) \<and> wal s' = log_next r (wal s)"
proof -
  have h: "tree_holds s m" "log_inv (wal s) rs" using assms(1) by (simp_all add: db_holds_def)
  note A = mark_run [OF h(2) assms(2), of WAL_COMMIT "txn_id t", folded append_commit_def r_def]
  let ?s1 = "s\<lparr>wal := log_next r (wal s)\<rparr>"
  have "wal_faults (log_next r (wal s)) = []" using A(2) by (simp add: log_inv_def)
  then have f: "on_wal wal_flush ?s1 = (Inr (), ?s1)" using wal_flush_run by (simp add: on_wal_def)
  have "tree_holds ?s1 m" using h(1) by simp
  from flush_tree_run [OF this] obtain s2 where s2: "flush_all ?s1 = (Inr (), s2)" "dm_flush s2 = (Inr (), s2)"
    "tree_holds s2 m" "on_disk s2" "btree.more s2 = btree.more ?s1" "num_pages s2 = num_pages ?s1" by blast
  note w = more_db [OF s2(5)]
  let ?s = "s2\<lparr>locks := release_all (txn_id t) (locks s2)\<rparr>"
  have "Txn_Commit (t, s) = (Inr (), (ended t, ?s))"
    using assms(3) A(1) f s2(1,2) by (simp add: Txn_Commit_def op_simps check_open_run txn_release_def op_modify_def)
  moreover have "db_holds ?s m (rs @ [r])" using s2(3) A(2) w by (simp add: db_holds_def)
  ultimately show ?thesis using w s2(4,6) by auto
qed

subsection \<open>Reading and writing under locks\<close>

lemma txn_lock_run:
  "lock_attempt (txn_id t) key mode (locks s) = (granted, l) \<Longrightarrow>
   txn_lock key mode (t, s) = (if granted then (Inr (), (t, s\<lparr>locks := l\<rparr>)) else (Inl Deadlock_exception, (t, s\<lparr>locks := lock_timeout key l\<rparr>)))"
  by (simp add: txn_lock_def)

text \<open>A refused lock: the methods throw, and only the lock table may differ.\<close>

lemma refused:
  assumes "lock_attempt (txn_id t) key mode (locks s) = (False, l)" "\<not> txn_done t"
  defines "out \<equiv> (t, s\<lparr>locks := lock_timeout key l\<rparr>)"
  shows "mode = SHARED \<Longrightarrow> Txn_Get key (t, s) = (Inl Deadlock_exception, out)"
    "mode = EXCLUSIVE \<Longrightarrow> Txn_Put key val (t, s) = (Inl Deadlock_exception, out)"
    "mode = EXCLUSIVE \<Longrightarrow> Txn_Delete key (t, s) = (Inl Deadlock_exception, out)"
  using assms txn_lock_run [of t key mode s False l]
  by (auto simp: Txn_Get_def Txn_Put_def Txn_Delete_def op_bind_def check_open_run)

lemma log_room_locks [simp]: "log_room (s\<lparr>locks := l\<rparr>) = log_room s"
  by (simp add: log_room_def)

lemma Txn_Get_run:
  fixes s :: "'a db_scheme"
  assumes "db_holds s m rs" "\<not> txn_done t" "lock_attempt (txn_id t) key SHARED (locks s) = (True, l)"
  shows "\<exists>s'. Txn_Get key (t, s) = (Inr (m key), (t, s')) \<and> db_holds s' m rs \<and> locks s' = l \<and> wal s' = wal s"
proof -
  let ?s = "s\<lparr>locks := l\<rparr>"
  have h: "tree_holds ?s m" "log_inv (wal s) rs" using assms(1) by (simp_all add: db_holds_def)
  obtain s1 where s1: "btree_get key ?s = (Inr (m key), s1)" "tree_holds s1 m" "btree.more s1 = btree.more ?s"
    using bt.get_law [OF h(1)] by blast
  have "Txn_Get key (t, s) = (Inr (m key), (t, s1))"
    using assms(2,3) s1(1) by (simp add: Txn_Get_def op_simps check_open_run txn_lock_run get_locked_def)
  then show ?thesis using s1(2) h(2) more_db [OF s1(3)] by (simp add: db_holds_def)
qed

lemma Txn_Put_run:
  fixes s :: "'a db_scheme"
  assumes "db_holds s m rs" "log_room s" "txn_ok t" "\<not> txn_done t" "tree_can_put key val s"
    "lock_attempt (txn_id t) key EXCLUSIVE (locks s) = (True, l)"
  defines "e \<equiv> next_entry t m key val"
  defines "r \<equiv> write_rec t key e val (next_lsn (wal s))"
  shows "\<exists>s'. Txn_Put key val (t, s) = (Inr (), (wrote t key e, s')) \<and> db_holds s' (m(key \<mapsto> val)) (rs @ [r]) \<and>
    locks s' = l \<and> wal s' = log_next r (wal s) \<and> keeps_leaf (put_key key val) s s'"
proof -
  let ?s = "s\<lparr>locks := l\<rparr>"
  have "db_holds ?s m rs" "log_room ?s" "tree_can_put key val ?s" using assms(1,2,5) by simp_all
  from put_locked_run [OF this(1,2) assms(3) this(3)] obtain s1 where
    s1: "put_locked key val (t, ?s) = (Inr (), (wrote t key e, s1))" "db_holds s1 (m(key \<mapsto> val)) (rs @ [r])"
    "locks s1 = l" "wal s1 = log_next r (wal s)"
    "keeps_leaf (put_key key val) s s1"
    by (auto simp: e_def r_def keeps_leaf_def leaf_stays_def)
  have "Txn_Put key val (t, s) = (Inr (), (wrote t key e, s1))"
    using assms(4,6) s1(1) by (simp add: Txn_Put_def op_simps check_open_run txn_lock_run)
  with s1(2-) show ?thesis by blast
qed

lemma Txn_Delete_run:
  fixes s :: "'a db_scheme"
  assumes "db_holds s m rs" "log_room s" "txn_ok t" "\<not> txn_done t" "length key < 2 ^ 32" "m key \<noteq> None \<Longrightarrow> tree_can_delete key s"
    "lock_attempt (txn_id t) key EXCLUSIVE (locks s) = (True, l)"
  defines "e \<equiv> next_entry t m key []"
  defines "r \<equiv> write_rec t key e [] (next_lsn (wal s))"
  shows "m key = None \<Longrightarrow> \<exists>s'. Txn_Delete key (t, s) = (Inr (), (t, s')) \<and> db_holds s' m rs \<and> locks s' = l \<and> wal s' = wal s"
    "m key \<noteq> None \<Longrightarrow> \<exists>s'. Txn_Delete key (t, s) = (Inr (), (wrote t key e, s')) \<and>
      db_holds s' (m(key := None)) (rs @ [r]) \<and> locks s' = l \<and> wal s' = log_next r (wal s)"
proof -
  let ?s = "s\<lparr>locks := l\<rparr>"
  have h: "db_holds ?s m rs" "log_room ?s" "m key \<noteq> None \<Longrightarrow> tree_can_delete key ?s" using assms(1,2,6) by simp_all
  have run: "Txn_Delete key (t, s) = delete_locked key (t, ?s)"
    using assms(4,7) by (simp add: Txn_Delete_def op_simps check_open_run txn_lock_run)
  note D = delete_locked_run [OF h(1,2) assms(3,5) h(3)]
  show "m key = None \<Longrightarrow> \<exists>s'. Txn_Delete key (t, s) = (Inr (), (t, s')) \<and> db_holds s' m rs \<and> locks s' = l \<and> wal s' = wal s"
    using D(1) run by auto
  show "m key \<noteq> None \<Longrightarrow> \<exists>s'. Txn_Delete key (t, s) = (Inr (), (wrote t key e, s')) \<and>
      db_holds s' (m(key := None)) (rs @ [r]) \<and> locks s' = l \<and> wal s' = log_next r (wal s)"
    using D(2) run by (auto simp: e_def r_def)
qed

subsection \<open>Beginning and ending\<close>

lemma DB_Begin_run:
  fixes s :: "'a db_scheme"
  assumes "db_holds s m rs" "log_room s"
  defines "i \<equiv> next_txn_id (wal s)"
  defines "r \<equiv> mark_rec WAL_BEGIN i (next_lsn (wal s))"
  defines "s' \<equiv> s\<lparr>wal := log_next r (wal s)\<lparr>next_txn_id := i + 1\<rparr>\<rparr>"
  shows "DB_Begin s = (Inr \<lparr>txn_id = i, txn_done = False, write_set = Map.empty\<rparr>, s')" "db_holds s' m (rs @ [r])"
proof -
  have h: "tree_holds s m" "log_inv (wal s) rs" using assms(1) by (simp_all add: db_holds_def)
  let ?w = "wal s\<lparr>next_txn_id := i + 1\<rparr>" and ?r = "new_WalRecord\<lparr>rec_txn_id := i, rec_type := wal_type_code WAL_BEGIN\<rparr>"
  have w: "log_inv ?w rs" "unat (next_lsn ?w) + 1 < 2 ^ 63" using h(2) assms(2) by (simp_all add: log_inv_def log_room_def)
  have "wal_wf ?r" by (simp add: wal_wf_def new_WalRecord_def)
  note A = append_run [OF w this]
  have r: "?r\<lparr>rec_lsn := next_lsn ?w\<rparr> = r" by (simp add: r_def mark_rec_def new_WalRecord_def)
  have n: "log_next r ?w = log_next r (wal s)\<lparr>next_txn_id := i + 1\<rparr>" by (simp add: log_next_def)
  show "DB_Begin s = (Inr \<lparr>txn_id = i, txn_done = False, write_set = Map.empty\<rparr>, s')"
    using A(1) r n by (simp add: DB_Begin_def begin_txn_def on_wal_def op_bind_def op_gets_def op_modify_def op_return_def i_def [symmetric] s'_def)
  show "db_holds s' m (rs @ [r])" using h(1) A(2) r n by (simp add: db_holds_def s'_def)
qed

lemma ended_throws:
  assumes "txn_done t"
  shows "Txn_Get key (t, s) = (Inl Runtime_error, (t, s))" "Txn_Put key val (t, s) = (Inl Runtime_error, (t, s))"
    "Txn_Delete key (t, s) = (Inl Runtime_error, (t, s))" "Txn_Commit (t, s) = (Inl Runtime_error, (t, s))"
    "Txn_Rollback order (t, s) = (Inl Runtime_error, (t, s))" "Txn_destroy order (t, s) = (Inr (), (t, s))"
  using assms by (simp_all add: Txn_Get_def Txn_Put_def Txn_Delete_def Txn_Commit_def Txn_Rollback_def Txn_destroy_def
      op_bind_def check_open_run txn_get_run op_return_def)

end
