(* ===== verification/Db_System.thy ===== *)
theory Db_System
  imports Db_Txn Transition_System
begin

section \<open>Concurrent transactions on one database\<close>

text \<open>
  The database with its open transactions as a transition system. A step is one call of a public
  method by one of them; methods of different transactions interleave in any order. The third
  component of a state is the specification: the map of the transactions that have committed, which
  changes in no other way. Steps stay within the limits under which the tree is right (\<open>tree_can_put\<close>,
  \<open>tree_can_delete\<close>), within the log's numbers, and put no empty value, which the log cannot tell from
  a deletion. A refused lock, which throws \<open>DeadlockException\<close>, is a step like any other.

  The invariant says that strict two-phase locking works: what a transaction wrote is under its
  exclusive lock, its before images are the committed values, the tree holds the committed map with the
  writes of the open transactions on top, and the log tells this history.
\<close>

type_synonym db_system = "db \<times> (txn_id \<rightharpoonup> transaction) \<times> kv_map"

definition committed_by :: "transaction \<Rightarrow> kv_map \<Rightarrow> kv_map" where
  "committed_by t m = (\<lambda>k. case write_set t k of None \<Rightarrow> m k | Some e \<Rightarrow> entry_after e)"

inductive db_step :: "db_system \<Rightarrow> db_system \<Rightarrow> bool" where
  Step_Begin: "log_room s \<Longrightarrow> unat (next_txn_id (wal s)) + 1 < 2 ^ 63 \<Longrightarrow> DB_Begin s = (Inr t, s') \<Longrightarrow>
    db_step (s, T, m) (s', T(txn_id t \<mapsto> t), m)"
| Step_Get: "T i = Some t \<Longrightarrow> Txn_Get key (t, s) = (r, (t', s')) \<Longrightarrow> db_step (s, T, m) (s', T(i \<mapsto> t'), m)"
| Step_Put: "T i = Some t \<Longrightarrow> log_room s \<Longrightarrow> tree_can_put key val s \<Longrightarrow> val \<noteq> [] \<Longrightarrow>
    Txn_Put key val (t, s) = (r, (t', s')) \<Longrightarrow> db_step (s, T, m) (s', T(i \<mapsto> t'), m)"
| Step_Delete: "T i = Some t \<Longrightarrow> log_room s \<Longrightarrow> length key < 2 ^ 32 \<Longrightarrow>
    fst (btree_get key s) \<noteq> Inr None \<longrightarrow> tree_can_delete key s \<Longrightarrow>
    Txn_Delete key (t, s) = (r, (t', s')) \<Longrightarrow> db_step (s, T, m) (s', T(i \<mapsto> t'), m)"
| Step_Commit: "T i = Some t \<Longrightarrow> log_room s \<Longrightarrow> Txn_Commit (t, s) = (r, (t', s')) \<Longrightarrow>
    db_step (s, T, m) (s', T(i := None), committed_by t m)"
| Step_Rollback: "T i = Some t \<Longrightarrow> log_room s \<Longrightarrow> write_order order t \<Longrightarrow>
    kv_can_all btree_insert btree_remove tree_can_put tree_can_delete (rollback_updates order t) s \<Longrightarrow>
    Txn_Rollback order (t, s) = (r, (t', s')) \<Longrightarrow> db_step (s, T, m) (s', T(i := None), m)"

inductive_cases db_stepE: "db_step (s, T, m) S"

text \<open>A database just opened: the log is empty and no lock is held.\<close>

definition values_ok :: "kv_map \<Rightarrow> bool" where
  "values_ok m \<longleftrightarrow> (\<forall>k v. m k = Some v \<longrightarrow> v \<noteq> [])"

definition db_init :: "kv_map \<Rightarrow> db_system \<Rightarrow> bool" where
  "db_init m0 S \<longleftrightarrow> (case S of (s, T, m) \<Rightarrow> T = Map.empty \<and> m = m0 \<and> values_ok m0 \<and> db_holds s m0 [] \<and>
     locks s = LockManager_new \<and> unat (next_txn_id (wal s)) < 2 ^ 63)"

interpretation dbs: transition_system "db_init m0" db_step for m0 .

subsection \<open>The invariant\<close>

definition written_by :: "(txn_id \<rightharpoonup> transaction) \<Rightarrow> running" where
  "written_by T = (\<lambda>i. map_option (\<lambda>t k. map_option entry_after (write_set t k)) (T i))"

definition txn_inv :: "lock_manager \<Rightarrow> kv_map \<Rightarrow> kv_map \<Rightarrow> txn_id \<Rightarrow> transaction \<Rightarrow> bool" where
  "txn_inv l cur m i t \<longleftrightarrow> txn_id t = i \<and> \<not> txn_done t \<and> i \<noteq> INVALID_TXN_ID \<and> txn_ok t \<and>
     (\<forall>k e. write_set t k = Some e \<longrightarrow> held l i k = Some EXCLUSIVE \<and> entry_before e = m k \<and> cur k = entry_after e)"

definition log_ok :: "kv_map \<Rightarrow> wal_record list \<Rightarrow> kv_map \<Rightarrow> (txn_id \<rightharpoonup> transaction) \<Rightarrow> txn_id \<Rightarrow> bool" where
  "log_ok m0 rs m T n \<longleftrightarrow> logged m0 rs m (written_by T) \<and> (\<forall>r \<in> set rs. stored r = r \<and> unat (rec_txn_id r) < unat n) \<and>
     (\<forall>i \<in> dom T. unat i < unat n) \<and> unat n < 2 ^ 63"

definition sys_inv :: "kv_map \<Rightarrow> 'a db_scheme \<Rightarrow> (txn_id \<rightharpoonup> transaction) \<Rightarrow> kv_map \<Rightarrow> kv_map \<Rightarrow> wal_record list \<Rightarrow> bool" where
  "sys_inv m0 s T m cur rs \<longleftrightarrow> db_holds s cur rs \<and> log_ok m0 rs m T (next_txn_id (wal s)) \<and> lm_ok (locks s) \<and>
     (\<forall>i t. T i = Some t \<longrightarrow> txn_inv (locks s) cur m i t) \<and>
     (\<forall>k. (\<forall>i t. T i = Some t \<longrightarrow> write_set t k = None) \<longrightarrow> cur k = m k) \<and> values_ok m"

lemma sys_invD:
  assumes "sys_inv m0 s T m cur rs"
  shows "db_holds s cur rs" "log_ok m0 rs m T (next_txn_id (wal s))" "lm_ok (locks s)"
    "T i = Some t \<Longrightarrow> txn_inv (locks s) cur m i t" "(\<And>i t. T i = Some t \<Longrightarrow> write_set t k = None) \<Longrightarrow> cur k = m k" "values_ok m"
  using assms unfolding sys_inv_def by blast+

lemma txn_invD:
  assumes "txn_inv l cur m i t"
  shows "txn_id t = i" "\<not> txn_done t" "i \<noteq> INVALID_TXN_ID" "txn_ok t" "write_set t k = Some e \<Longrightarrow> held l i k = Some EXCLUSIVE"
    "write_set t k = Some e \<Longrightarrow> entry_before e = m k" "write_set t k = Some e \<Longrightarrow> cur k = entry_after e"
  using assms unfolding txn_inv_def by blast+

lemma held_exclusive_unique: "held l i k = Some EXCLUSIVE \<Longrightarrow> held l j k = Some EXCLUSIVE \<Longrightarrow> i = j"
  by (auto simp: held_def mode_of_def split: option.splits if_splits)

text \<open>No two transactions have written the same key.\<close>

lemma writes_disjoint:
  assumes "sys_inv m0 s T m cur rs" "T i = Some t" "T j = Some u" "write_set t k \<noteq> None" "write_set u k \<noteq> None"
  shows "i = j"
  using assms held_exclusive_unique [of "locks s" i k j] txn_invD(5) [OF sys_invD(4) [OF assms(1)]] by blast

lemma written_by_upd [simp]:
  "written_by (T(i \<mapsto> t)) = (written_by T)(i \<mapsto> (\<lambda>k. map_option entry_after (write_set t k)))"
  "written_by (T(i := None)) = (written_by T)(i := None)" "written_by Map.empty = Map.empty"
  by (auto simp: written_by_def)

subsection \<open>Steps that change locks only\<close>

text \<open>Locks that were held exclusively still are.\<close>

definition keeps_locks :: "lock_manager \<Rightarrow> lock_manager \<Rightarrow> bool" where
  "keeps_locks l l' \<longleftrightarrow> lm_ok l' \<and> (\<forall>i k. i \<noteq> INVALID_TXN_ID \<longrightarrow> held l i k = Some EXCLUSIVE \<longrightarrow> held l' i k = Some EXCLUSIVE)"

lemma attempt_keeps:
  assumes "lm_ok l" "i \<noteq> INVALID_TXN_ID" "lock_attempt i key mode l = (granted, l')"
  shows "keeps_locks l l'" "keeps_locks l (lock_timeout key l')"
proof -
  note A = lock_attempt_run [OF assms]
  show *: "keeps_locks l l'" using A(1,3) by (auto simp: keeps_locks_def stronger_def)
  then show "keeps_locks l (lock_timeout key l')" using lock_timeout_run [OF A(1)] by (simp add: keeps_locks_def)
qed

lemma txn_inv_locks: "txn_inv l cur m i t \<Longrightarrow> keeps_locks l l' \<Longrightarrow> txn_inv l' cur m i t"
  by (simp add: txn_inv_def keeps_locks_def)

lemma sys_inv_locks:
  assumes "sys_inv m0 s T m cur rs" "db_holds s' cur rs" "wal s' = wal s" "keeps_locks (locks s) (locks s')"
  shows "sys_inv m0 s' T m cur rs"
  using assms txn_inv_locks [of "locks s"] unfolding sys_inv_def keeps_locks_def by auto

subsection \<open>Writes\<close>

lemma next_entry_simps [simp]: "we_after_val (next_entry t cur key val) = val"
  "entry_before (next_entry t cur key val) = (case write_set t key of None \<Rightarrow> cur key | Some e \<Rightarrow> entry_before e)"
  by (auto simp: next_entry_def entry_before_def split: option.split)

text \<open>A granted exclusive lock: no other transaction has written the key, and the value before is the
  committed one.\<close>

lemma exclusive_granted:
  assumes "sys_inv m0 s T m cur rs" "T i = Some t" "lock_attempt i key EXCLUSIVE (locks s) = (True, l)"
  shows "T j = Some u \<Longrightarrow> j \<noteq> i \<Longrightarrow> write_set u key = None" "entry_before (next_entry t cur key val) = m key"
    "held l i key = Some EXCLUSIVE"
proof -
  note I = sys_invD [OF assms(1)] and Ti = txn_invD [OF sys_invD(4) [OF assms(1,2)]]
  note A = lock_attempt_run [OF I(3) Ti(3) assms(3)]
  show other: "write_set u key = None" if "T j = Some u" "j \<noteq> i" for j u
  proof (rule ccontr)
    assume "write_set u key \<noteq> None"
    then have "held (locks s) j key = Some EXCLUSIVE" "j \<noteq> INVALID_TXN_ID" using txn_invD(3,5) [OF I(4) [OF that(1)]] by auto
    with A(2) that(2) show False by (auto simp: compatible_def)
  qed
  show "held l i key = Some EXCLUSIVE" using A(3) [OF Ti(3), of key] by (simp add: stronger_def)
  show "entry_before (next_entry t cur key val) = m key"
  proof (cases "write_set t key")
    case None
    then have "cur key = m key" using other assms(2) by (intro I(5)) (metis option.inject)
    with None show ?thesis by simp
  next
    case (Some e)
    then show ?thesis using Ti(6) by simp
  qed
qed

lemma write_rec_images:
  "has_type WAL_WRITE (write_rec t key e val l)" "rec_txn_id (write_rec t key e val l) = txn_id t"
  "rec_key (write_rec t key e val l) = key" "before_image (write_rec t key e val l) = entry_before e"
  "we_after_val e = val \<Longrightarrow> after_image (write_rec t key e val l) = entry_after e"
  "(\<And>v. entry_before e = Some v \<Longrightarrow> v \<noteq> []) \<Longrightarrow> stored (write_rec t key e val l) = write_rec t key e val l"
  by (auto simp: write_rec_def has_type_def before_image_def after_image_def entry_before_def entry_after_def stored_def)

lemma log_ok_write:
  fixes val :: bytes
  assumes inv: "sys_inv m0 s T m cur rs" and T: "T i = Some t" and lock: "lock_attempt i key EXCLUSIVE (locks s) = (True, l)"
  defines "e \<equiv> next_entry t cur key val"
  shows "log_ok m0 (rs @ [write_rec t key e val n]) m (T(i \<mapsto> wrote t key e)) (next_txn_id (wal s))"
proof -
  note X = exclusive_granted [OF inv T lock] and L = sys_invD(2) [OF inv, unfolded log_ok_def]
  let ?r = "write_rec t key e val n"
  have i: "txn_id t = i" using txn_invD(1) [OF sys_invD(4) [OF inv T]] .
  have st: "stored ?r = ?r" using X(2) [of val] sys_invD(6) [OF inv] by (intro write_rec_images(6)) (auto simp: values_ok_def e_def)
  have w: "written_by T i = Some (\<lambda>k. map_option entry_after (write_set t k))" using T by (simp add: written_by_def)
  have "logged m0 (rs @ [?r]) m ((written_by T)(rec_txn_id ?r \<mapsto> (\<lambda>k. map_option entry_after (write_set t k))(rec_key ?r \<mapsto> after_image ?r)))"
  proof (rule logged_write)
    show "w' (rec_key ?r) = None" if "j \<noteq> rec_txn_id ?r" "written_by T j = Some w'" for j w'
      using that X(1) [of j] i by (auto simp: written_by_def write_rec_images)
  qed (use L w X(2) [of val] i in \<open>auto simp: write_rec_images e_def\<close>)
  moreover have "(\<lambda>k. map_option entry_after (write_set t k))(key \<mapsto> after_image ?r) =
      (\<lambda>k. map_option entry_after (write_set (wrote t key e) k))"
    by (auto simp: write_rec_images(5) e_def fun_eq_iff)
  ultimately have "logged m0 (rs @ [?r]) m (written_by (T(i \<mapsto> wrote t key e)))" using i by (simp add: write_rec_images)
  moreover have "unat i < unat (next_txn_id (wal s))" using L T by blast
  ultimately show ?thesis using L st i by (auto simp: log_ok_def write_rec_images)
qed

lemma sys_inv_write:
  fixes val :: bytes
  assumes inv: "sys_inv m0 s T m cur rs" and T: "T i = Some t" and lock: "lock_attempt i key EXCLUSIVE (locks s) = (True, l)"
  defines "e \<equiv> next_entry t cur key val"
  defines "cur' \<equiv> cur(key := entry_after e)"
  assumes s': "db_holds s' cur' (rs @ [write_rec t key e val n])" "locks s' = l" "wal s' = log_next r (wal s)"
  shows "sys_inv m0 s' (T(i \<mapsto> wrote t key e)) m cur' (rs @ [write_rec t key e val n])"
proof -
  note I = sys_invD [OF inv] and Ti = txn_invD [OF sys_invD(4) [OF inv T]] and X = exclusive_granted [OF inv T lock]
  note K = attempt_keeps(1) [OF I(3) Ti(3) lock]
  have "txn_ok (wrote t key e)"
    using Ti(4) next_entry_ok [of s cur t key val] I(1) by (auto simp: txn_ok_def e_def db_holds_def)
  then have "txn_inv l cur' m i (wrote t key e)"
    using txn_inv_locks [OF I(4) [OF T] K] X(2,3) by (auto simp: txn_inv_def cur'_def e_def)
  moreover have "txn_inv l cur' m j u" if "T j = Some u" "j \<noteq> i" for j u
    using txn_inv_locks [OF I(4) [OF that(1)] K] X(1) [OF that] by (auto simp: txn_inv_def cur'_def)
  moreover have "cur' k = m k" if none: "\<And>j u. (T(i \<mapsto> wrote t key e)) j = Some u \<Longrightarrow> write_set u k = None" for k
  proof -
    have k: "k \<noteq> key" "write_set t k = None" using none [of i "wrote t key e"] by (auto split: if_splits)
    have "cur k = m k" using none k(2) T by (intro I(5)) (metis fun_upd_other option.inject)
    with k(1) show ?thesis by (simp add: cur'_def)
  qed
  moreover have "next_txn_id (wal s') = next_txn_id (wal s)" using s'(3) by (simp add: log_next_def)
  ultimately show ?thesis
    unfolding sys_inv_def using log_ok_write [OF inv T lock, of val n] s' K I(6) by (auto simp: e_def keeps_locks_def)
qed

subsection \<open>Beginning and ending\<close>

lemma mark_rec_simps:
  "has_type ty (mark_rec ty i l)" "rec_txn_id (mark_rec ty i l) = i" "stored (mark_rec ty i l) = mark_rec ty i l"
  by (simp_all add: mark_rec_def has_type_def stored_def new_WalRecord_def)

lemma sys_inv_begin:
  assumes inv: "sys_inv m0 s T m cur rs" and room: "unat (next_txn_id (wal s)) + 1 < 2 ^ 63"
  defines "i \<equiv> next_txn_id (wal s)"
  assumes s': "db_holds s' cur (rs @ [mark_rec WAL_BEGIN i l])" "locks s' = locks s" "next_txn_id (wal s') = i + 1"
  shows "sys_inv m0 s' (T(i \<mapsto> \<lparr>txn_id = i, txn_done = False, write_set = Map.empty\<rparr>)) m cur (rs @ [mark_rec WAL_BEGIN i l])"
proof -
  note I = sys_invD [OF inv] and L = sys_invD(2) [OF inv, unfolded log_ok_def]
  have n: "unat (i + 1) = unat i + 1" "unat i + 1 < 2 ^ 63" using room by (simp_all add: unat_inc64 i_def)
  have "i \<notin> rec_txn_id ` set rs" using L by (auto simp: i_def)
  then have "logged m0 (rs @ [mark_rec WAL_BEGIN i l]) m ((written_by T)(i \<mapsto> Map.empty))"
    using logged_begin [of m0 rs m "written_by T" "mark_rec WAL_BEGIN i l"] L by (simp add: mark_rec_simps)
  then have "log_ok m0 (rs @ [mark_rec WAL_BEGIN i l]) m (T(i \<mapsto> \<lparr>txn_id = i, txn_done = False, write_set = Map.empty\<rparr>)) (i + 1)"
    using L n by (auto simp: log_ok_def mark_rec_simps i_def less_Suc_eq)
  moreover have "i \<noteq> INVALID_TXN_ID" using n(2) by (auto simp: INVALID_TXN_ID_def unsigned_minus_1_eq_mask mask_eq_exp_minus_1)
  moreover have "T i = None" using L by (auto simp: i_def)
  then have "T j = Some u \<Longrightarrow> j \<noteq> i" for j u by auto
  then have "cur k = m k" if none: "\<And>j u. (T(i \<mapsto> \<lparr>txn_id = i, txn_done = False, write_set = Map.empty\<rparr>)) j = Some u \<Longrightarrow> write_set u k = None" for k
    using none by (intro I(5)) (metis fun_upd_other)
  ultimately show ?thesis unfolding sys_inv_def using s' I(3,4,6) by (auto simp: txn_inv_def txn_ok_def)
qed

text \<open>What is left when a transaction ends and gives its locks back.\<close>

lemma others_end:
  assumes inv: "sys_inv m0 s T m cur rs" and T: "T i = Some t"
    and same: "\<And>k. write_set t k = None \<Longrightarrow> m' k = m k \<and> cur' k = cur k"
    and j: "(T(i := None)) j = Some u"
  shows "txn_inv (release_all i (locks s)) cur' m' j u"
proof -
  have u: "T j = Some u" "j \<noteq> i" using j by (auto split: if_splits)
  note I = sys_invD [OF inv] and Ti = txn_invD [OF sys_invD(4) [OF inv T]] and Tj = sys_invD(4) [OF inv u(1)]
  note R = release_all_run(2) [OF I(3) Ti(3) txn_invD(3) [OF Tj]]
  have "write_set t k = None" if "write_set u k = Some e" for k e using writes_disjoint [OF inv T u(1)] that u(2) by blast
  with Tj R u(2) same show ?thesis by (auto simp: txn_inv_def)
qed

lemma sys_inv_commit:
  assumes inv: "sys_inv m0 s T m cur rs" and T: "T i = Some t"
    and s': "db_holds s' cur (rs @ [mark_rec WAL_COMMIT i l])" "locks s' = release_all i (locks s)" "wal s' = log_next r (wal s)"
  shows "sys_inv m0 s' (T(i := None)) (committed_by t m) cur (rs @ [mark_rec WAL_COMMIT i l])"
proof -
  note I = sys_invD [OF inv] and L = sys_invD(2) [OF inv, unfolded log_ok_def] and Ti = txn_invD [OF sys_invD(4) [OF inv T]]
  have "(\<lambda>k. case map_option entry_after (write_set t k) of None \<Rightarrow> m k | Some v \<Rightarrow> v) = committed_by t m"
    by (auto simp: committed_by_def split: option.split)
  moreover have "written_by T i = Some (\<lambda>k. map_option entry_after (write_set t k))" using T by (simp add: written_by_def)
  ultimately have "logged m0 (rs @ [mark_rec WAL_COMMIT i l]) (committed_by t m) ((written_by T)(i := None))"
    using logged_commit [of m0 rs m "written_by T" "mark_rec WAL_COMMIT i l"] L by (simp add: mark_rec_simps)
  then have "log_ok m0 (rs @ [mark_rec WAL_COMMIT i l]) (committed_by t m) (T(i := None)) (next_txn_id (wal s))"
    using L T by (auto simp: log_ok_def mark_rec_simps)
  moreover have "cur k = committed_by t m k" if none: "\<And>j u. (T(i := None)) j = Some u \<Longrightarrow> write_set u k = None" for k
  proof (cases "write_set t k")
    case None
    then have "cur k = m k" using none T by (intro I(5)) (metis fun_upd_other option.inject)
    with None show ?thesis by (simp add: committed_by_def)
  next
    case (Some e)
    then show ?thesis using Ti(7) by (simp add: committed_by_def)
  qed
  moreover have "values_ok (committed_by t m)"
    using I(6) by (auto simp: values_ok_def committed_by_def entry_after_def split: option.splits if_splits)
  moreover have "txn_inv (release_all i (locks s)) cur (committed_by t m) j u" if "(T(i := None)) j = Some u" for j u
    by (rule others_end [OF inv T _ that]) (simp add: committed_by_def)
  ultimately show ?thesis
    unfolding sys_inv_def using s' release_all_run(1) [OF I(3) Ti(3)] by (simp add: log_next_def)
qed

lemma sys_inv_rollback:
  assumes inv: "sys_inv m0 s T m cur rs" and T: "T i = Some t"
    and s': "db_holds s' (restored t cur) (rs @ [mark_rec WAL_ABORT i l])" "locks s' = release_all i (locks s)" "wal s' = log_next r (wal s)"
  shows "sys_inv m0 s' (T(i := None)) m (restored t cur) (rs @ [mark_rec WAL_ABORT i l])"
proof -
  note I = sys_invD [OF inv] and L = sys_invD(2) [OF inv, unfolded log_ok_def] and Ti = txn_invD [OF sys_invD(4) [OF inv T]]
  have "written_by T i = Some (\<lambda>k. map_option entry_after (write_set t k))" using T by (simp add: written_by_def)
  then have "logged m0 (rs @ [mark_rec WAL_ABORT i l]) m ((written_by T)(i := None))"
    using logged_abort [of m0 rs m "written_by T" "mark_rec WAL_ABORT i l"] L by (simp add: mark_rec_simps)
  then have "log_ok m0 (rs @ [mark_rec WAL_ABORT i l]) m (T(i := None)) (next_txn_id (wal s))"
    using L T by (auto simp: log_ok_def mark_rec_simps)
  moreover have "restored t cur k = m k" if none: "\<And>j u. (T(i := None)) j = Some u \<Longrightarrow> write_set u k = None" for k
  proof (cases "write_set t k")
    case None
    then have "cur k = m k" using none T by (intro I(5)) (metis fun_upd_other option.inject)
    with None show ?thesis by (simp add: restored_def)
  next
    case (Some e)
    then show ?thesis using Ti(6) by (simp add: restored_def)
  qed
  moreover have "txn_inv (release_all i (locks s)) (restored t cur) m j u" if "(T(i := None)) j = Some u" for j u
    by (rule others_end [OF inv T _ that]) (simp add: restored_def)
  ultimately show ?thesis
    unfolding sys_inv_def using s' release_all_run(1) [OF I(3) Ti(3)] I(6) by (simp add: log_next_def)
qed

subsection \<open>Every step keeps the invariant\<close>

definition sys_ok :: "kv_map \<Rightarrow> db_system \<Rightarrow> bool" where
  "sys_ok m0 S \<longleftrightarrow> (case S of (s, T, m) \<Rightarrow> \<exists>cur rs. sys_inv m0 s T m cur rs)"

lemma refused_ok:
  assumes "sys_inv m0 s T m cur rs" "T i = Some t" "lock_attempt i key mode (locks s) = (False, l)"
  shows "sys_inv m0 (s\<lparr>locks := lock_timeout key l\<rparr>) (T(i \<mapsto> t)) m cur rs"
proof -
  note I = sys_invD [OF assms(1)] and Ti = txn_invD [OF sys_invD(4) [OF assms(1,2)]]
  have "sys_inv m0 (s\<lparr>locks := lock_timeout key l\<rparr>) T m cur rs"
    by (rule sys_inv_locks [OF assms(1)]) (use I(1) attempt_keeps(2) [OF I(3) Ti(3) assms(3)] in simp_all)
  then show ?thesis using assms(2) by (simp add: map_upd_triv)
qed

lemma get_ok:
  assumes inv: "sys_inv m0 s T m cur rs" and T: "T i = Some t" and run: "Txn_Get key (t, s) = (r, (t', s'))"
  shows "sys_inv m0 s' (T(i \<mapsto> t')) m cur rs"
proof -
  note I = sys_invD [OF inv] and Ti = txn_invD [OF sys_invD(4) [OF inv T]]
  obtain g l where lk: "lock_attempt i key SHARED (locks s) = (g, l)" by (cases "lock_attempt i key SHARED (locks s)")
  show ?thesis
  proof (cases g)
    case True
    obtain s1 where s1: "Txn_Get key (t, s) = (Inr (cur key), (t, s1))" "db_holds s1 cur rs" "locks s1 = l" "wal s1 = wal s"
      using Txn_Get_run [OF I(1) Ti(2), of key l] lk True Ti(1) by auto
    have "sys_inv m0 s1 T m cur rs"
      by (rule sys_inv_locks [OF inv s1(2,4)]) (use s1(3) attempt_keeps(1) [OF I(3) Ti(3) lk] in simp)
    then show ?thesis using run s1(1) T by (simp add: map_upd_triv)
  next
    case False
    with lk refused(1) [of t key SHARED s l] Ti(1,2) run refused_ok [OF inv T, of key SHARED l] show ?thesis by simp
  qed
qed

lemma put_ok:
  assumes inv: "sys_inv m0 s T m cur rs" and T: "T i = Some t" and room: "log_room s" "tree_can_put key val s" "val \<noteq> []"
    and run: "Txn_Put key val (t, s) = (r, (t', s'))"
  shows "\<exists>cur rs. sys_inv m0 s' (T(i \<mapsto> t')) m cur rs"
proof -
  note I = sys_invD [OF inv] and Ti = txn_invD [OF sys_invD(4) [OF inv T]]
  obtain g l where lk: "lock_attempt i key EXCLUSIVE (locks s) = (g, l)" by (cases "lock_attempt i key EXCLUSIVE (locks s)")
  show ?thesis
  proof (cases g)
    case True
    let ?e = "next_entry t cur key val"
    have after: "entry_after ?e = Some val" using room(3) by (simp add: entry_after_def)
    obtain s1 where s1: "Txn_Put key val (t, s) = (Inr (), (wrote t key ?e, s1))"
      "db_holds s1 (cur(key := entry_after ?e)) (rs @ [write_rec t key ?e val (next_lsn (wal s))])"
      "locks s1 = l" "wal s1 = log_next (write_rec t key ?e val (next_lsn (wal s))) (wal s)"
      using Txn_Put_run [OF I(1) room(1) Ti(4,2) room(2)] lk True Ti(1) after by auto
    from sys_inv_write [OF inv T _ s1(2-4)] lk True run s1(1) show ?thesis by auto
  next
    case False
    with lk refused(2) [of t key EXCLUSIVE s l] Ti(1,2) run refused_ok [OF inv T, of key EXCLUSIVE l] show ?thesis by auto
  qed
qed

lemma delete_ok:
  assumes inv: "sys_inv m0 s T m cur rs" and T: "T i = Some t" and room: "log_room s" "length key < 2 ^ 32"
    "fst (btree_get key s) \<noteq> Inr None \<longrightarrow> tree_can_delete key s"
    and run: "Txn_Delete key (t, s) = (r, (t', s'))"
  shows "\<exists>cur rs. sys_inv m0 s' (T(i \<mapsto> t')) m cur rs"
proof -
  note I = sys_invD [OF inv] and Ti = txn_invD [OF sys_invD(4) [OF inv T]]
  obtain g l where lk: "lock_attempt i key EXCLUSIVE (locks s) = (g, l)" by (cases "lock_attempt i key EXCLUSIVE (locks s)")
  have "fst (btree_get key s) = Inr (cur key)" using bt.get_law [of s cur key] I(1) by (auto simp: db_holds_def)
  then have can: "cur key \<noteq> None \<Longrightarrow> tree_can_delete key s" using room(3) by simp
  show ?thesis
  proof (cases g)
    case True
    let ?e = "next_entry t cur key []"
    have after: "entry_after ?e = None" by (simp add: entry_after_def)
    note D = Txn_Delete_run [OF I(1) room(1) Ti(4,2) room(2) can, of l]
    show ?thesis
    proof (cases "cur key = None")
      case none: True
      obtain s1 where s1: "Txn_Delete key (t, s) = (Inr (), (t, s1))" "db_holds s1 cur rs" "locks s1 = l" "wal s1 = wal s"
        using D(1) lk True Ti(1) none by auto
      have "sys_inv m0 s1 T m cur rs"
        by (rule sys_inv_locks [OF inv s1(2,4)]) (use s1(3) attempt_keeps(1) [OF I(3) Ti(3) lk] in simp)
      then show ?thesis using run s1(1) T by (auto simp: map_upd_triv)
    next
      case False
      obtain s1 where s1: "Txn_Delete key (t, s) = (Inr (), (wrote t key ?e, s1))"
        "db_holds s1 (cur(key := entry_after ?e)) (rs @ [write_rec t key ?e [] (next_lsn (wal s))])"
        "locks s1 = l" "wal s1 = log_next (write_rec t key ?e [] (next_lsn (wal s))) (wal s)"
        using D(2) lk True Ti(1) after False by auto
      from sys_inv_write [OF inv T _ s1(2-4)] lk True run s1(1) show ?thesis by auto
    qed
  next
    case False
    with lk refused(3) [of t key EXCLUSIVE s l] Ti(1,2) run refused_ok [OF inv T, of key EXCLUSIVE l] show ?thesis by auto
  qed
qed

lemma db_step_ok: "db_step S S' \<Longrightarrow> sys_ok m0 S \<Longrightarrow> sys_ok m0 S'"
proof (induction rule: db_step.induct)
  case (Step_Begin s t s' T m)
  then obtain cur rs where inv: "sys_inv m0 s T m cur rs" by (auto simp: sys_ok_def)
  note B = DB_Begin_run [OF sys_invD(1) [OF inv] Step_Begin(1)]
  show ?case
    using B(1) Step_Begin(3) sys_inv_begin [OF inv Step_Begin(2) B(2)] by (auto simp: sys_ok_def)
next
  case (Step_Get T i t key s r t' s' m)
  then obtain cur rs where inv: "sys_inv m0 s T m cur rs" by (auto simp: sys_ok_def)
  from get_ok [OF inv Step_Get(1,2)] show ?case by (auto simp: sys_ok_def)
next
  case (Step_Put T i t s key val r t' s' m)
  then obtain cur rs where inv: "sys_inv m0 s T m cur rs" by (auto simp: sys_ok_def)
  from put_ok [OF inv Step_Put(1-5)] show ?case by (auto simp: sys_ok_def)
next
  case (Step_Delete T i t s key r t' s' m)
  then obtain cur rs where inv: "sys_inv m0 s T m cur rs" by (auto simp: sys_ok_def)
  from delete_ok [OF inv Step_Delete(1-5)] show ?case by (auto simp: sys_ok_def)
next
  case (Step_Commit T i t s r t' s' m)
  then obtain cur rs where inv: "sys_inv m0 s T m cur rs" by (auto simp: sys_ok_def)
  note Ti = txn_invD [OF sys_invD(4) [OF inv Step_Commit(1)]]
  from Txn_Commit_run [OF sys_invD(1) [OF inv] Step_Commit(2) Ti(2)] Step_Commit(3)
  have "db_holds s' cur (rs @ [mark_rec WAL_COMMIT i (next_lsn (wal s))])" "locks s' = release_all i (locks s)"
    "wal s' = log_next (mark_rec WAL_COMMIT i (next_lsn (wal s))) (wal s)"
    by (auto simp: Ti(1))
  from sys_inv_commit [OF inv Step_Commit(1) this] show ?case by (auto simp: sys_ok_def)
next
  case (Step_Rollback T i t s order r t' s' m)
  then obtain cur rs where inv: "sys_inv m0 s T m cur rs" by (auto simp: sys_ok_def)
  note Ti = txn_invD [OF sys_invD(4) [OF inv Step_Rollback(1)]]
  from Txn_Rollback_run [OF sys_invD(1) [OF inv] Step_Rollback(2) Ti(2) Step_Rollback(3,4)] Step_Rollback(5)
  have "db_holds s' (restored t cur) (rs @ [mark_rec WAL_ABORT i (next_lsn (wal s))])" "locks s' = release_all i (locks s)"
    "wal s' = log_next (mark_rec WAL_ABORT i (next_lsn (wal s))) (wal s)"
    by (auto simp: Ti(1))
  from sys_inv_rollback [OF inv Step_Rollback(1) this] show ?case by (auto simp: sys_ok_def)
qed

lemma db_init_ok: "db_init m0 S \<Longrightarrow> sys_ok m0 S"
  using logged_start [of m0] lm_ok_new
  by (auto simp: db_init_def sys_ok_def sys_inv_def log_ok_def intro!: exI [of _ m0] exI [of _ "[]"])

lemma reachable_ok: "dbs.reachable m0 S \<Longrightarrow> sys_ok m0 S"
  by (rule dbs.reachable_invariant) (auto intro: db_init_ok db_step_ok)

end
