(* ===== verification/Db_Open.thy ===== *)
theory Db_Open
  imports Db_System Btree_Props Wal_Props
begin

section \<open>Opening and closing a database\<close>

text \<open>
  A database file that was flushed is opened again: the disk manager counts its pages, the free list
  and the root are read from page 0, the pool starts empty, the log is scanned, and recovery replays
  it. The tree is then the one that was flushed, with the log's history applied, and the database is in
  the initial state of the transition system. An empty file becomes an empty database.
\<close>

subsection \<open>The state after the files were read\<close>

definition disk_of :: "'a disk_manager_scheme \<Rightarrow> disk_manager" where
  "disk_of s = \<lparr>db_file = db_file s, file_size = file_size s, num_pages = num_pages s, io_faults = []\<rparr>"

definition reopened_pool :: "'a free_list_scheme \<Rightarrow> buffer_pool" where
  "reopened_pool s = BufferPool_new (FreeList_new (disk_of s)\<lparr>free_pages := free_pages s\<rparr>)"

definition reopened :: "'a btree_scheme \<Rightarrow> log_manager \<Rightarrow> db" where
  "reopened s lg = (new_db (reopened_pool s) lg)\<lparr>tree_root := tree_root s\<rparr>"

lemma new_db_simps [simp]:
  "same_pool (new_db bp lg) bp" "wal (new_db bp lg) = lg" "locks (new_db bp lg) = LockManager_new" "tree_root (new_db bp lg) = INVALID_PAGE_ID"
  by (simp_all add: new_db_def same_pool_def buffer_pool.defs btree.defs engine.defs db.defs)

lemma same_pool_root [simp]: "same_pool (s\<lparr>tree_root := r\<rparr>) t = same_pool s t"
  by (simp add: same_pool_def)

lemma disk_of_simps [simp]:
  "num_pages (disk_of s) = num_pages s" "disk_page (disk_of s) = disk_page s" "valid_pid (disk_of s) = valid_pid s"
  "disk_ok s \<Longrightarrow> disk_ok (disk_of s)"
  by (simp_all add: disk_of_def disk_page_def valid_pid_def disk_ok_def fun_eq_iff)

lemma reopened_pool_ok:
  assumes "pool_inv s" "\<And>pid. live s pid \<Longrightarrow> disk_page s pid = view s pid" "header_ok r s"
  defines "u \<equiv> reopened_pool s"
  shows "pool_inv u" "live u = live s" "view u = disk_page s" "pins u = (\<lambda>_. 0)" "card (usable u) = 64"
    "num_pages u = num_pages s" "header_ok r u" "disk_page u = disk_page s"
proof -
  let ?fl = "FreeList_new (disk_of s)\<lparr>free_pages := free_pages s\<rparr>"
  note D = pool_invD [OF assms(1)] and R = fl_readyD [OF pool_invD(4) [OF assms(1)]]
  have fl: "disk_page ?fl = disk_page s" "valid_pid ?fl = valid_pid s" "disk_ok ?fl"
    using D(5) by (simp_all add: disk_of_def disk_page_def valid_pid_def disk_ok_def fun_eq_iff)
  have "fl_ready ?fl" using R fl by (simp add: fl_ready_def)
  moreover have "distinct (free_pages ?fl)" "pid \<in> set (free_pages ?fl) \<Longrightarrow> valid_pid ?fl pid \<and> pid \<noteq> 0" for pid
    using D(3) fl by (auto simp: free_ok_def)
  moreover have "page_id (disk_page ?fl pid) = pid" if "valid_pid ?fl pid" "pid \<noteq> 0" "pid \<notin> set (free_pages ?fl)" for pid
  proof -
    have "live s pid" using that fl by (simp add: live_def)
    then show ?thesis using content_okD(4) [OF D(2)] assms(2) fl by simp
  qed
  ultimately have P: "pool_inv u" "view u = disk_page ?fl" "pins u pid = 0" for pid
    unfolding u_def reopened_pool_def by (blast intro: pool_inv_new)+
  show "pool_inv u" "view u = disk_page s" "pins u = (\<lambda>_. 0)" using P fl by auto
  have u: "num_pages u = num_pages s" "free_pages u = free_pages s" "db_file u = db_file s" "file_size u = file_size s"
    by (simp_all add: u_def reopened_pool_def disk_of_def)
  then show "live u = live s" "num_pages u = num_pages s" by (simp_all add: live_def valid_pid_def fun_eq_iff)
  show "disk_page u = disk_page s" using u by (simp add: disk_page_def fun_eq_iff)
  then show "header_ok r u" using assms(3) u header_ok_cong [of u s r] by (simp add: header_ok_def fl_persisted_def)
  show "card (usable u) = 64" by (simp add: u_def reopened_pool_def usable_def atLeast0LessThan)
qed

lemma reopened_holds:
  assumes "holds_tree s t" "on_disk s"
  shows "holds_tree (reopened s lg) t" "num_pages (reopened s lg) = num_pages s"
proof -
  obtain c where c: "cached c s" "3 \<le> capacity c" "stores c t" "small_tree t" by (rule holds_treeE [OF assms(1)])
  note C = cachedD [OF c(1)]
  have d: "\<And>pid. live s pid \<Longrightarrow> disk_page s pid = view s pid" "header_ok (tree_root s) s" using assms(2) by (auto simp: on_disk_def)
  let ?u = "reopened s lg"
  have same: "same_pool ?u (reopened_pool s)" by (simp add: reopened_def)
  note S = same_poolD [OF same] same_pool_header [OF same] and P = reopened_pool_ok [OF C(1) d]
  let ?c = "\<lparr>content = content c, pinned = Map.empty, changed = {}, allocated_ids = allocated_ids c,
    capacity = 64, growth = growth c, root_id = root_id c, saved_root = root_id c, others = btree.more ?u\<rparr>"
  have "tree_root ?u = tree_root s" by (simp add: reopened_def)
  then have "cached ?c ?u"
    unfolding cached_def using P S C(2,3,9,10) d(1) by auto
  moreover have "stores ?c t" using c(3) by (simp add: stores_def quiet_def)
  ultimately show "holds_tree ?u t" unfolding holds_tree_def using c(4) by (intro exI [of _ ?c]) simp
  show "num_pages ?u = num_pages s" using S(1) P(6) by simp
qed

subsection \<open>Reading the files\<close>

lemma open_files:
  assumes "pool_inv s" "header_ok r s"
  defines "fl \<equiv> FreeList_new (disk_of s)\<lparr>free_pages := free_pages s\<rparr>"
  shows "DiskManager_open (db_file s) (file_size s) [] = Inr (disk_of s)"
    "fl_load (FreeList_new (disk_of s)) = (Inr (), fl)"
proof -
  note D = pool_invD [OF assms(1)] and R = fl_readyD [OF pool_invD(4) [OF assms(1)]]
  show "DiskManager_open (db_file s) (file_size s) [] = Inr (disk_of s)" using DiskManager_open_run [OF D(5)] by (simp add: disk_of_def)
  show "fl_load (FreeList_new (disk_of s)) = (Inr (), fl)"
    using load_persisted [of "FreeList_new (disk_of s)" "length (free_pages s)"] R fl_ready_num [OF D(4)] assms(2)
    by (simp add: fl_def header_ok_def fl_persisted_def)
qed

lemma open_log:
  assumes "\<forall>r \<in> set rs. wal_wf r"
  shows "\<exists>lg. LogManager_open (log_bytes rs) [] = Inr lg \<and> wal_faults lg = [] \<and> read_all lg = (Inr (map stored rs), lg)"
proof -
  let ?s = "\<lparr>wal_file = log_bytes rs, wal_faults = [], next_lsn = 1, next_txn_id = 1\<rparr>"
  have "\<exists>l t. scan_loop 0 0 0 ?s = (Inr (l, t), ?s)" using scan_loop_run [of ?s rs 0] assms by simp
  then obtain l t where "scan_loop 0 0 0 ?s = (Inr (l, t), ?s)" by blast
  then have "\<exists>lg. LogManager_open (log_bytes rs) [] = Inr lg \<and> wal_faults lg = [] \<and> wal_file lg = log_bytes rs"
    by (simp add: LogManager_open_def scan_for_max_ids_def wal_io_def op_defs)
  then show ?thesis using read_all_file assms by blast
qed

lemma reopened_root:
  assumes "holds_tree s t" "on_disk s"
  shows "root_page_id (new_db (reopened_pool s) lg) = (Inr (tree_root s), new_db (reopened_pool s) lg)" "tree_root s \<noteq> INVALID_PAGE_ID"
proof -
  obtain c where c: "cached c s" "stores c t" by (rule holds_treeE [OF assms(1)])
  note C = cachedD [OF c(1)]
  have d: "\<And>pid. live s pid \<Longrightarrow> disk_page s pid = view s pid" "header_ok (tree_root s) s" using assms(2) by (auto simp: on_disk_def)
  note P = reopened_pool_ok [OF C(1) d] and S = same_poolD [OF new_db_simps(1), of "reopened_pool s" lg]
  let ?u = "new_db (reopened_pool s) lg"
  have "pool_inv ?u" using P(1) S(8) by simp
  note R = fl_readyD [OF pool_invD(4) [OF this]]
  have "page0_root (disk_page ?u 0) = tree_root s"
    using same_pool_header [OF new_db_simps(1), of "tree_root s" "reopened_pool s" lg] P(7) by (simp add: header_ok_def)
  then show "root_page_id ?u = (Inr (tree_root s), ?u)"
    using dm.read_run [OF R(1,2), of "\<lambda>_. 0"] R(4) by (simp add: root_page_id_def op_simps)
  have "tree_root s \<in> allocated_ids c" using C(10) c(2) tid_in_pages [of t] by (auto simp: stores_def)
  then have "live s (tree_root s)" using C(2) by simp
  then show "tree_root s \<noteq> INVALID_PAGE_ID" using valid_not_invalid [OF pool_invD(5) [OF C(1)]] liveD by blast
qed

lemma truncate_run: "wal_faults w = [] \<Longrightarrow> wal_truncate w = (Inr (), w\<lparr>wal_file := [], next_lsn := 1, next_txn_id := 1\<rparr>)"
  by (simp add: wal_truncate_def wal_io_def op_defs)

lemma truncated_log: "wal_faults w = [] \<Longrightarrow> log_inv (w\<lparr>wal_file := [], next_lsn := 1, next_txn_id := 1\<rparr>) []"
  by (simp add: log_inv_def)

subsection \<open>Opening\<close>

text \<open>Fresh: the log is empty, no lock is held, and all pages are on disk.\<close>

definition fresh_db :: "kv_map \<Rightarrow> db \<Rightarrow> bool" where
  "fresh_db m s \<longleftrightarrow> db_holds s m [] \<and> on_disk s \<and> locks s = LockManager_new \<and> next_lsn (wal s) = 1 \<and> next_txn_id (wal s) = 1"

lemma DB_Open_run:
  fixes s :: "'a engine_scheme"
  assumes "tree_holds s d" "on_disk s" "\<forall>r \<in> set rs. wal_wf r"
    and can: "\<And>lg. LogManager_open (log_bytes rs) [] = Inr lg \<Longrightarrow> kv_can_all btree_insert btree_remove tree_can_put tree_can_delete
      (redo_updates (map stored rs) @ undo_updates (map stored rs)) (reopened s lg)"
  shows "\<exists>s'. DB_Open (db_file s) (file_size s) [] (log_bytes rs) [] = Inr s' \<and> fresh_db (recovered (map stored rs) d) s'"
proof -
  obtain t where t: "holds_tree s t" "d = map_of (contents t)" using assms(1) by (auto simp: tree_holds_def)
  obtain lg where lg: "LogManager_open (log_bytes rs) [] = Inr lg" "wal_faults lg = []" "read_all lg = (Inr (map stored rs), lg)"
    using open_log [OF assms(3)] by blast
  have inv: "pool_inv s" using t(1) cachedD(1) by (auto elim: holds_treeE)
  have hd: "header_ok (tree_root s) s" using assms(2) by (simp add: on_disk_def)
  let ?u = "reopened s lg"
  have u: "tree_holds ?u d" "wal ?u = lg" "locks ?u = LockManager_new"
    using reopened_holds(1) [OF t(1) assms(2)] t(2) by (auto simp: tree_holds_def reopened_def)
  have eq: "?u\<lparr>wal := lg\<rparr> = ?u" using u(2) by simp
  obtain s1 where s1: "recover ?u = (Inr (card (analysis (map stored rs))), s1)" "tree_holds s1 (recovered (map stored rs) d)"
    "wal s1 = lg" "engine.more s1 = engine.more ?u"
    using recover_run [OF u(1), of "map stored rs" lg, unfolded eq] u(2) lg(3) can [OF lg(1)] by auto
  obtain s2 where s2: "flush_all s1 = (Inr (), s2)" "dm_flush s2 = (Inr (), s2)" "tree_holds s2 (recovered (map stored rs) d)"
    "on_disk s2" "btree.more s2 = btree.more s1"
    using flush_tree_run [OF s1(2)] by blast
  have w2: "wal s2 = lg" "locks s2 = LockManager_new"
    using more_db [OF s2(5)] s1(3,4) u(3) by (auto simp: engine.defs) (cases s1; cases ?u; simp add: engine.defs)
  let ?s = "s2\<lparr>wal := lg\<lparr>wal_file := [], next_lsn := 1, next_txn_id := 1\<rparr>\<rparr>"
  have "on_wal wal_truncate s2 = (Inr (), ?s)" using truncate_run [OF lg(2)] w2(1) by (simp add: on_wal_def)
  then have "open_tree (new_db (reopened_pool s) lg) = (Inr (), ?s)"
    using reopened_root(1) [OF t(1) assms(2), of lg] reopened_root(2) [OF t(1) assms(2)] s1(1) s2(1,2)
    by (simp add: open_tree_def op_simps op_modify_def BTree_open_def reopened_def op_bind_def)
  then have "DB_Open (db_file s) (file_size s) [] (log_bytes rs) [] = Inr ?s"
    using open_files [OF inv hd] lg(1) by (simp add: DB_Open_def reopened_pool_def)
  moreover have "fresh_db (recovered (map stored rs) d) ?s"
    using s2(3,4) w2(2) truncated_log [OF lg(2)] by (simp add: fresh_db_def db_holds_def)
  ultimately show ?thesis by blast
qed

lemma fresh_db_init: "fresh_db m s \<Longrightarrow> values_ok m \<Longrightarrow> db_init m (s, Map.empty, m)"
  by (simp add: fresh_db_def db_init_def)

subsection \<open>Closing\<close>

lemma DB_Close_run:
  fixes s :: "'a db_scheme"
  assumes "db_holds s m rs"
  shows "\<exists>s'. DB_Close s = (Inr (), s') \<and> tree_holds s' m \<and> on_disk s' \<and> wal_file (wal s') = [] \<and> locks s' = locks s"
proof -
  have h: "tree_holds s m" "wal_faults (wal s) = []" using assms by (auto simp: db_holds_def log_inv_def)
  obtain s1 where s1: "flush_all s = (Inr (), s1)" "dm_flush s1 = (Inr (), s1)" "tree_holds s1 m" "on_disk s1" "btree.more s1 = btree.more s"
    using flush_tree_run [OF h(1)] by blast
  note w = more_db [OF s1(5)]
  let ?s = "s1\<lparr>wal := (wal s1)\<lparr>wal_file := [], next_lsn := 1, next_txn_id := 1\<rparr>\<rparr>"
  have "on_wal wal_truncate s1 = (Inr (), ?s)" using truncate_run h(2) w(1) by (simp add: on_wal_def)
  then have "DB_Close s = (Inr (), ?s)" using s1(1,2) by (simp add: DB_Close_def op_simps)
  then show ?thesis using s1(3,4) w by simp
qed

subsection \<open>A new database\<close>

definition empty_disk :: "buf \<Rightarrow> disk_manager" where
  "empty_disk f = \<lparr>db_file = f, file_size = 0, num_pages = 0, io_faults = []\<rparr>"

definition new_header :: "buf \<Rightarrow> free_list" where
  "new_header f = disk_store 0 fresh_page0 (allocated (FreeList_new (empty_disk f)))"

lemma new_header_run:
  "DiskManager_open f 0 [] = Inr (empty_disk f)" "fl_load (FreeList_new (empty_disk f)) = (Inr (), new_header f)"
  "fl_ready (new_header f)" "num_pages (new_header f) = 1" "free_pages (new_header f) = []" "disk_page (new_header f) 0 = fresh_page0"
proof -
  let ?fl = "FreeList_new (empty_disk f)"
  show "DiskManager_open f 0 [] = Inr (empty_disk f)" by (simp add: DiskManager_open_def op_simps empty_disk_def)
  have ok: "disk_ok ?fl" by (simp add: disk_ok_def empty_disk_def)
  have "unat (num_pages ?fl) < 2147483647" by (simp add: empty_disk_def)
  note A = allocated_props [OF ok this]
  have n: "num_pages ?fl = 0" by (simp add: empty_disk_def)
  have v: "valid_pid (allocated ?fl) 0" using A(4) n by simp
  have io: "io_faults (allocated ?fl) = []" using A(1) by (simp add: disk_ok_def)
  show "fl_load ?fl = (Inr (), new_header f)"
    using n allocate_page_run [OF ok] dm.write_run [OF A(1) v] io by (simp add: fl_load_def op_simps new_header_def)
  have "free_pages (allocated ?fl) = []" by (simp add: allocated_def file_write_def)
  then show "fl_ready (new_header f)" "free_pages (new_header f) = []" using A(1) v by (simp_all add: fl_ready_def new_header_def)
  show "num_pages (new_header f) = 1" using A(2) n by (simp add: new_header_def)
  show "disk_page (new_header f) 0 = fresh_page0" by (simp add: new_header_def fresh_page0_decoded(1))
qed

lemma new_pool_idle:
  "pool_idle (new_db (BufferPool_new (new_header f)) lg)" "num_pages (new_db (BufferPool_new (new_header f)) lg) = 1"
  "root_page_id (new_db (BufferPool_new (new_header f)) lg) = (Inr INVALID_PAGE_ID, new_db (BufferPool_new (new_header f)) lg)"
proof -
  let ?fl = "new_header f" and ?bp = "BufferPool_new (new_header f)"
  let ?u = "new_db ?bp lg"
  note H = new_header_run [of f] and R = fl_readyD [OF new_header_run(3), of f]
  have none: "valid_pid ?fl pid \<Longrightarrow> pid = 0" for pid
    using valid_pid_iff [OF R(1), of pid] H(4) by (auto simp: unat_eq_0)
  note P = pool_inv_new [OF H(3)]
  have bp: "pool_inv ?bp" "pins ?bp = (\<lambda>_. 0)" using none P H(5) by fastforce+
  note S = same_poolD [OF new_db_simps(1), of ?bp lg]
  have dk: "disk_page ?u 0 = fresh_page0" "free_pages ?u = []"
  proof -
    have "same_pool ?u ?bp" by simp
    then have u: "db_file ?u = db_file ?fl" "free_pages ?u = []" using H(5) by (simp_all add: same_pool_def)
    then have "disk_page ?u 0 = disk_page ?fl 0" by (simp add: disk_page_def fun_eq_iff)
    then show "disk_page ?u 0 = fresh_page0" "free_pages ?u = []" using H(6) u by simp_all
  qed
  have "fl_persisted ?u" using dk by (simp add: fl_persisted_def fresh_page0_decoded page0_entries_def)
  moreover have "card (usable ?bp) = 64" by (simp add: usable_def atLeast0LessThan)
  ultimately show "pool_idle ?u" using bp S(4,6,8) by (simp add: pool_idle_def)
  show "num_pages ?u = 1" using S(1) H(4) by simp
  have "pool_inv ?u" using bp(1) S(8) by simp
  note Q = fl_readyD [OF pool_invD(4) [OF this]]
  show "root_page_id ?u = (Inr INVALID_PAGE_ID, ?u)"
    using dm.read_run [OF Q(1,2), of "\<lambda>_. 0"] Q(4) dk(1) by (simp add: root_page_id_def op_simps fresh_page0_decoded)
qed

lemma DB_Open_new_run:
  "\<exists>s pid. DB_Open f 0 [] [] [] = Inr s \<and> holds_tree s (Leaf pid []) \<and> unat (num_pages s) \<le> 2 \<and> locks s = LockManager_new \<and>
     wal s = \<lparr>wal_file = [], wal_faults = [], next_lsn = 1, next_txn_id = 1\<rparr>"
proof -
  let ?lg = "\<lparr>wal_file = [], wal_faults = [], next_lsn = 1, next_txn_id = 1\<rparr>"
  have "scan_loop 0 0 0 ?lg = (Inr (0, 0), ?lg)" using scan_loop_run [of ?lg "[]" 0] by simp
  then have lg: "LogManager_open [] [] = Inr ?lg" by (simp add: LogManager_open_def scan_for_max_ids_def wal_io_def op_defs)
  let ?u = "new_db (BufferPool_new (new_header f)) ?lg"
  obtain s pid where s: "BTree_create ?u = (Inr (), s)" "holds_tree s (Leaf pid [])" "btree.more s = btree.more ?u"
    "unat (num_pages s) \<le> unat (num_pages ?u) + 1"
    using BTree_create_law [OF new_pool_idle(1)] new_pool_idle(2) by fastforce
  have "open_tree ?u = (Inr (), s)" using new_pool_idle(3) s(1) by (simp add: open_tree_def op_simps)
  then have "DB_Open f 0 [] [] [] = Inr s" using new_header_run(1,2) lg by (simp add: DB_Open_def)
  then show ?thesis using s(2,4) new_pool_idle(2) more_db [OF s(3)] by auto
qed

subsection \<open>Opening with an empty log\<close>

definition same_disk :: "'a disk_manager_scheme \<Rightarrow> 'b disk_manager_scheme \<Rightarrow> bool" where
  "same_disk s t \<longleftrightarrow> db_file s = db_file t \<and> file_size s = file_size t \<and> num_pages s = num_pages t \<and> io_faults s = io_faults t"

lemma same_diskD:
  assumes "same_disk s t"
  shows "disk_page s = disk_page t" "valid_pid s = valid_pid t" "disk_ok s = disk_ok t" "num_pages s = num_pages t" "io_faults s = io_faults t"
  using assms by (auto simp: same_disk_def disk_page_def valid_pid_def disk_ok_def fun_eq_iff)

text \<open>Opened again with an empty log, the database is the one that the files hold, whether or not its pages were flushed.\<close>

lemma reopen_unflushed:
  assumes inv: "pool_inv s" and hd: "header_ok (tree_root s) s" and valid: "valid_pid s (tree_root s)"
  defines "lg \<equiv> \<lparr>wal_file = [], wal_faults = [], next_lsn = 1, next_txn_id = 1\<rparr>"
  shows "DB_Open (db_file s) (file_size s) [] [] [] = Inr (reopened s lg)" "same_disk (reopened s lg) s"
proof -
  let ?u = "new_db (reopened_pool s) lg"
  have same: "same_pool ?u (reopened_pool s)" by simp
  have io: "io_faults s = []" using pool_invD(5) [OF inv] by (simp add: disk_ok_def)
  have dk: "same_disk ?u s" using same io by (simp add: same_pool_def same_disk_def reopened_pool_def disk_of_def)
  then show "same_disk (reopened s lg) s" by (simp add: same_disk_def reopened_def)
  note D = same_diskD [OF dk] and R = fl_readyD [OF pool_invD(4) [OF inv]]
  have "disk_ok ?u" "valid_pid ?u 0" "0 <s num_pages ?u" using R D by simp_all
  then have root: "root_page_id ?u = (Inr (tree_root s), ?u)"
    using dm.read_run [of ?u 0 new_Page] hd D(1) by (simp add: root_page_id_def op_simps header_ok_def)
  have ne: "tree_root s \<noteq> INVALID_PAGE_ID" using valid_not_invalid [OF pool_invD(5) [OF inv]] valid by blast
  have rd: "read_all lg = (Inr [], lg)" using read_all_file [of lg "[]"] by (simp add: lg_def)
  let ?v = "reopened s lg"
  have v: "?u\<lparr>tree_root := tree_root s\<rparr> = ?v" "wal ?v = lg" "page_table ?v = []" "io_faults ?v = []"
    using same io D(5) by (simp_all add: reopened_def same_pool_def reopened_pool_def)
  have eq: "?v\<lparr>wal := lg\<rparr> = ?v" using v(2) by simp
  have "recover ?v = (Inr 0, ?v)" using rd v(2) eq by (simp add: recover_def on_wal_def op_simps)
  moreover have "flush_all ?v = (Inr (), ?v)" "dm_flush ?v = (Inr (), ?v)"
    using v(3,4) by (simp_all add: flush_all_def dm_flush_def fsync_def op_simps)
  moreover have "on_wal wal_truncate ?v = (Inr (), ?v)"
    using truncate_run [of lg] v(2) eq by (simp add: on_wal_def lg_def)
  ultimately have "open_tree ?u = (Inr (), ?v)" using root ne v(1) by (simp add: open_tree_def op_defs BTree_open_def)
  moreover have "LogManager_open [] [] = Inr lg"
    using scan_loop_run [of lg "[]" 0] by (simp add: lg_def LogManager_open_def scan_for_max_ids_def wal_io_def op_defs)
  ultimately show "DB_Open (db_file s) (file_size s) [] [] [] = Inr ?v"
    using open_files [OF inv hd] by (simp add: DB_Open_def reopened_pool_def)
qed

end
