(* ===== verification/Db_Props.thy ===== *)
theory Db_Props
  imports Db_Open Recovery_Props
begin

section \<open>Properties of the database\<close>

text \<open>
  What the database promises to its clients, over all components: transactions that run concurrently
  do not see each other's uncommitted writes, a rollback restores, a commit survives a restart, a crash
  loses no committed transaction, and closing and opening are inverse.
\<close>

subsection \<open>A database and a transaction used by the witnesses\<close>

text \<open>A new database, created from an empty file; a transaction on it that has put one key.\<close>

definition sample_new :: db where
  "sample_new = projr (DB_Open (\<lambda>_. 0) 0 [] [] [])"

definition sample_begun :: "transaction \<times> db" where
  "sample_begun = (case DB_Begin sample_new of (r, s) \<Rightarrow> (projr r, s))"

definition sample_wrote :: "transaction \<times> db" where
  "sample_wrote = snd (Txn_Put [5] [6] sample_begun)"

lemma sample_new_ok:
  "DB_Open (\<lambda>_. 0) 0 [] [] [] = Inr sample_new" "\<exists>pid. holds_tree sample_new (Leaf pid [])" "unat (num_pages sample_new) \<le> 2"
  "locks sample_new = LockManager_new" "wal sample_new = \<lparr>wal_file = [], wal_faults = [], next_lsn = 1, next_txn_id = 1\<rparr>"
  using DB_Open_new_run [of "\<lambda>_. 0"] by (auto simp: sample_new_def)

lemma sample_new_holds: "db_holds sample_new Map.empty []" "db_init Map.empty (sample_new, Map.empty, Map.empty)"
proof -
  show "db_holds sample_new Map.empty []"
    using sample_new_ok(2,5) by (auto simp: db_holds_def tree_holds_def contents_def log_inv_def)
  then show "db_init Map.empty (sample_new, Map.empty, Map.empty)"
    using sample_new_ok(4,5) by (simp add: db_init_def values_ok_def)
qed

abbreviation first_txn :: transaction where
  "first_txn \<equiv> \<lparr>txn_id = 1, txn_done = False, write_set = Map.empty\<rparr>"

lemma sample_begun_ok:
  obtains s where "sample_begun = (first_txn, s)" "DB_Begin sample_new = (Inr first_txn, s)" "db_holds s Map.empty [mark_rec WAL_BEGIN 1 1]"
    "\<exists>pid. holds_tree s (Leaf pid [])" "unat (num_pages s) \<le> 2" "locks s = LockManager_new" "next_lsn (wal s) = 2"
    "dbs.reachable Map.empty (s, [1 \<mapsto> first_txn], Map.empty)" "log_room s"
proof -
  have room: "log_room sample_new" "unat (next_txn_id (wal sample_new)) + 1 < 2 ^ 63" by (simp_all add: log_room_def sample_new_ok(5))
  note B = DB_Begin_run [OF sample_new_holds(1) room(1)]
  let ?s = "snd (DB_Begin sample_new)"
  have run: "DB_Begin sample_new = (Inr first_txn, ?s)" using B(1) by (simp add: sample_new_ok(5))
  have "dbs.reachable Map.empty (?s, Map.empty(txn_id first_txn \<mapsto> first_txn), Map.empty)"
    by (rule dbs.reachable_step [OF dbs.reachable_init [OF sample_new_holds(2)] Step_Begin [OF room run]])
  then have r: "dbs.reachable Map.empty (?s, [1 \<mapsto> first_txn], Map.empty)" by simp
  show ?thesis
    by (rule that [of ?s]) (use run r B sample_new_ok in \<open>simp_all add: sample_begun_def log_room_def log_next_def\<close>)
qed

text \<open>The entry, the record and the state of the first write.\<close>

abbreviation first_entry :: write_entry where
  "first_entry \<equiv> \<lparr>we_before_exists = False, we_before_val = [], we_after_val = [6]\<rparr>"

lemma sample_wrote_ok:
  obtains s where "sample_wrote = (wrote first_txn [5] first_entry, s)" "Txn_Put [5] [6] sample_begun = (Inr (), sample_wrote)"
    "db_holds s [[5] \<mapsto> [6]] [mark_rec WAL_BEGIN 1 1, write_rec first_txn [5] first_entry [6] 2]"
    "unat (num_pages s) \<le> 2" "\<exists>pid. holds_tree s (Leaf pid [([5], [6])])" "log_room s" "next_lsn (wal s) = 3"
    "dbs.reachable Map.empty (s, [1 \<mapsto> wrote first_txn [5] first_entry], Map.empty)"
proof -
  obtain s pid where s: "sample_begun = (first_txn, s)" "db_holds s Map.empty [mark_rec WAL_BEGIN 1 1]" "holds_tree s (Leaf pid [])"
    "unat (num_pages s) \<le> 2" "locks s = LockManager_new" "next_lsn (wal s) = 2" "dbs.reachable Map.empty (s, [1 \<mapsto> first_txn], Map.empty)"
    "log_room s"
    by (rule sample_begun_ok) blast
  have can: "tree_can_put [5] [6] s" using s(4) by (simp add: tree_can_put_def)
  have e: "next_entry first_txn Map.empty [5] [6] = first_entry" by (simp add: next_entry_def)
  obtain l where "lock_attempt 1 [5] EXCLUSIVE LockManager_new = (True, l)"
    by (simp add: lock_attempt_def get_or_create_def LockManager_new_def can_grant_def)
  then have lk: "lock_attempt (txn_id first_txn) [5] EXCLUSIVE (locks s) = (True, l)" using s(5) by simp
  have ok: "txn_ok first_txn" "\<not> txn_done first_txn" by (simp_all add: txn_ok_def)
  obtain s' where s': "Txn_Put [5] [6] (first_txn, s) = (Inr (), (wrote first_txn [5] first_entry, s'))"
    "db_holds s' [[5] \<mapsto> [6]] [mark_rec WAL_BEGIN 1 1, write_rec first_txn [5] first_entry [6] 2]"
    "wal s' = log_next (write_rec first_txn [5] first_entry [6] 2) (wal s)" "keeps_leaf (put_key [5] [6]) s s'"
    using Txn_Put_run [OF s(2,8) ok can lk] e s(6) by auto
  have "fits leaf_tail (put_key [5] [6] [])" by (simp add: fits_space space_def cost_def encode_leaf leaf_cell_size_def)
  note K = keeps_leafD [OF s'(4) s(3) this]
  have "dbs.reachable Map.empty (s', [1 \<mapsto> first_txn, 1 \<mapsto> wrote first_txn [5] first_entry], Map.empty)"
    by (rule dbs.reachable_step [OF s(7) Step_Put [OF _ s(8) can _ s'(1)]]) simp_all
  then have r: "dbs.reachable Map.empty (s', [1 \<mapsto> wrote first_txn [5] first_entry], Map.empty)" by simp
  show ?thesis
    by (rule that [of s']) (use s s' K r in \<open>auto simp: sample_wrote_def log_room_def log_next_def\<close>)
qed

subsection \<open>Isolation\<close>

lemma compatible_shared: "compatible SHARED h \<longleftrightarrow> h \<noteq> Some EXCLUSIVE"
  unfolding compatible_def by (cases h) (auto intro: LockMode.exhaust)

lemma reachable_inv:
  assumes "dbs.reachable m0 (s, T, m)"
  obtains cur rs where "sys_inv m0 s T m cur rs"
  using reachable_ok [OF assms] by (auto simp: sys_ok_def)

lemma get_isolated:
  assumes "dbs.reachable m0 (s, T, m)" "T i = Some t" "Txn_Get key (t, s) = (r, (t', s'))"
  shows "t' = t \<and> r = (if \<exists>j. j \<noteq> i \<and> j \<noteq> INVALID_TXN_ID \<and> held (locks s) j key = Some EXCLUSIVE then Inl Deadlock_exception
     else Inr (case write_set t key of None \<Rightarrow> m key | Some e \<Rightarrow> entry_after e))"
proof -
  obtain cur rs where inv: "sys_inv m0 s T m cur rs" using reachable_inv [OF assms(1)] .
  note I = sys_invD [OF inv] and Ti = txn_invD [OF sys_invD(4) [OF inv assms(2)]]
  obtain g l where lk: "lock_attempt i key SHARED (locks s) = (g, l)" by (cases "lock_attempt i key SHARED (locks s)")
  note A = lock_attempt_run [OF I(3) Ti(3) lk]
  have g: "\<not> g \<longleftrightarrow> (\<exists>j. j \<noteq> i \<and> j \<noteq> INVALID_TXN_ID \<and> held (locks s) j key = Some EXCLUSIVE)"
    unfolding A(2) compatible_shared by blast
  have val: "cur key = (case write_set t key of None \<Rightarrow> m key | Some e \<Rightarrow> entry_after e)" if "g"
  proof (cases "write_set t key")
    case None
    have "write_set u key = None" if "T j = Some u" for j u
    proof (cases "j = i")
      case False
      then show ?thesis using txn_invD(3,5) [OF I(4) [OF that]] g \<open>g\<close> by (cases "write_set u key") auto
    qed (use that None assms(2) in simp)
    then show ?thesis using None I(5) by simp
  qed (use Ti(7) in simp)
  have run: "g \<Longrightarrow> \<exists>s1. Txn_Get key (t, s) = (Inr (cur key), (t, s1))" "\<not> g \<Longrightarrow> \<exists>s1. Txn_Get key (t, s) = (Inl Deadlock_exception, (t, s1))"
    using Txn_Get_run [OF I(1) Ti(2), of key l] refused(1) [of t key SHARED s l] lk Ti(1,2) by auto
  show ?thesis using run assms(3) val unfolding g [symmetric] by (cases g) auto
qed

text \<open>C3. No dirty and no non-repeatable read: whatever other transactions do, \<open>Get\<close> returns what the
  transaction itself last wrote to the key, and otherwise the value of the committed map. It fails
  exactly if another transaction holds the key exclusively; it then throws and the transaction is as
  before.\<close>

theorem Txn_Get_isolated:
  assumes "dbs.reachable m0 (s, T, m)" "T i = Some t" "Txn_Get key (t, s) = (r, (t', s'))"
  shows "t' = t \<and> r = (if \<exists>j. j \<noteq> i \<and> j \<noteq> INVALID_TXN_ID \<and> held (locks s) j key = Some EXCLUSIVE then Inl Deadlock_exception
     else Inr (case write_set t key of None \<Rightarrow> m key | Some e \<Rightarrow> entry_after e))"
  by (rule get_isolated [OF assms])

theorem Txn_Get_isolated_witness: "\<exists>s'. Txn_Get [5] sample_wrote = (Inr (Some [6]), s')"
proof -
  obtain s where s: "sample_wrote = (wrote first_txn [5] first_entry, s)"
    "dbs.reachable Map.empty (s, [1 \<mapsto> wrote first_txn [5] first_entry], Map.empty)"
    by (rule sample_wrote_ok) blast
  obtain cur rs where inv: "sys_inv Map.empty s [1 \<mapsto> wrote first_txn [5] first_entry] Map.empty cur rs" using reachable_inv [OF s(2)] .
  have "held (locks s) 1 [5] = Some EXCLUSIVE" using txn_invD(5) [OF sys_invD(4) [OF inv, of 1 "wrote first_txn [5] first_entry"], of "[5]"] by simp
  then have none: "\<not> (\<exists>j. j \<noteq> 1 \<and> j \<noteq> INVALID_TXN_ID \<and> held (locks s) j [5] = Some EXCLUSIVE)" using held_exclusive_unique by blast
  obtain r t' s' where "Txn_Get [5] (wrote first_txn [5] first_entry, s) = (r, (t', s'))"
    by (cases "Txn_Get [5] (wrote first_txn [5] first_entry, s)") auto
  with Txn_Get_isolated [OF s(2) _ this] none s(1) show ?thesis by (auto simp: entry_after_def)
qed

text \<open>C8. Two-phase locking: in every reachable state, under any interleaving, a key that an open
  transaction has written is exclusively locked by it, so that no two open transactions have written
  the same key.\<close>

theorem writes_are_locked:
  assumes "dbs.reachable m0 (s, T, m)" "T i = Some t" "write_set t k \<noteq> None"
  shows "held (locks s) i k = Some EXCLUSIVE \<and> (\<forall>j u. T j = Some u \<longrightarrow> write_set u k \<noteq> None \<longrightarrow> j = i)"
proof -
  obtain cur rs where inv: "sys_inv m0 s T m cur rs" using reachable_inv [OF assms(1)] .
  show ?thesis using txn_invD(5) [OF sys_invD(4) [OF inv assms(2)]] writes_disjoint [OF inv _ assms(2)] assms(3) by blast
qed

theorem writes_are_locked_witness: "\<exists>t s. sample_wrote = (t, s) \<and> held (locks s) 1 [5] = Some EXCLUSIVE"
proof -
  obtain s where s: "sample_wrote = (wrote first_txn [5] first_entry, s)"
    "dbs.reachable Map.empty (s, [1 \<mapsto> wrote first_txn [5] first_entry], Map.empty)"
    by (rule sample_wrote_ok) blast
  let ?t = "wrote first_txn [5] first_entry"
  have "[1 \<mapsto> ?t] 1 = Some ?t" "write_set ?t [5] \<noteq> None" by simp_all
  from writes_are_locked [OF s(2) this] show ?thesis unfolding s(1) by blast
qed

text \<open>C29. Every reachable state is well-formed: the pool's tables agree with each other and with the
  disk, the tree is an ordered tree on live pages, the log parses, the lock table is consistent, and the
  open transactions are open and known by their ids.\<close>

theorem reachable_well_formed:
  assumes "dbs.reachable m0 (s, T, m)"
  shows "pool_inv s \<and> lm_ok (locks s) \<and> (\<exists>cur rs. tree_holds s cur \<and> log_inv (wal s) rs) \<and>
    (\<forall>i t. T i = Some t \<longrightarrow> txn_id t = i \<and> \<not> txn_done t)"
proof -
  obtain cur rs where inv: "sys_inv m0 s T m cur rs" using reachable_inv [OF assms(1)] .
  note I = sys_invD [OF inv]
  have "tree_holds s cur" "log_inv (wal s) rs" using I(1) by (simp_all add: db_holds_def)
  moreover from this(1) have "pool_inv s" using cachedD(1) by (auto simp: tree_holds_def holds_tree_def)
  ultimately show ?thesis using I(3) txn_invD(1,2) [OF I(4)] by blast
qed

theorem reachable_well_formed_witness: "pool_inv (snd sample_wrote) \<and> lm_ok (locks (snd sample_wrote))"
proof -
  obtain s where s: "sample_wrote = (wrote first_txn [5] first_entry, s)"
    "dbs.reachable Map.empty (s, [1 \<mapsto> wrote first_txn [5] first_entry], Map.empty)"
    by (rule sample_wrote_ok) blast
  from reachable_well_formed [OF s(2)] show ?thesis unfolding s(1) by simp
qed

subsection \<open>Writing and rolling back\<close>

text \<open>C13. \<open>Put\<close>, on every branch. With the lock granted, the write is in the tree, the write set has the
  value from before the transaction as before image, and the log ends with a record of the write with
  both images, appended before the tree changed. With the lock refused it throws, and neither the map
  nor the log nor the transaction change.\<close>

theorem Txn_Put_correct:
  assumes "db_holds s m rs" "log_room s" "txn_ok t" "\<not> txn_done t" "tree_can_put key val s"
    "lock_attempt (txn_id t) key EXCLUSIVE (locks s) = (granted, l)"
  shows "if granted
    then \<exists>s'. Txn_Put key val (t, s) = (Inr (), (wrote t key (next_entry t m key val), s')) \<and> locks s' = l \<and>
      tree_holds s' (m(key \<mapsto> val)) \<and>
      read_all (wal s') = (Inr (map stored (rs @ [write_rec t key (next_entry t m key val) val (next_lsn (wal s))])), wal s')
    else Txn_Put key val (t, s) = (Inl Deadlock_exception, (t, s\<lparr>locks := lock_timeout key l\<rparr>))"
proof (cases granted)
  case True
  with Txn_Put_run [OF assms(1-5)] assms(6) show ?thesis by (fastforce simp: db_holds_def dest: read_all_run)
next
  case False
  with refused(2) [of t key EXCLUSIVE s l] assms(4,6) show ?thesis by simp
qed

theorem Txn_Put_correct_witness:
  "\<exists>s. Txn_Put [5] [6] sample_begun = (Inr (), (wrote first_txn [5] first_entry, s)) \<and> tree_holds s [[5] \<mapsto> [6]]"
proof -
  obtain s where s: "sample_begun = (first_txn, s)" "db_holds s Map.empty [mark_rec WAL_BEGIN 1 1]" "unat (num_pages s) \<le> 2"
    "locks s = LockManager_new" "log_room s"
    by (rule sample_begun_ok) blast
  have can: "tree_can_put [5] [6] s" using s(3) by (simp add: tree_can_put_def)
  obtain l where l: "lock_attempt (txn_id first_txn) [5] EXCLUSIVE (locks s) = (True, l)"
    by (simp add: s(4) lock_attempt_def get_or_create_def LockManager_new_def can_grant_def)
  have "next_entry first_txn Map.empty [5] [6] = first_entry" by (simp add: next_entry_def)
  with Txn_Put_correct [OF s(2,5) _ _ can l] s(1) show ?thesis by (auto simp: txn_ok_def)
qed

text \<open>C7. A rollback takes back exactly the transaction's own writes: every key it wrote has its committed
  value again, in whatever order the write set is walked, all other keys keep what they had, and all
  its locks are free.\<close>

theorem Txn_Rollback_restores:
  assumes "dbs.reachable m0 (s, T, m)" "T i = Some t" "log_room s" "write_order order t"
    "kv_can_all btree_insert btree_remove tree_can_put tree_can_delete (rollback_updates order t) s"
    "Txn_Rollback order (t, s) = (r, (t', s'))"
  shows "r = Inr () \<and> txn_done t' \<and> (\<exists>cur cur'. tree_holds s cur \<and> tree_holds s' cur' \<and>
    (\<forall>k. cur' k = (if write_set t k = None then cur k else m k))) \<and> (\<forall>k. held (locks s') i k = None)"
proof -
  obtain cur rs where inv: "sys_inv m0 s T m cur rs" using reachable_inv [OF assms(1)] .
  note I = sys_invD [OF inv] and Ti = txn_invD [OF sys_invD(4) [OF inv assms(2)]]
  obtain s1 where s1: "Txn_Rollback order (t, s) = (Inr (), (ended t, s1))" "db_holds s1 (restored t cur) (rs @ [mark_rec WAL_ABORT i (next_lsn (wal s))])"
    "locks s1 = release_all i (locks s)"
    using Txn_Rollback_run [OF I(1) assms(3) Ti(2) assms(4,5)] Ti(1) by auto
  have "restored t cur k = (if write_set t k = None then cur k else m k)" for k
    using Ti(6) [of k] by (auto simp: restored_def split: option.split)
  moreover have "held (locks s1) i k = None" for k using release_all_run(2) [OF I(3) Ti(3,3)] s1(3) by simp
  moreover have "tree_holds s cur" "tree_holds s1 (restored t cur)" using s1(2) I(1) by (simp_all add: db_holds_def)
  ultimately have "\<exists>cur cur'. tree_holds s cur \<and> tree_holds s1 cur' \<and> (\<forall>k. cur' k = (if write_set t k = None then cur k else m k))"
    "\<forall>k. held (locks s1) i k = None" by blast+
  then show ?thesis using s1(1) assms(6) by simp
qed

theorem Txn_Rollback_restores_witness: "\<exists>t s. Txn_Rollback [[5]] sample_wrote = (Inr (), (t, s)) \<and> fst (btree_get [5] s) = Inr None"
proof -
  obtain s pid where s: "sample_wrote = (wrote first_txn [5] first_entry, s)" "log_room s" "holds_tree s (Leaf pid [([5], [6])])"
    "unat (num_pages s) \<le> 2" "dbs.reachable Map.empty (s, [1 \<mapsto> wrote first_txn [5] first_entry], Map.empty)"
    by (rule sample_wrote_ok) blast
  let ?t = "wrote first_txn [5] first_entry"
  have order: "write_order [[5]] ?t" by (simp add: write_order_def)
  have can: "kv_can_all btree_insert btree_remove tree_can_put tree_can_delete (rollback_updates [[5]] ?t) s"
    by (rule leaf_can_all [OF s(3)])
      (use s(4) in \<open>simp_all add: rollback_updates_def entry_update_def space_def cost_def encode_leaf leaf_cell_size_def\<close>)
  obtain r t' s' where run: "Txn_Rollback [[5]] (?t, s) = (r, (t', s'))" by (cases "Txn_Rollback [[5]] (?t, s)") auto
  have "[1 \<mapsto> ?t] 1 = Some ?t" by simp
  from Txn_Rollback_restores [OF s(5) this s(2) order can run] obtain cur' where
    r: "r = Inr ()" "tree_holds s' cur'" "cur' [5] = None" by auto
  with bt.get_law [OF r(2), of "[5]"] run s(1) show ?thesis by auto
qed

text \<open>A transaction that has ended refuses every further operation with an exception and without any
  effect, and its destructor does nothing.\<close>

theorem ended_transaction_refuses:
  assumes "txn_done t"
  shows "Txn_Get key (t, s) = (Inl Runtime_error, (t, s)) \<and> Txn_Put key val (t, s) = (Inl Runtime_error, (t, s)) \<and>
    Txn_Delete key (t, s) = (Inl Runtime_error, (t, s)) \<and> Txn_Commit (t, s) = (Inl Runtime_error, (t, s)) \<and>
    Txn_Rollback order (t, s) = (Inl Runtime_error, (t, s)) \<and> Txn_destroy order (t, s) = (Inr (), (t, s))"
  using ended_throws [OF assms] by blast

theorem ended_transaction_refuses_witness: "Txn_Commit (ended first_txn, sample_new) = (Inl Runtime_error, (ended first_txn, sample_new))"
  using ended_transaction_refuses [of "ended first_txn" "[]" sample_new "[]" "[]"] by simp

subsection \<open>Durability\<close>

text \<open>A key written by nobody but rolled back transactions has the value of the beginning.\<close>

lemma untouched_value:
  assumes inv: "sys_inv m0 s T m cur rs"
    and k: "\<forall>r \<in> set rs. has_type WAL_WRITE r \<longrightarrow> rec_key r = k \<longrightarrow> rec_txn_id r \<in> txns_with WAL_ABORT rs"
  shows "cur k = m0 k"
proof -
  have L: "logged m0 rs m (written_by T)" using sys_invD(2) [OF inv] by (simp add: log_ok_def)
  note S = log_statusD [OF logged_status [OF L]] and V = logged_values [OF L]
  have "write_set t k = None" if t: "T i = Some t" for i t
  proof (rule ccontr)
    assume w: "write_set t k \<noteq> None"
    have p: "written_by T i = Some (\<lambda>k. map_option entry_after (write_set t k))" using t by (simp add: written_by_def)
    obtain r where "r \<in> set rs" "has_type WAL_WRITE r" "rec_txn_id r = i" "rec_key r = k" using wrote_key [OF V p, of k] w by auto
    then have "i \<in> txns_with WAL_ABORT rs" using k by blast
    moreover have "i \<in> dom (written_by T)" using p by blast
    ultimately show False using S(2) by blast
  qed
  then have "cur k = m k" by (rule sys_invD(5) [OF inv])
  moreover have "last_write (\<lambda>t. t \<in> txns_with WAL_COMMIT rs) k rs = None" using k S(3) by (auto simp: last_write_None)
  ultimately show ?thesis using log_valuesD(1) [OF V, of k] by simp
qed

lemma inv_records:
  assumes "sys_inv m0 s T m cur rs"
  shows "map stored rs = rs" "\<forall>r \<in> set rs. wal_wf r" "wal_file (wal s) = log_bytes rs" "logged m0 rs m (written_by T)"
  using sys_invD(1,2) [OF assms] by (auto simp: log_ok_def db_holds_def log_inv_def intro: map_idI)

text \<open>A tree on disk with a log, opened again.\<close>

lemma reopen_logged:
  fixes s :: "'a engine_scheme"
  assumes "tree_holds s cur" "on_disk s" "\<forall>r \<in> set rs. wal_wf r" "wal_file (wal s) = log_bytes rs"
    and "\<And>lg records. LogManager_open (wal_file (wal s)) [] = Inr lg \<Longrightarrow> read_all lg = (Inr records, lg) \<Longrightarrow>
      kv_can_all btree_insert btree_remove tree_can_put tree_can_delete (redo_updates records @ undo_updates records) (reopened s lg)"
  shows "\<exists>s'. DB_Open (db_file s) (file_size s) [] (wal_file (wal s)) [] = Inr s' \<and> fresh_db (recovered (map stored rs) cur) s'"
  using DB_Open_run [OF assms(1-3)] assms(4,5) open_log [OF assms(3)] by (metis Inr_inject)

lemma destroy_run:
  fixes s :: "'a db_scheme"
  assumes "tree_holds s m"
  shows "\<exists>s'. DB_destroy s = (Inr (), s') \<and> tree_holds s' m \<and> on_disk s' \<and> wal s' = wal s \<and> locks s' = locks s \<and> num_pages s' = num_pages s"
proof -
  obtain s' where "flush_all s = (Inr (), s')" "tree_holds s' m" "on_disk s'" "num_pages s' = num_pages s" "btree.more s' = btree.more s"
    using flush_tree_run [OF assms] by blast
  then show ?thesis using more_db [of s' s] by (simp add: DB_destroy_def BufferPool_destroy_def)
qed

text \<open>C1. A committed transaction survives a restart. When \<open>Commit\<close> has returned, in any reachable state
  and with any number of other transactions open, opening the two files again yields the committed map
  with the writes of this transaction, and nothing of the transactions that were still open. The
  reopened database is a fresh one: its log is empty, no lock is held and all its pages are on disk.\<close>

theorem commit_durable:
  assumes "dbs.reachable m0 (s, T, m)" "T i = Some t" "log_room s" "Txn_Commit (t, s) = (r, (t', s'))"
    and "\<And>lg records. LogManager_open (wal_file (wal s')) [] = Inr lg \<Longrightarrow> read_all lg = (Inr records, lg) \<Longrightarrow>
      kv_can_all btree_insert btree_remove tree_can_put tree_can_delete (redo_updates records @ undo_updates records) (reopened s' lg)"
  shows "r = Inr () \<and> (\<exists>s''. DB_Open (db_file s') (file_size s') [] (wal_file (wal s')) [] = Inr s'' \<and> fresh_db (committed_by t m) s'')"
proof -
  obtain cur rs where inv: "sys_inv m0 s T m cur rs" using reachable_inv [OF assms(1)] .
  note I = sys_invD [OF inv] and Ti = txn_invD [OF sys_invD(4) [OF inv assms(2)]]
  let ?rs = "rs @ [mark_rec WAL_COMMIT i (next_lsn (wal s))]"
  obtain s1 where s1: "Txn_Commit (t, s) = (Inr (), (ended t, s1))" "db_holds s1 cur ?rs" "on_disk s1"
    "locks s1 = release_all i (locks s)" "wal s1 = log_next (mark_rec WAL_COMMIT i (next_lsn (wal s))) (wal s)"
    using Txn_Commit_run [OF I(1) assms(3) Ti(2)] Ti(1) by auto
  have r: "r = Inr ()" "s' = s1" using s1(1) assms(4) by simp_all
  have inv1: "sys_inv m0 s1 (T(i := None)) (committed_by t m) cur ?rs" by (rule sys_inv_commit [OF inv assms(2) s1(2,4,5)])
  note R = inv_records [OF inv1]
  have h: "tree_holds s' cur" "on_disk s'" "wal_file (wal s') = log_bytes ?rs" using s1(2,3) r(2) R(3) by (simp_all add: db_holds_def)
  have "\<exists>s''. DB_Open (db_file s') (file_size s') [] (wal_file (wal s')) [] = Inr s'' \<and> fresh_db (recovered (map stored ?rs) cur) s''"
    by (rule reopen_logged [OF h(1,2) R(2) h(3)]) (rule assms(5))
  moreover have "recovered (map stored ?rs) cur = committed_by t m"
    unfolding R(1) by (rule recovered_committed [OF R(4)]) (rule untouched_value [OF inv1])
  ultimately show ?thesis using r(1) by simp
qed

theorem commit_durable_witness:
  "\<exists>t s s'. Txn_Commit sample_wrote = (Inr (), (t, s)) \<and>
    DB_Open (db_file s) (file_size s) [] (wal_file (wal s)) [] = Inr s' \<and> fst (btree_get [5] s') = Inr (Some [6])"
proof -
  let ?t = "wrote first_txn [5] first_entry" and ?w = "write_rec first_txn [5] first_entry [6] 2"
  obtain s where s: "sample_wrote = (?t, s)" "db_holds s [[5] \<mapsto> [6]] [mark_rec WAL_BEGIN 1 1, ?w]" "unat (num_pages s) \<le> 2"
    "log_room s" "next_lsn (wal s) = 3" "dbs.reachable Map.empty (s, [1 \<mapsto> ?t], Map.empty)"
    by (rule sample_wrote_ok) blast
  have t: "[1 \<mapsto> ?t] 1 = Some ?t" "\<not> txn_done ?t" by simp_all
  let ?rs = "[mark_rec WAL_BEGIN 1 1, ?w, mark_rec WAL_COMMIT 1 3]"
  obtain s' where s': "Txn_Commit (?t, s) = (Inr (), (ended ?t, s'))" "db_holds s' [[5] \<mapsto> [6]] ?rs" "on_disk s'" "num_pages s' = num_pages s"
    using Txn_Commit_run [OF s(2,4) t(2)] s(5) by auto
  have lf: "wal_file (wal s') = log_bytes ?rs" "\<forall>r \<in> set ?rs. wal_wf r" using s'(2) unfolding db_holds_def log_inv_def by blast+
  have us: "map stored ?rs = ?rs" "redo_updates ?rs @ undo_updates ?rs = [Put_key [5] [6]]"
    by (simp_all add: stored_def mark_rec_def write_rec_def new_WalRecord_def redo_updates_def undo_updates_def writes_of_def
        txns_with_def analysis_def analysis_step_def has_type_def after_update_def)
  obtain u where u: "holds_tree s' u" using s'(2) by (auto simp: db_holds_def tree_holds_def)
  have can: "kv_can_all btree_insert btree_remove tree_can_put tree_can_delete (redo_updates records @ undo_updates records) (reopened s' lg)"
    if "LogManager_open (wal_file (wal s')) [] = Inr lg" "read_all lg = (Inr records, lg)" for lg records
  proof -
    have "records = ?rs" using open_log [OF lf(2)] that lf(1) us(1) by auto
    then show ?thesis using us(2) reopened_holds(2) [OF u s'(3), of lg] s(3) s'(4) by (simp add: tree_can_put_def)
  qed
  obtain s'' where
    s'': "DB_Open (db_file s') (file_size s') [] (wal_file (wal s')) [] = Inr s''" "fresh_db (committed_by ?t Map.empty) s''"
    using commit_durable [OF s(6) t(1) s(4) s'(1)] can by blast
  have "tree_holds s'' (committed_by ?t Map.empty)" using s''(2) by (simp add: fresh_db_def db_holds_def)
  from bt.get_law [OF this, of "[5]"] have "fst (btree_get [5] s'') = Inr (Some [6])" by (auto simp: committed_by_def entry_after_def)
  then show ?thesis using s(1) s'(1) s''(1) by auto
qed

text \<open>C6. A database object that goes away without \<open>Close\<close> loses nothing and keeps nothing uncommitted: from any
  reachable state, with any transactions open, opening the files again after the destructor has run
  yields exactly the committed map.\<close>

theorem destroy_reopen:
  assumes "dbs.reachable m0 (s, T, m)" "DB_destroy s = (r, s')"
    and "\<And>lg records. LogManager_open (wal_file (wal s')) [] = Inr lg \<Longrightarrow> read_all lg = (Inr records, lg) \<Longrightarrow>
      kv_can_all btree_insert btree_remove tree_can_put tree_can_delete (redo_updates records @ undo_updates records) (reopened s' lg)"
  shows "r = Inr () \<and> (\<exists>s''. DB_Open (db_file s') (file_size s') [] (wal_file (wal s')) [] = Inr s'' \<and> fresh_db m s'')"
proof -
  obtain cur rs where inv: "sys_inv m0 s T m cur rs" using reachable_inv [OF assms(1)] .
  note R = inv_records [OF inv]
  have "tree_holds s cur" using sys_invD(1) [OF inv] by (simp add: db_holds_def)
  from destroy_run [OF this] assms(2) have s': "r = Inr ()" "tree_holds s' cur" "on_disk s'" "wal s' = wal s" by auto
  have lf: "wal_file (wal s') = log_bytes rs" using R(3) s'(4) by simp
  have "\<exists>s''. DB_Open (db_file s') (file_size s') [] (wal_file (wal s')) [] = Inr s'' \<and> fresh_db (recovered (map stored rs) cur) s''"
    by (rule reopen_logged [OF s'(2,3) R(2) lf]) (rule assms(3))
  moreover have "recovered (map stored rs) cur = m"
    unfolding R(1) by (rule recovered_committed [OF R(4)]) (rule untouched_value [OF inv])
  ultimately show ?thesis using s'(1) by simp
qed

lemma sample_records:
  defines "rs \<equiv> [mark_rec WAL_BEGIN 1 1, write_rec first_txn [5] first_entry [6] 2]"
  shows "map stored rs = rs" "txns_with WAL_ABORT rs = {}" "redo_updates rs @ undo_updates rs = [Put_key [5] [6], Delete_key [5]]"
  unfolding rs_def
  by (simp_all add: stored_def mark_rec_def write_rec_def new_WalRecord_def redo_updates_def undo_updates_def writes_of_def
      txns_with_def analysis_def analysis_step_def has_type_def after_update_def before_update_def)

lemma sample_can_reopen:
  fixes s :: "'a engine_scheme"
  defines "rs \<equiv> [mark_rec WAL_BEGIN 1 1, write_rec first_txn [5] first_entry [6] 2]"
  assumes "wal_file (wal s) = log_bytes rs" "\<forall>r \<in> set rs. wal_wf r" "holds_tree s (Leaf pid [([5], [6])])" "on_disk s" "unat (num_pages s) \<le> 2"
    "LogManager_open (wal_file (wal s)) [] = Inr lg" "read_all lg = (Inr records, lg)"
  shows "kv_can_all btree_insert btree_remove tree_can_put tree_can_delete (redo_updates records @ undo_updates records) (reopened s lg)"
proof -
  note st = sample_records [folded rs_def]
  have "records = rs" using open_log [OF assms(3)] assms(2,7,8) st(1) by auto
  then show ?thesis unfolding st(3)
    by - (rule leaf_can_all [OF reopened_holds(1) [OF assms(4,5)]], use st(3) assms(6) reopened_holds(2) [OF assms(4,5), of lg] in
        \<open>simp_all add: space_def cost_def encode_leaf leaf_cell_size_def\<close>)
qed

theorem destroy_reopen_witness:
  "\<exists>s s'. DB_destroy (snd sample_wrote) = (Inr (), s) \<and> DB_Open (db_file s) (file_size s) [] (wal_file (wal s)) [] = Inr s' \<and>
    fresh_db Map.empty s'"
proof -
  let ?t = "wrote first_txn [5] first_entry" and ?w = "write_rec first_txn [5] first_entry [6] 2"
  obtain s pid where s: "sample_wrote = (?t, s)" "db_holds s [[5] \<mapsto> [6]] [mark_rec WAL_BEGIN 1 1, ?w]" "unat (num_pages s) \<le> 2"
    "holds_tree s (Leaf pid [([5], [6])])" "dbs.reachable Map.empty (s, [1 \<mapsto> ?t], Map.empty)"
    by (rule sample_wrote_ok) blast
  let ?rs = "[mark_rec WAL_BEGIN 1 1, ?w]"
  obtain s' where s': "flush_all s = (Inr (), s')" "holds_tree s' (Leaf pid [([5], [6])])" "on_disk s'" "num_pages s' = num_pages s"
    "btree.more s' = btree.more s"
    using tree_flush_law [OF s(4)] by blast
  have run: "DB_destroy s = (Inr (), s')" using s'(1) by (simp add: DB_destroy_def BufferPool_destroy_def)
  have lf: "wal_file (wal s') = log_bytes ?rs" "\<forall>r \<in> set ?rs. wal_wf r"
    unfolding more_db(1) [OF s'(5)] using s(2) unfolding db_holds_def log_inv_def by blast+
  have can: "kv_can_all btree_insert btree_remove tree_can_put tree_can_delete (redo_updates records @ undo_updates records) (reopened s' lg)"
    if "LogManager_open (wal_file (wal s')) [] = Inr lg" "read_all lg = (Inr records, lg)" for lg records
    by (rule sample_can_reopen [OF lf s'(2,3) _ that]) (use s(3) s'(4) in simp)
  have "(Inr () :: exc + unit) = Inr () \<and> (\<exists>s''. DB_Open (db_file s') (file_size s') [] (wal_file (wal s')) [] = Inr s'' \<and> fresh_db Map.empty s'')"
    by (rule destroy_reopen [OF s(5) run]) (rule can)
  then show ?thesis unfolding s(1) using run by auto
qed

text \<open>C2. A crash between two operations loses nothing. Take any reachable state and what a crash left: the log,
  and a tree on disk that has any values for the keys which transactions wrote that were not rolled
  back, and the initial values for all others. Recovery then restores the committed map, and counts the
  transactions that were open.\<close>

theorem crash_recovery:
  fixes c :: "'a engine_scheme"
  assumes "dbs.reachable m0 (s, T, m)" "wal_faults (wal c) = []" "wal_file (wal c) = wal_file (wal s)"
    "tree_holds c d" "read_all (wal c) = (Inr records, w)"
    "\<And>k. (\<forall>r \<in> set records. has_type WAL_WRITE r \<longrightarrow> rec_key r = k \<longrightarrow> rec_txn_id r \<in> txns_with WAL_ABORT records) \<Longrightarrow> d k = m0 k"
    "kv_can_all btree_insert btree_remove tree_can_put tree_can_delete (redo_updates records @ undo_updates records) c"
  shows "\<exists>c'. recover c = (Inr (card (dom T)), c') \<and> tree_holds c' m"
proof -
  obtain cur rs where inv: "sys_inv m0 s T m cur rs" using reachable_inv [OF assms(1)] .
  note R = inv_records [OF inv]
  have rd: "records = rs" "w = wal c" using read_all_file [OF assms(2), of rs] assms(3,5) R(1-3) by auto
  have "c\<lparr>wal := wal c\<rparr> = c" by simp
  then obtain c' where c': "recover c = (Inr (card (analysis rs)), c')" "tree_holds c' (recovered rs d)"
    using recover_run [OF assms(4,5)] assms(7) rd by auto
  have "dom (written_by T) = dom T" by (auto simp: written_by_def)
  then show ?thesis
    using c' recovered_committed [OF R(4), of d] assms(6) rd(1) log_statusD(1) [OF logged_status [OF R(4)]] by auto
qed

theorem crash_recovery_witness:
  "\<exists>s s'. recover (snd sample_wrote) = (Inr 1, s) \<and> btree_get [5] s = (Inr None, s')"
proof -
  let ?t = "wrote first_txn [5] first_entry" and ?w = "write_rec first_txn [5] first_entry [6] 2"
  obtain s pid where s: "sample_wrote = (?t, s)" "db_holds s [[5] \<mapsto> [6]] [mark_rec WAL_BEGIN 1 1, ?w]" "unat (num_pages s) \<le> 2"
    "holds_tree s (Leaf pid [([5], [6])])" "dbs.reachable Map.empty (s, [1 \<mapsto> ?t], Map.empty)"
    by (rule sample_wrote_ok) blast
  let ?rs = "[mark_rec WAL_BEGIN 1 1, ?w]"
  have h: "tree_holds s [[5] \<mapsto> [6]]" "wal_faults (wal s) = []" "log_inv (wal s) ?rs" using s(2) by (auto simp: db_holds_def log_inv_def)
  note st = sample_records
  have rd: "read_all (wal s) = (Inr ?rs, wal s)" using read_all_run [OF h(3)] st(1) by simp
  have can: "kv_can_all btree_insert btree_remove tree_can_put tree_can_delete (redo_updates ?rs @ undo_updates ?rs) s"
    unfolding st(3) by (rule leaf_can_all [OF s(4)]) (use s(3) in \<open>simp_all add: space_def cost_def encode_leaf leaf_cell_size_def\<close>)
  have key: "[[5] \<mapsto> [6]] k = Map.empty k"
    if "\<forall>r \<in> set ?rs. has_type WAL_WRITE r \<longrightarrow> rec_key r = k \<longrightarrow> rec_txn_id r \<in> txns_with WAL_ABORT ?rs" for k
    using that by (auto simp: st(2) write_rec_images)
  have "\<exists>s'. recover s = (Inr (card (dom [(1 :: txn_id) \<mapsto> ?t])), s') \<and> tree_holds s' Map.empty"
    by (rule crash_recovery [OF s(5) h(2) refl h(1) rd _ can]) (erule key)
  then obtain s' where s': "recover s = (Inr (card (dom [(1 :: txn_id) \<mapsto> ?t])), s')" "tree_holds s' Map.empty" by blast
  with bt.get_law [OF s'(2), of "[5]"] show ?thesis unfolding s(1) by auto
qed

text \<open>C11. Recovery may itself be interrupted. Take any reachable state and what a crash left, as above, with every
  redo and undo within the limits of the tree. If recovery of it stops after any number of its steps and
  the pages are written when the pool is destroyed, then opening the files again succeeds and yields exactly the committed map.\<close>

theorem interrupted_recovery_completes:
  fixes c :: "'a engine_scheme"
  assumes "dbs.reachable m0 (s, T, m)" "wal_faults (wal c) = []" "wal_file (wal c) = wal_file (wal s)"
    "tree_holds c d" "read_all (wal c) = (Inr records, w)"
    "\<And>k. (\<forall>r \<in> set records. has_type WAL_WRITE r \<longrightarrow> rec_key r = k \<longrightarrow> rec_txn_id r \<in> txns_with WAL_ABORT records) \<Longrightarrow> d k = m0 k"
    "kv_can_all btree_insert btree_remove tree_can_put tree_can_delete (redo_updates records @ undo_updates records) c"
    "op_foreach (\<lambda>step. step) (take n (recovery_steps records)) c = (r1, c1)" "BufferPool_destroy c1 = (r2, c2)"
    and "\<And>lg records. LogManager_open (wal_file (wal c2)) [] = Inr lg \<Longrightarrow> read_all lg = (Inr records, lg) \<Longrightarrow>
      kv_can_all btree_insert btree_remove tree_can_put tree_can_delete (redo_updates records @ undo_updates records) (reopened c2 lg)"
  shows "r1 = Inr () \<and> r2 = Inr () \<and> (\<exists>s'. DB_Open (db_file c2) (file_size c2) [] (wal_file (wal c2)) [] = Inr s' \<and> fresh_db m s')"
proof -
  obtain cur rs where inv: "sys_inv m0 s T m cur rs" using reachable_inv [OF assms(1)] .
  note R = inv_records [OF inv]
  have rd: "records = rs" using read_all_file [OF assms(2), of rs] assms(3,5) R(1-3) by auto
  obtain d1 where c1: "r1 = Inr ()" "tree_holds c1 d1" "wal c1 = wal c"
    "\<And>k. (\<forall>r \<in> set rs. has_type WAL_WRITE r \<longrightarrow> rec_key r = k \<longrightarrow> rec_txn_id r \<in> txns_with WAL_ABORT rs) \<Longrightarrow> d1 k = d k"
    using interrupted_run [OF assms(4) logged_status [OF R(4)], of n] assms(7,8) rd by auto
  obtain c' where "flush_all c1 = (Inr (), c')" "tree_holds c' d1" "on_disk c'" "btree.more c' = btree.more c1"
    using flush_tree_run [OF c1(2)] by blast
  then have c2: "r2 = Inr ()" "tree_holds c2 d1" "on_disk c2" "wal c2 = wal c"
    using assms(9) more_wal [of c' c1] c1(3) by (auto simp: BufferPool_destroy_def)
  have lf: "wal_file (wal c2) = log_bytes rs" using R(3) c2(4) assms(3) by simp
  have "\<exists>s'. DB_Open (db_file c2) (file_size c2) [] (wal_file (wal c2)) [] = Inr s' \<and> fresh_db (recovered (map stored rs) d1) s'"
    by (rule reopen_logged [OF c2(2,3) R(2) lf]) (rule assms(10))
  moreover have "recovered (map stored rs) d1 = m"
    unfolding R(1) by (rule recovered_committed [OF R(4)]) (use c1(4) assms(6) rd in simp)
  ultimately show ?thesis using c1(1) c2(1) by simp
qed

theorem interrupted_recovery_completes_witness:
  "\<exists>c1 c2 s'. op_foreach (\<lambda>step. step) (take 2 (recovery_steps [mark_rec WAL_BEGIN 1 1, write_rec first_txn [5] first_entry [6] 2])) (snd sample_wrote) =
      (Inr (), c1) \<and> BufferPool_destroy c1 = (Inr (), c2) \<and>
    DB_Open (db_file c2) (file_size c2) [] (wal_file (wal c2)) [] = Inr s' \<and> fresh_db Map.empty s'"
proof -
  let ?t = "wrote first_txn [5] first_entry" and ?w = "write_rec first_txn [5] first_entry [6] 2"
  obtain s pid where s: "sample_wrote = (?t, s)" "db_holds s [[5] \<mapsto> [6]] [mark_rec WAL_BEGIN 1 1, ?w]" "unat (num_pages s) \<le> 2"
    "holds_tree s (Leaf pid [([5], [6])])" "dbs.reachable Map.empty (s, [1 \<mapsto> ?t], Map.empty)"
    by (rule sample_wrote_ok) blast
  let ?rs = "[mark_rec WAL_BEGIN 1 1, ?w]"
  note st = sample_records
  have h: "tree_holds s [[5] \<mapsto> [6]]" "wal_faults (wal s) = []" "log_inv (wal s) ?rs" using s(2) by (auto simp: db_holds_def log_inv_def)
  have rd: "read_all (wal s) = (Inr ?rs, wal s)" using read_all_run [OF h(3)] st(1) by simp
  have can: "kv_can_all btree_insert btree_remove tree_can_put tree_can_delete (redo_updates ?rs @ undo_updates ?rs) s"
    unfolding st(3) by (rule leaf_can_all [OF s(4)]) (use s(3) in \<open>simp_all add: space_def cost_def encode_leaf leaf_cell_size_def\<close>)
  have key: "[[5] \<mapsto> [6]] k = Map.empty k"
    if "\<forall>r \<in> set ?rs. has_type WAL_WRITE r \<longrightarrow> rec_key r = k \<longrightarrow> rec_txn_id r \<in> txns_with WAL_ABORT ?rs" for k
    using that by (auto simp: st(2) write_rec_images)
  have "tree_can_put [5] [6] s" using s(3) by (simp add: tree_can_put_def)
  moreover have "fits leaf_tail (put_key [5] [6] [([5], [6])])" by (simp add: fits_space space_def cost_def encode_leaf leaf_cell_size_def)
  ultimately obtain c1 where c1: "btree_insert [5] [6] s = (Inr (), c1)" "holds_tree c1 (Leaf pid [([5], [6])])" "unat (num_pages c1) \<le> 2"
    "btree.more c1 = btree.more s"
    using tree_put_law [OF s(4), of "[5]" "[6]"] s(3) by (auto simp: leaf_stays_def)
  have run: "op_foreach (\<lambda>step. step) (take 2 (recovery_steps ?rs)) s = (Inr (), c1)"
    using c1(1) by (simp add: recovery_steps_def txns_with_def redo_record_def has_type_def mark_rec_def write_rec_def new_WalRecord_def op_simps)
  obtain c2 where c2: "flush_all c1 = (Inr (), c2)" "holds_tree c2 (Leaf pid [([5], [6])])" "on_disk c2" "num_pages c2 = num_pages c1"
    "btree.more c2 = btree.more c1"
    using tree_flush_law [OF c1(2)] by blast
  have d: "BufferPool_destroy c1 = (Inr (), c2)" using c2(1) by (simp add: BufferPool_destroy_def)
  have lf: "wal_file (wal c2) = log_bytes ?rs" "\<forall>r \<in> set ?rs. wal_wf r"
    unfolding more_db(1) [OF c2(5)] more_db(1) [OF c1(4)] using h(3) unfolding log_inv_def by blast+
  have again: "kv_can_all btree_insert btree_remove tree_can_put tree_can_delete (redo_updates records @ undo_updates records) (reopened c2 lg)"
    if "LogManager_open (wal_file (wal c2)) [] = Inr lg" "read_all lg = (Inr records, lg)" for lg records
    by (rule sample_can_reopen [OF lf c2(2,3) _ that]) (use c1(3) c2(4) in simp)
  have "(Inr () :: exc + unit) = Inr () \<and> (Inr () :: exc + unit) = Inr () \<and>
      (\<exists>s'. DB_Open (db_file c2) (file_size c2) [] (wal_file (wal c2)) [] = Inr s' \<and> fresh_db Map.empty s')"
    by (rule interrupted_recovery_completes [OF s(5) h(2) refl h(1) rd _ can run d]) (erule key, rule again)
  then show ?thesis unfolding s(1) using run d by auto
qed

subsection \<open>Opening and closing\<close>

lemma reopen_clean:
  fixes s :: "'a engine_scheme"
  assumes "tree_holds s m" "on_disk s" "wal_file (wal s) = []"
  shows "\<exists>s'. DB_Open (db_file s) (file_size s) [] (wal_file (wal s)) [] = Inr s' \<and> fresh_db m s'"
proof -
  have "redo_updates [] = []" "undo_updates [] = []" "recovered [] m = m"
    by (simp_all add: redo_updates_def undo_updates_def writes_of_def recovered_def)
  with DB_Open_run [OF assms(1,2), of "[]"] assms(3) show ?thesis by auto
qed

text \<open>C21. Closing a database and opening its files again gives the same map, whatever the log contained.\<close>

theorem close_reopen:
  fixes s :: "'a db_scheme"
  assumes "db_holds s m rs"
  shows "\<exists>s' s''. DB_Close s = (Inr (), s') \<and> DB_Open (db_file s') (file_size s') [] (wal_file (wal s')) [] = Inr s'' \<and> fresh_db m s''"
proof -
  obtain s' where s': "DB_Close s = (Inr (), s')" "tree_holds s' m" "on_disk s'" "wal_file (wal s') = []" using DB_Close_run [OF assms] by blast
  with reopen_clean [OF s'(2-4)] show ?thesis by blast
qed

theorem close_reopen_witness:
  "\<exists>s' s''. DB_Close (snd sample_wrote) = (Inr (), s') \<and> DB_Open (db_file s') (file_size s') [] (wal_file (wal s')) [] = Inr s'' \<and>
    fresh_db [[5] \<mapsto> [6]] s''"
proof -
  obtain s where s: "sample_wrote = (wrote first_txn [5] first_entry, s)"
    "db_holds s [[5] \<mapsto> [6]] [mark_rec WAL_BEGIN 1 1, write_rec first_txn [5] first_entry [6] 2]"
    by (rule sample_wrote_ok) blast
  from close_reopen [OF s(2)] show ?thesis unfolding s(1) by simp
qed

text \<open>Opening a file that does not exist yet (one of length 0) creates an empty database, in the
  initial state of the transition system.\<close>

theorem DB_Open_creates:
  "\<exists>s. DB_Open f 0 [] [] [] = Inr s \<and> tree_holds s Map.empty \<and> db_init Map.empty (s, Map.empty, Map.empty)"
proof -
  obtain s pid where s: "DB_Open f 0 [] [] [] = Inr s" "holds_tree s (Leaf pid [])" "locks s = LockManager_new"
    "wal s = \<lparr>wal_file = [], wal_faults = [], next_lsn = 1, next_txn_id = 1\<rparr>"
    using DB_Open_new_run [of f] by blast
  have "tree_holds s Map.empty" using s(2) by (auto simp: tree_holds_def contents_def)
  then show ?thesis using s(1,3,4) by (auto simp: db_init_def db_holds_def log_inv_def values_ok_def)
qed

end
