(* ===== verification/Db_Create.thy ===== *)
theory Db_Create
  imports Db_Props
begin

section \<open>A new database that is not flushed\<close>

text \<open>
  \<open>DB::Open\<close> on an empty file allocates a page for the root and records it on page 0, which is written
  at once, but the root page itself stays in the buffer pool. What is on disk until the first commit or the
  destructor is a header that names an empty page.
\<close>

lemma zero_page_type: "page_type (\<lambda>_. 0) = 0"
proof -
  have "unle (replicate n 0) = 0" for n by (induction n) simp_all
  moreover have "peek (\<lambda>_. 0) 4 4 = replicate 4 0" by (rule nth_equalityI) simp_all
  ultimately show ?thesis by (simp add: page_type_def get32_def)
qed

text \<open>The first page of a pool that holds no page yet.\<close>

lemma first_page:
  assumes "disk_ok s" "unat (num_pages s) < 2147483647" "free_pages s = []" "free_frames s \<noteq> []"
  shows "\<exists>s' fid. new_page s = (Inr (num_pages s, fid), s') \<and> same_disk s' (allocated s) \<and> map_of (page_table s') (num_pages s) = Some fid"
  using allocate_page_run [OF assms(1)] assms(3,4)
  by (simp add: new_page_def fl_allocate_def find_free_frame_def op_simps allocated_def file_write_def same_disk_def upd_frame_def touch_def update_conv)

text \<open>Creating the tree leaves the root page empty on disk.\<close>

lemma create_disk:
  fixes s :: "'a btree_scheme"
  assumes "disk_ok s" "0 < unat (num_pages s)" "unat (num_pages s) < 2147483647" "free_pages s = []" "free_frames s \<noteq> []"
  shows "\<exists>s'. BTree_create s = (Inr (), s') \<and> tree_root s' = num_pages s \<and> disk_page s' (num_pages s) = (\<lambda>_. 0) \<and>
    valid_pid s' (num_pages s)"
proof -
  let ?n = "num_pages s"
  note A = allocated_props [OF assms(1,3)]
  obtain s1 fid where s1: "new_page s = (Inr (?n, fid), s1)" "same_disk s1 (allocated s)" "map_of (page_table s1) ?n = Some fid"
    using first_page [OF assms(1,3,4,5)] by blast
  obtain s2 where s2: "op_bind (page_set fid (init_leaf ?n INVALID_PAGE_ID)) (\<lambda>_. op_bind (unpin_page ?n True) (\<lambda>_. op_modify (\<lambda>s. s\<lparr>tree_root := ?n\<rparr>))) s1 =
      (Inr (), s2)" "same_disk s2 s1" "tree_root s2 = ?n"
    using s1(3) by (simp add: page_set_def unpin_page_def op_defs same_disk_def write_frame_def upd_frame_def)
  have "same_disk s2 (allocated s)" using s1(2) s2(2) by (simp add: same_disk_def)
  note D = same_diskD [OF this]
  have ok: "disk_ok s2" "valid_pid s2 0" "valid_pid s2 ?n" "io_faults s2 = []" "?n \<noteq> 0"
    using A assms(1,2) D valid_pid_iff [OF assms(1), of 0] by (auto simp: disk_ok_def)
  have "0 <s num_pages s2" using ok(2) by (simp add: valid_pid_def)
  let ?p = "put32 (disk_page s2 0) (data_off ROOT_ID_OFFSET) ?n"
  let ?s = "disk_store 0 ?p s2"
  have io: "io_faults ?s = []" using ok(4) by (simp add: disk_store_def)
  have "set_root_page_id ?n s2 = (Inr (), ?s)"
    using dm.read_run [OF ok(1,2), of new_Page] dm.write_run [OF ok(1,2), of ?p] \<open>0 <s num_pages s2\<close> io
    by (simp add: set_root_page_id_def op_simps dm_flush_def fsync_def)
  then have "BTree_create s = (Inr (), ?s)"
    using s1(1) s2(1,3) by (simp add: BTree_create_def persist_root_def op_defs split: prod.splits sum.splits)
  moreover have "page_ok ?p" by (rule page_ok_put32) simp_all
  then have "disk_page ?s ?n = (\<lambda>_. 0)" using dm.content_store [of ?p 0 s2] ok(5) D(1) A(3) by simp
  moreover have "tree_root ?s = ?n" "valid_pid ?s ?n" using s2(3) ok(3) dm.store_valid [of 0 ?p s2] by (simp_all add: disk_store_def)
  ultimately show ?thesis by blast
qed

text \<open>A pool just opened, on a disk whose root page is empty: every lookup fails an assertion.\<close>

lemma get_zero_root:
  fixes s :: "'a btree_scheme"
  assumes "disk_ok s" "valid_pid s (tree_root s)" "disk_page s (tree_root s) = (\<lambda>_. 0)" "page_table s = []"
    "frames s = replicate 64 empty_frame" "free_frames s = [0..<64]"
  shows "\<exists>s'. btree_get key s = (Inl Assertion_failure, s')"
proof -
  have "0 < unat (num_pages s)" using assms(1,2) valid_pid_iff by force
  then obtain n where n: "unat (num_pages s) = Suc n" using gr0_implies_Suc by blast
  let ?s1 = "s\<lparr>free_frames := [0..<63]\<rparr>"
  have "same_disk ?s1 s" by (simp add: same_disk_def)
  note D = same_diskD [OF this]
  have ff: "find_free_frame s = (Inr (Some 63), ?s1)" using assms(6) by (simp add: find_free_frame_def op_simps upt_rec)
  have "page_ok (fr_page empty_frame)" by (simp add: empty_frame_def)
  then have "read_page (tree_root s) (fr_page empty_frame) ?s1 = (Inr (\<lambda>_. 0), ?s1)"
    using dm.read_run [of ?s1 "tree_root s" "fr_page empty_frame"] D assms(1-3) by simp
  then obtain s2 where s2: "fetch_page (tree_root s) s = (Inr (Some 63), s2)" "fr_page (frames s2 ! 63) = (\<lambda>_. 0)"
    using ff assms(4,5) by (simp add: fetch_page_def op_simps upd_frame_def touch_def)
  have "\<not> is_leaf (\<lambda>_. 0)" "\<not> Node_check (\<lambda>_. 0)" by (simp_all add: is_leaf_def Node_check_def zero_page_type)
  then have "find_leaf_loop (Suc n) key (tree_root s) [] s = (Inl Assertion_failure, s2)"
    using s2 by (simp add: fetch_checked_def op_simps page_get_def mk_node_def op_bind_def)
  then show ?thesis using n by (simp add: btree_get_def find_leaf_def op_defs)
qed

text \<open>C36. A new database does not survive a crash before its first flush: created from an empty file by a process that is
  then killed, it opens again without an error, but the root page on disk is empty and every lookup fails
  an assertion.\<close>

theorem new_database_not_durable:
  "\<exists>s s' s''. DB_Open f 0 [] [] [] = Inr s \<and> DB_Open (db_file s) (file_size s) [] (wal_file (wal s)) [] = Inr s' \<and>
     btree_get key s' = (Inl Assertion_failure, s'')"
proof -
  let ?lg = "\<lparr>wal_file = [], wal_faults = [], next_lsn = 1, next_txn_id = 1\<rparr>"
  let ?u = "new_db (BufferPool_new (new_header f)) ?lg"
  note N = new_pool_idle [of f ?lg] and H = new_header_run [of f]
  have same: "same_pool ?u (BufferPool_new (new_header f))" by simp
  have "pool_inv ?u" using N(1) by (simp add: pool_idle_def)
  then have ok: "disk_ok ?u" by (rule pool_invD(5))
  have u: "num_pages ?u = 1" "free_pages ?u = []" "free_frames ?u \<noteq> []" using N(2) H(5) same by (simp_all add: same_pool_def)
  obtain s where s: "BTree_create ?u = (Inr (), s)" "tree_root s = 1" "disk_page s 1 = (\<lambda>_. 0)" "valid_pid s 1"
    using create_disk [OF ok] u by auto
  have "scan_loop 0 0 0 ?lg = (Inr (0, 0), ?lg)" using scan_loop_run [of ?lg "[]" 0] by simp
  then have lg: "LogManager_open [] [] = Inr ?lg" by (simp add: LogManager_open_def scan_for_max_ids_def wal_io_def op_defs)
  have "open_tree ?u = (Inr (), s)" using N(3) s(1) by (simp add: open_tree_def op_simps)
  then have op: "DB_Open f 0 [] [] [] = Inr s" using H(1,2) lg by (simp add: DB_Open_def)
  obtain pid where t: "holds_tree s (Leaf pid [])" "wal s = ?lg" using DB_Open_new_run [of f] op by auto
  obtain c where c: "cached c s" "stores c (Leaf pid [])" by (rule holds_treeE [OF t(1)])
  note C = cachedD [OF c(1)]
  have hd: "header_ok (tree_root s) s" using C(10,12) c(2) by (simp add: stores_def quiet_def)
  have "valid_pid s (tree_root s)" using s(2,4) by simp
  note R = reopen_unflushed [OF C(1) hd this]
  let ?v = "reopened s ?lg"
  have "same_pool ?v (reopened_pool s)" by (simp add: reopened_def)
  then have v: "page_table ?v = []" "frames ?v = replicate 64 empty_frame" "free_frames ?v = [0..<64]" "tree_root ?v = 1"
    using s(2) by (simp_all add: same_pool_def reopened_pool_def reopened_def)
  note D = same_diskD [OF R(2)]
  have "\<exists>s''. btree_get key ?v = (Inl Assertion_failure, s'')"
    by (rule get_zero_root) (use D v s(3,4) pool_invD(5) [OF C(1)] in simp_all)
  then show ?thesis using op R(1) t(2) by auto
qed

end
