(* ===== verification/Db_Faults.thy ===== *)
theory Db_Faults
  imports Db_Props
begin

section \<open>A write that is logged but refused\<close>

text \<open>
  \<open>put_locked\<close> appends the log record before \<open>BTree::insert\<close> checks the size of key and value. The
  insertion then throws, but the record stays, and recovery repeats it: a transaction that is committed
  after such a \<open>Put\<close> leaves a log with which the database cannot be opened any more.
\<close>

abbreviation oversized :: "bytes \<Rightarrow> bytes \<Rightarrow> bool" where
  "oversized key val \<equiv> 4034 < length key + length val"

text \<open>The first write of a key by a transaction: the lock is taken, the entry recorded and the write logged.\<close>

lemma put_oversized_run:
  fixes s :: "'a db_scheme"
  assumes "db_holds s m rs" "log_room s" "\<not> txn_done t" "write_set t = Map.empty"
    "oversized key val" "length key < 2 ^ 32" "length val < 2 ^ 32"
    "lock_attempt (txn_id t) key EXCLUSIVE (locks s) = (True, l)"
  defines "e \<equiv> next_entry t m key val"
  defines "r \<equiv> write_rec t key e val (next_lsn (wal s))"
  shows "\<exists>s'. Txn_Put key val (t, s) = (Inl Invalid_argument, (wrote t key e, s')) \<and> db_holds s' m (rs @ [r]) \<and> wal s' = log_next r (wal s)"
proof -
  let ?s = "s\<lparr>locks := l\<rparr>"
  have h: "tree_holds ?s m" "log_inv (wal s) rs" using assms(1) by (simp_all add: db_holds_def)
  obtain s1 where s1: "btree_get key ?s = (Inr (m key), s1)" "tree_holds s1 m" "btree.more s1 = btree.more ?s"
    using bt.get_law [OF h(1)] by blast
  have w: "wal s1 = wal s" using more_db [OF s1(3)] by simp
  have ok: "write_entry_ok e" unfolding e_def by (rule next_entry_ok [OF h(1)]) (simp add: txn_ok_def assms(4))
  have room: "log_room s1" "log_inv (wal s1) rs" using assms(2) h(2) w by (simp_all add: log_room_def)
  have r: "write_rec (wrote t key e) key e val (next_lsn (wal s1)) = r" by (simp add: r_def write_rec_def w)
  note L = log_write_run [OF room(2,1) ok assms(6,7), of "wrote t key e", unfolded r]
  let ?s' = "s1\<lparr>wal := log_next r (wal s)\<rparr>"
  have "e = \<lparr>we_before_exists = (m key \<noteq> None), we_before_val = (case m key of None \<Rightarrow> [] | Some v \<Rightarrow> v), we_after_val = val\<rparr>"
    by (simp add: e_def next_entry_def assms(4))
  then have "put_locked key val (t, ?s) = (Inl Invalid_argument, (wrote t key e, ?s'))"
    using s1(1) L(1) w assms(4) by (simp add: put_locked_def op_simps on_db_def btree_insert_too_large [OF assms(5)])
  then have "Txn_Put key val (t, s) = (Inl Invalid_argument, (wrote t key e, ?s'))"
    using assms(3,8) by (simp add: Txn_Put_def op_simps check_open_run txn_lock_run)
  moreover have "db_holds ?s' m (rs @ [r])" using s1(2) L(2) w by (simp add: db_holds_def)
  ultimately show ?thesis by auto
qed

text \<open>Opening files whose first logged update cannot be repeated.\<close>

lemma open_refused:
  fixes s :: "'a engine_scheme"
  assumes "tree_holds s d" "on_disk s" "\<forall>r \<in> set rs. wal_wf r"
    and "redo_updates (map stored rs) = Put_key key val # us" "oversized key val"
  shows "DB_Open (db_file s) (file_size s) [] (log_bytes rs) [] = Inl Invalid_argument"
proof -
  obtain t where t: "holds_tree s t" using assms(1) by (auto simp: tree_holds_def)
  obtain lg where lg: "LogManager_open (log_bytes rs) [] = Inr lg" "read_all lg = (Inr (map stored rs), lg)"
    using open_log [OF assms(3)] by blast
  have inv: "pool_inv s" using t cachedD(1) by (auto elim: holds_treeE)
  have hd: "header_ok (tree_root s) s" using assms(2) by (simp add: on_disk_def)
  let ?u = "reopened s lg"
  have "wal ?u = lg" "?u\<lparr>wal := wal ?u\<rparr> = ?u" by (simp_all add: reopened_def)
  then have rd: "on_wal read_all ?u = (Inr (map stored rs), ?u)" using lg(2) by (simp add: on_wal_def)
  have ne: "map stored rs \<noteq> []" using assms(4) by (auto simp: redo_updates_def writes_of_def)
  have "redo (map stored rs) ?u = (Inl Invalid_argument, ?u)"
    unfolding redo_eq assms(4) by (simp add: kv_step_def op_bind_def btree_insert_too_large [OF assms(5)])
  then have "recover ?u = (Inl Invalid_argument, ?u)"
    using rd ne by (simp add: recover_def op_bind_def Let_def)
  then have "open_tree (new_db (reopened_pool s) lg) = (Inl Invalid_argument, ?u)"
    using reopened_root(1) [OF t assms(2), of lg] reopened_root(2) [OF t assms(2)]
    by (simp add: open_tree_def op_simps op_modify_def BTree_open_def reopened_def op_bind_def)
  then show ?thesis
    using open_files [OF inv hd] lg(1) by (simp add: DB_Open_def reopened_pool_def)
qed

text \<open>C37. An oversized \<open>Put\<close> throws, yet it locks the database out: on a database just opened, a transaction that goes on and
  commits succeeds, but opening its files again throws, since recovery repeats the insertion
  that throws.\<close>

theorem oversized_put_blocks_open:
  assumes "fresh_db m s" "4034 < length key + length val" "val \<noteq> []" "length key < 2 ^ 32" "length val < 2 ^ 32"
  shows "\<exists>t s1 t2 s2 t3 s3. DB_Begin s = (Inr t, s1) \<and> Txn_Put key val (t, s1) = (Inl Invalid_argument, (t2, s2)) \<and>
    Txn_Commit (t2, s2) = (Inr (), (t3, s3)) \<and> DB_Open (db_file s3) (file_size s3) [] (wal_file (wal s3)) [] = Inl Invalid_argument"
proof -
  have f: "db_holds s m []" "locks s = LockManager_new" "next_lsn (wal s) = 1" "next_txn_id (wal s) = 1" "log_room s"
    using assms(1) by (simp_all add: fresh_db_def log_room_def)
  obtain s1 where s1: "DB_Begin s = (Inr first_txn, s1)" "db_holds s1 m [mark_rec WAL_BEGIN 1 1]" "locks s1 = LockManager_new" "next_lsn (wal s1) = 2"
    using DB_Begin_run [OF f(1,5)] f(2-4) by (simp add: log_next_def)
  obtain l where "lock_attempt 1 key EXCLUSIVE LockManager_new = (True, l)"
    by (simp add: lock_attempt_def get_or_create_def LockManager_new_def can_grant_def)
  then have lk: "lock_attempt (txn_id first_txn) key EXCLUSIVE (locks s1) = (True, l)" using s1(3) by simp
  let ?e = "next_entry first_txn m key val"
  let ?w = "write_rec first_txn key ?e val 2"
  have room: "log_room s1" "\<not> txn_done first_txn" "write_set first_txn = Map.empty" by (simp_all add: log_room_def s1(4))
  obtain s2 where s2: "Txn_Put key val (first_txn, s1) = (Inl Invalid_argument, (wrote first_txn key ?e, s2))"
    "db_holds s2 m [mark_rec WAL_BEGIN 1 1, ?w]" "wal s2 = log_next ?w (wal s1)"
    using put_oversized_run [OF s1(2) room assms(2,4,5) lk] s1(4) by auto
  have n: "next_lsn (wal s2) = 3" "log_room s2" using s1(4) s2(3) by (simp_all add: log_room_def log_next_def)
  let ?rs = "[mark_rec WAL_BEGIN 1 1, ?w, mark_rec WAL_COMMIT 1 3]"
  have "\<not> txn_done (wrote first_txn key ?e)" by simp
  from Txn_Commit_run [OF s2(2) n(2) this] n(1) obtain t3 s3 where
    s3: "Txn_Commit (wrote first_txn key ?e, s2) = (Inr (), (t3, s3))" "db_holds s3 m ?rs" "on_disk s3" by auto
  have lf: "tree_holds s3 m" "wal_file (wal s3) = log_bytes ?rs" "\<forall>r \<in> set ?rs. wal_wf r"
    using s3(2) unfolding db_holds_def log_inv_def by blast+
  have "redo_updates (map stored ?rs) = [Put_key key val]"
    using assms(3) by (simp add: stored_def mark_rec_def write_rec_def new_WalRecord_def redo_updates_def writes_of_def
        txns_with_def has_type_def after_update_def)
  from open_refused [OF lf(1) s3(3) lf(3) this assms(2)] s1(1) s2(1) s3(1) lf(2) show ?thesis by auto
qed

theorem oversized_put_blocks_open_witness:
  "\<exists>(s :: db) t s1 t2 s2 t3 s3. DB_Begin s = (Inr t, s1) \<and> Txn_Put [1] (replicate 4034 7) (t, s1) = (Inl Invalid_argument, (t2, s2)) \<and>
    Txn_Commit (t2, s2) = (Inr (), (t3, s3)) \<and> DB_Open (db_file s3) (file_size s3) [] (wal_file (wal s3)) [] = Inl Invalid_argument"
proof -
  obtain s' :: db where s': "tree_holds s' Map.empty" "on_disk s'" "wal_file (wal s') = []" using DB_Close_run [OF sample_new_holds(1)] by blast
  obtain s where "fresh_db Map.empty s" using reopen_clean [OF s'] by blast
  from oversized_put_blocks_open [OF this, of "[1]" "replicate 4034 7"] show ?thesis by (intro exI [of _ s]) simp
qed

end
