(* ===== verification/Client_Handler.thy ===== *)
theory Client_Handler
  imports Db
begin

section \<open>The protocol and the client handler (\<open>src/server/protocol.h\<close>, \<open>src/server/client_handler.{h,cpp}\<close>)\<close>

text \<open>
  One connection: the bytes the client sends, in the segments in which the socket delivers them, the
  bytes sent back, and how many bytes each call of \<open>write\<close> accepts. A \<open>read\<close> that finds no segment, or
  an empty one, is the end of the stream or an error, which the code does not tell apart. A \<open>write\<close>
  that accepts nothing is an error.

  The text of an error message (\<open>e.what()\<close>) comes from the standard library or from the place of the
  throw; it is the argument \<open>what\<close>. The order in which a rollback walks over the write set is the
  argument \<open>ord\<close>. \<open>run\<close> is the loop of one connection on the database; what other connections do
  between two of its requests are steps of theirs.
\<close>

subsection \<open>Opcodes and status bytes\<close>

definition OP_BEGIN :: byte where "OP_BEGIN = 1"
definition OP_GET :: byte where "OP_GET = 2"
definition OP_PUT :: byte where "OP_PUT = 3"
definition OP_DELETE :: byte where "OP_DELETE = 4"
definition OP_COMMIT :: byte where "OP_COMMIT = 5"
definition OP_ROLLBACK :: byte where "OP_ROLLBACK = 6"

definition STATUS_OK :: byte where "STATUS_OK = 0"
definition STATUS_NOT_FOUND :: byte where "STATUS_NOT_FOUND = 1"
definition STATUS_ERROR :: byte where "STATUS_ERROR = 2"
definition STATUS_DEADLOCK :: byte where "STATUS_DEADLOCK = 3"

text \<open>\<open>htons\<close>, \<open>htonl\<close> and their inverses: numbers on the wire are big-endian.\<close>

definition be :: "nat \<Rightarrow> nat \<Rightarrow> bytes" where
  "be n k = rev (le n k)"

definition unbe :: "bytes \<Rightarrow> nat" where
  "unbe bs = unle (rev bs)"

record client =
  conn_in :: "bytes list"
  conn_out :: bytes
  conn_accepts :: "nat list"
  conn_closed :: bool
  cl_txn :: "transaction option"
  cl_db :: db

subsection \<open>I/O helpers\<close>

text \<open>\<open>::read\<close> returns at most \<open>n\<close> bytes of the next segment.\<close>

fun sock_read :: "nat \<Rightarrow> bytes list \<Rightarrow> bytes \<times> bytes list" where
  "sock_read n [] = ([], [])"
| "sock_read n (seg # segs) = (if length seg \<le> n then (seg, segs) else (take n seg, drop n seg # segs))"

lemma sock_read_length: "sock_read n segs = (bs, segs') \<Longrightarrow> length bs \<le> n"
  by (cases "(n, segs)" rule: sock_read.cases) (auto split: if_splits)

function read_exact_loop :: "nat \<Rightarrow> bytes \<Rightarrow> bytes list \<Rightarrow> bytes option \<times> bytes list" where
  "read_exact_loop remaining acc segs =
     (if remaining = 0 then (Some acc, segs)
      else case sock_read remaining segs of (bs, segs') \<Rightarrow>
        if bs = [] then (None, segs')
        else read_exact_loop (remaining - length bs) (acc @ bs) segs')"
  by pat_completeness auto
termination
  by (relation "measure (\<lambda>(n, acc, segs). n)") auto

declare read_exact_loop.simps [simp del]

definition read_exact :: "nat \<Rightarrow> (client, bytes option) op" where
  "read_exact n = (\<lambda>s. case read_exact_loop n [] (conn_in s) of (r, segs) \<Rightarrow> (Inr r, s\<lparr>conn_in := segs\<rparr>))"

text \<open>\<open>::write\<close> accepts some of the bytes; without a limit it accepts all.\<close>

fun sock_write :: "nat \<Rightarrow> nat list \<Rightarrow> nat \<times> nat list" where
  "sock_write n [] = (n, [])"
| "sock_write n (c # cs) = (min n c, cs)"

function write_exact_loop :: "bytes \<Rightarrow> bytes \<Rightarrow> nat list \<Rightarrow> bool \<times> bytes \<times> nat list" where
  "write_exact_loop buf out accepts =
     (if buf = [] then (True, out, accepts)
      else case sock_write (length buf) accepts of (w, accepts') \<Rightarrow>
        if w = 0 then (False, out, accepts')
        else write_exact_loop (drop w buf) (out @ take w buf) accepts')"
  by pat_completeness auto
termination
  by (relation "measure (\<lambda>(buf, out, accepts). length buf)") auto

declare write_exact_loop.simps [simp del]

definition write_exact :: "bytes \<Rightarrow> (client, bool) op" where
  "write_exact buf = (\<lambda>s. case write_exact_loop buf (conn_out s) (conn_accepts s) of
     (ok, out, accepts) \<Rightarrow> (Inr ok, s\<lparr>conn_out := out, conn_accepts := accepts\<rparr>))"

definition read_string :: "(client, bytes option) op" where
  "read_string = op_bind (read_exact 2) (\<lambda>net_len. case net_len of
     None \<Rightarrow> op_return None
   | Some net_len \<Rightarrow> let len = unbe net_len in
       if len > 0 then read_exact len else op_return (Some []))"

subsection \<open>Response helpers\<close>

text \<open>The results of the three writes are ignored.\<close>

definition send_response :: "byte \<Rightarrow> bytes \<Rightarrow> (client, unit) op" where
  "send_response status payload =
     op_bind (write_exact [status]) (\<lambda>_.
     op_bind (write_exact (be 4 (length payload))) (\<lambda>_.
     if length payload > 0 then op_bind (write_exact payload) (\<lambda>_. op_return ()) else op_return ()))"

definition send_ok :: "(client, unit) op" where
  "send_ok = send_response STATUS_OK []"

definition send_ok_value :: "bytes \<Rightarrow> (client, unit) op" where
  "send_ok_value val = send_response STATUS_OK (be 2 (length val) @ val)"

definition send_not_found :: "(client, unit) op" where
  "send_not_found = send_response STATUS_NOT_FOUND []"

text \<open>The terminating zero of the message is sent too.\<close>

definition send_error :: "bytes \<Rightarrow> (client, unit) op" where
  "send_error msg = send_response STATUS_ERROR (msg @ [0])"

definition send_deadlock :: "(client, unit) op" where
  "send_deadlock = send_response STATUS_DEADLOCK []"

subsection \<open>Operation handlers\<close>

definition msg_open :: bytes where
  "msg_open = ascii ''transaction already open '' @ em_dash @ ascii '' COMMIT or ROLLBACK first''"

definition msg_no_txn_get :: bytes where
  "msg_no_txn_get = ascii ''no open transaction '' @ em_dash @ ascii '' send BEGIN first''"

definition msg_no_txn :: bytes where "msg_no_txn = ascii ''no open transaction''"

definition msg_opcode :: bytes where "msg_opcode = ascii ''unknown opcode''"

type_synonym messages = "exc \<Rightarrow> bytes"

type_synonym undo_order = "transaction \<Rightarrow> bytes list"

definition on_cl_db :: "(db, 'x) op \<Rightarrow> (client, 'x) op" where
  "on_cl_db m = (\<lambda>s. case m (cl_db s) of (r, d) \<Rightarrow> (r, s\<lparr>cl_db := d\<rparr>))"

text \<open>A method call through \<open>txn_\<close>, which is not null.\<close>

definition on_txn :: "(transaction \<Rightarrow> (unit, 'x) txn_op) \<Rightarrow> (client, 'x) op" where
  "on_txn m = (\<lambda>s. case cl_txn s of
     None \<Rightarrow> (Inl Assertion_failure, s)
   | Some t \<Rightarrow> (case m t (t, cl_db s) of (r, (t', d)) \<Rightarrow> (r, s\<lparr>cl_txn := Some t', cl_db := d\<rparr>)))"

definition reset_txn :: "undo_order \<Rightarrow> (client, unit) op" where
  "reset_txn ord = op_bind (on_txn (\<lambda>t. Txn_destroy (ord t))) (\<lambda>_. op_modify (\<lambda>s. s\<lparr>cl_txn := None\<rparr>))"

text \<open>The two \<open>catch\<close> clauses of the data operations.\<close>

definition with_catch :: "messages \<Rightarrow> undo_order \<Rightarrow> (client, unit) op \<Rightarrow> (client, unit) op" where
  "with_catch what ord m = try_catch m (\<lambda>e.
     if e = Deadlock_exception then op_bind (reset_txn ord) (\<lambda>_. send_deadlock) else send_error (what e))"

definition handle_begin :: "(client, unit) op" where
  "handle_begin = op_bind (op_gets cl_txn) (\<lambda>tx.
     if tx \<noteq> None then send_error msg_open
     else op_bind (on_cl_db DB_Begin) (\<lambda>t.
          op_bind (op_modify (\<lambda>s. s\<lparr>cl_txn := Some t\<rparr>)) (\<lambda>_. send_ok)))"

definition handle_get :: "messages \<Rightarrow> undo_order \<Rightarrow> (client, unit) op" where
  "handle_get what ord = op_bind (op_gets cl_txn) (\<lambda>tx.
     if tx = None then send_error msg_no_txn_get
     else op_bind read_string (\<lambda>key. case key of
         None \<Rightarrow> op_return ()
       | Some key \<Rightarrow> with_catch what ord (op_bind (on_txn (\<lambda>_. Txn_Get key)) (\<lambda>v. case v of
             Some v \<Rightarrow> send_ok_value v
           | None \<Rightarrow> send_not_found))))"

definition handle_put :: "messages \<Rightarrow> undo_order \<Rightarrow> (client, unit) op" where
  "handle_put what ord = op_bind (op_gets cl_txn) (\<lambda>tx.
     if tx = None then send_error msg_no_txn
     else op_bind read_string (\<lambda>key. case key of
         None \<Rightarrow> op_return ()
       | Some key \<Rightarrow> op_bind read_string (\<lambda>val. case val of
           None \<Rightarrow> op_return ()
         | Some val \<Rightarrow> with_catch what ord (op_bind (on_txn (\<lambda>_. Txn_Put key val)) (\<lambda>_. send_ok)))))"

definition handle_delete :: "messages \<Rightarrow> undo_order \<Rightarrow> (client, unit) op" where
  "handle_delete what ord = op_bind (op_gets cl_txn) (\<lambda>tx.
     if tx = None then send_error msg_no_txn
     else op_bind read_string (\<lambda>key. case key of
         None \<Rightarrow> op_return ()
       | Some key \<Rightarrow> with_catch what ord (op_bind (on_txn (\<lambda>_. Txn_Delete key)) (\<lambda>_. send_ok))))"

definition handle_commit :: "messages \<Rightarrow> undo_order \<Rightarrow> (client, unit) op" where
  "handle_commit what ord = op_bind (op_gets cl_txn) (\<lambda>tx.
     if tx = None then send_error msg_no_txn
     else try_catch
       (op_bind (on_txn (\<lambda>_. Txn_Commit)) (\<lambda>_. op_bind (reset_txn ord) (\<lambda>_. send_ok)))
       (\<lambda>e. op_bind (reset_txn ord) (\<lambda>_. send_error (what e))))"

definition handle_rollback :: "undo_order \<Rightarrow> (client, unit) op" where
  "handle_rollback ord = op_bind (op_gets cl_txn) (\<lambda>tx.
     if tx = None then send_error msg_no_txn
     else op_bind (try_catch (on_txn (\<lambda>t. Txn_Rollback (ord t))) (\<lambda>_. op_return ())) (\<lambda>_.
          op_bind (reset_txn ord) (\<lambda>_. send_ok)))"

subsection \<open>The request loop\<close>

definition dispatch :: "messages \<Rightarrow> undo_order \<Rightarrow> byte \<Rightarrow> (client, unit) op" where
  "dispatch what ord opcode =
     (if opcode = OP_BEGIN then handle_begin
      else if opcode = OP_GET then handle_get what ord
      else if opcode = OP_PUT then handle_put what ord
      else if opcode = OP_DELETE then handle_delete what ord
      else if opcode = OP_COMMIT then handle_commit what ord
      else if opcode = OP_ROLLBACK then handle_rollback ord
      else send_error msg_opcode)"

text \<open>One round: \<open>False\<close> leaves the loop. The payload length is read but not used.\<close>

definition serve_one :: "messages \<Rightarrow> undo_order \<Rightarrow> (client, bool) op" where
  "serve_one what ord = op_bind (read_exact 1) (\<lambda>opcode. case opcode of
     None \<Rightarrow> op_return False
   | Some opcode \<Rightarrow> op_bind (read_exact 4) (\<lambda>net_payload_len. case net_payload_len of
       None \<Rightarrow> op_return False
     | Some _ \<Rightarrow> op_bind (dispatch what ord (hd opcode)) (\<lambda>_. op_return True)))"

fun serve_loop :: "messages \<Rightarrow> undo_order \<Rightarrow> nat \<Rightarrow> (client, unit) op" where
  "serve_loop what ord 0 = op_throw Out_of_fuel"
| "serve_loop what ord (Suc n) = op_bind (serve_one what ord) (\<lambda>more. if more then serve_loop what ord n else op_return ())"

definition client_cleanup :: "undo_order \<Rightarrow> (client, unit) op" where
  "client_cleanup ord = op_bind (op_gets cl_txn) (\<lambda>tx.
     op_bind (if tx \<noteq> None
        then op_bind (try_catch (on_txn (\<lambda>t. Txn_Rollback (ord t))) (\<lambda>_. op_return ())) (\<lambda>_. reset_txn ord)
        else op_return ()) (\<lambda>_.
     op_modify (\<lambda>s. s\<lparr>conn_closed := True\<rparr>)))"

text \<open>Every round but the last takes at least five bytes off the input, which bounds their number.\<close>

definition client_run :: "messages \<Rightarrow> undo_order \<Rightarrow> (client, unit) op" where
  "client_run what ord = op_bind (op_gets (\<lambda>s. length (concat (conn_in s)))) (\<lambda>n.
     op_bind (serve_loop what ord (Suc n)) (\<lambda>_. client_cleanup ord))"

end
