(* ===== verification/Client_Requests.thy ===== *)
theory Client_Requests
  imports Client_Handler Db_Txn
begin

section \<open>Serving requests\<close>

text \<open>
  Reading and writing do not depend on how the socket cuts the stream into pieces. The requests of the
  protocol, with their encoding, and what serving one does to the connection, the transaction and the
  database, given the result of the method that it calls.
\<close>

subsection \<open>Reading and writing\<close>

text \<open>A healthy connection: no segment is empty, and every \<open>write\<close> accepts something.\<close>

definition conn_ok :: "client \<Rightarrow> bool" where
  "conn_ok s \<longleftrightarrow> [] \<notin> set (conn_in s) \<and> 0 \<notin> set (conn_accepts s)"

lemma sock_read_split:
  assumes "[] \<notin> set segs" "sock_read n segs = (bs, segs')" "n > 0"
  shows "bs @ concat segs' = concat segs" "[] \<notin> set segs'" "bs = [] \<longleftrightarrow> segs = []" "length bs \<le> n"
  using assms by (cases "(n, segs)" rule: sock_read.cases; auto split: if_splits)+

lemma read_exact_loop_run:
  assumes "[] \<notin> set segs"
  shows "if n \<le> length (concat segs)
    then \<exists>segs'. read_exact_loop n acc segs = (Some (acc @ take n (concat segs)), segs') \<and> concat segs' = drop n (concat segs) \<and> [] \<notin> set segs'
    else read_exact_loop n acc segs = (None, [])"
  using assms
proof (induction n acc segs rule: read_exact_loop.induct)
  case (1 n acc segs)
  show ?case
  proof (cases "n = 0")
    case True
    then show ?thesis using 1(2) by (simp add: read_exact_loop.simps)
  next
    case False
    obtain bs segs' where r: "sock_read n segs = (bs, segs')" by (cases "sock_read n segs")
    note S = sock_read_split [OF 1(2) r] False
    show ?thesis
    proof (cases "bs = []")
      case True
      then have "segs = []" using S by simp
      with r False show ?thesis by (auto simp: read_exact_loop.simps)
    next
      case nonempty: False
      have c: "concat segs = bs @ concat segs'" "length bs \<le> n" "[] \<notin> set segs'" using S by simp_all
      have step: "read_exact_loop n acc segs = read_exact_loop (n - length bs) (acc @ bs) segs'"
        using r False nonempty by (simp add: read_exact_loop.simps)
      from 1(1) [OF False r [symmetric] nonempty c(3)] show ?thesis unfolding step c(1) using c(2) by (auto split: if_splits)
    qed
  qed
qed

text \<open>What is still to be read.\<close>

abbreviation input :: "client \<Rightarrow> bytes" where
  "input s \<equiv> concat (conn_in s)"

lemma read_exact_run:
  assumes "conn_ok s" "input s = bs @ rest" "length bs = n"
  shows "\<exists>segs. read_exact n s = (Inr (Some bs), s\<lparr>conn_in := segs\<rparr>) \<and> concat segs = rest \<and> conn_ok (s\<lparr>conn_in := segs\<rparr>)"
  using read_exact_loop_run [of "conn_in s" n "[]"] assms by (auto simp: conn_ok_def read_exact_def split: if_splits)

lemma read_exact_end:
  assumes "conn_ok s" "length (input s) < n"
  shows "read_exact n s = (Inr None, s\<lparr>conn_in := []\<rparr>)"
  using read_exact_loop_run [of "conn_in s" n "[]"] assms by (auto simp: conn_ok_def read_exact_def split: if_splits)

lemma write_exact_loop_run:
  "0 \<notin> set accepts \<Longrightarrow> \<exists>accepts'. write_exact_loop buf out accepts = (True, out @ buf, accepts') \<and> 0 \<notin> set accepts'"
proof (induction buf out accepts rule: write_exact_loop.induct)
  case (1 buf out accepts)
  show ?case
  proof (cases "buf = []")
    case True
    then show ?thesis using 1(2) by (simp add: write_exact_loop.simps)
  next
    case False
    obtain w as' where w: "sock_write (length buf) accepts = (w, as')" by (cases "sock_write (length buf) accepts")
    have "w \<noteq> 0" "0 \<notin> set as'" using w 1(2) False by (cases accepts; auto)+
    with 1(1) [OF False w [symmetric]] w False show ?thesis by (subst write_exact_loop.simps) auto
  qed
qed

lemma write_exact_run:
  assumes "conn_ok s"
  shows "\<exists>accepts. write_exact buf s = (Inr True, s\<lparr>conn_out := conn_out s @ buf, conn_accepts := accepts\<rparr>) \<and> 0 \<notin> set accepts"
  using write_exact_loop_run [of "conn_accepts s" buf "conn_out s"] assms by (auto simp: conn_ok_def write_exact_def)

lemma length_be [simp]: "length (be n k) = n"
  by (simp add: be_def)

lemma unbe_be2 [simp]: "n < 65536 \<Longrightarrow> unbe (be 2 n) = n"
  and unbe_be4 [simp]: "n < 4294967296 \<Longrightarrow> unbe (be 4 n) = n"
  by (simp_all add: be_def unbe_def unle_le)

subsection \<open>Responses\<close>

definition response :: "byte \<Rightarrow> bytes \<Rightarrow> bytes" where
  "response status payload = status # be 4 (length payload) @ payload"

text \<open>A handler that only answers.\<close>

definition answers :: "client \<Rightarrow> bytes \<Rightarrow> client \<Rightarrow> bool" where
  "answers s out s' \<longleftrightarrow> (\<exists>accepts. s' = s\<lparr>conn_out := conn_out s @ out, conn_accepts := accepts\<rparr> \<and> 0 \<notin> set accepts)"

lemma answersD:
  "answers s out s' \<Longrightarrow> conn_out s' = conn_out s @ out \<and> conn_in s' = conn_in s \<and> cl_txn s' = cl_txn s \<and> cl_db s' = cl_db s \<and>
     conn_closed s' = conn_closed s \<and> (conn_ok s \<longrightarrow> conn_ok s')"
  by (auto simp: answers_def conn_ok_def)

lemma send_response_run:
  assumes "conn_ok s"
  shows "\<exists>s'. send_response status payload s = (Inr (), s') \<and> answers s (response status payload) s'"
proof -
  obtain a1 where 1: "write_exact [status] s = (Inr True, s\<lparr>conn_out := conn_out s @ [status], conn_accepts := a1\<rparr>)" "0 \<notin> set a1"
    using write_exact_run [OF assms] by blast
  let ?s1 = "s\<lparr>conn_out := conn_out s @ [status], conn_accepts := a1\<rparr>"
  have ok1: "conn_ok ?s1" using assms 1(2) by (simp add: conn_ok_def)
  obtain a2 where 2: "write_exact (be 4 (length payload)) ?s1 =
      (Inr True, ?s1\<lparr>conn_out := conn_out ?s1 @ be 4 (length payload), conn_accepts := a2\<rparr>)" "0 \<notin> set a2"
    using write_exact_run [OF ok1] by blast
  let ?s2 = "?s1\<lparr>conn_out := conn_out ?s1 @ be 4 (length payload), conn_accepts := a2\<rparr>"
  have ok2: "conn_ok ?s2" using assms 2(2) by (simp add: conn_ok_def)
  obtain a3 where 3: "write_exact payload ?s2 = (Inr True, ?s2\<lparr>conn_out := conn_out ?s2 @ payload, conn_accepts := a3\<rparr>)" "0 \<notin> set a3"
    using write_exact_run [OF ok2] by blast
  show ?thesis
    using 1 2 3 by (cases "payload = []") (auto simp: send_response_def op_simps response_def answers_def)
qed

subsection \<open>Requests\<close>

definition wire_string :: "bytes \<Rightarrow> bytes" where
  "wire_string bs = be 2 (length bs) @ bs"

definition request :: "byte \<Rightarrow> bytes \<Rightarrow> bytes" where
  "request opcode payload = opcode # be 4 (length payload) @ payload"

text \<open>The input is replaced by what follows.\<close>

definition consumes :: "client \<Rightarrow> bytes \<Rightarrow> client \<Rightarrow> bool" where
  "consumes s rest s' \<longleftrightarrow> (\<exists>segs. s' = s\<lparr>conn_in := segs\<rparr> \<and> concat segs = rest \<and> [] \<notin> set segs)"

lemma consumesD:
  "consumes s rest s' \<Longrightarrow> input s' = rest \<and> conn_out s' = conn_out s \<and> cl_txn s' = cl_txn s \<and> cl_db s' = cl_db s \<and>
     conn_closed s' = conn_closed s \<and> (conn_ok s \<longrightarrow> conn_ok s')"
  by (auto simp: consumes_def conn_ok_def)

lemma read_consumes:
  assumes "conn_ok s" "input s = bs @ rest" "length bs = n"
  shows "\<exists>s'. read_exact n s = (Inr (Some bs), s') \<and> consumes s rest s'"
  using read_exact_run [OF assms] by (auto simp: consumes_def conn_ok_def)

lemma consumes_trans: "consumes s r1 s1 \<Longrightarrow> consumes s1 r2 s2 \<Longrightarrow> consumes s r2 s2"
  by (auto simp: consumes_def)

lemma read_string_run:
  assumes "conn_ok s" "input s = wire_string bs @ rest" "length bs < 65536"
  shows "\<exists>s'. read_string s = (Inr (Some bs), s') \<and> consumes s rest s'"
proof -
  obtain s1 where s1: "read_exact 2 s = (Inr (Some (be 2 (length bs))), s1)" "consumes s (bs @ rest) s1"
    using read_consumes [OF assms(1), of "be 2 (length bs)" "bs @ rest" 2] assms(2) by (auto simp: wire_string_def)
  have ok: "conn_ok s1" "input s1 = bs @ rest" using consumesD [OF s1(2)] assms(1) by simp_all
  show ?thesis
  proof (cases "bs = []")
    case True
    then show ?thesis using s1 assms(3) by (auto simp: read_string_def op_simps Let_def unbe_def be_def unle_le)
  next
    case False
    obtain s2 where "read_exact (length bs) s1 = (Inr (Some bs), s2)" "consumes s1 rest s2" using read_consumes [OF ok refl] by blast
    then show ?thesis using s1 False assms(3) consumes_trans [OF s1(2)] by (auto simp: read_string_def op_simps)
  qed
qed

lemma header_run:
  assumes "conn_ok s" "input s = opcode # be 4 n @ rest"
  shows "\<exists>s'. serve_one what ord s = op_bind (dispatch what ord opcode) (\<lambda>_. op_return True) s' \<and> consumes s rest s'"
proof -
  obtain s1 where s1: "read_exact 1 s = (Inr (Some [opcode]), s1)" "consumes s (be 4 n @ rest) s1"
    using read_consumes [OF assms(1), of "[opcode]" "be 4 n @ rest" 1] assms(2) by auto
  have ok: "conn_ok s1" "input s1 = be 4 n @ rest" using consumesD [OF s1(2)] assms(1) by simp_all
  obtain s2 where s2: "read_exact 4 s1 = (Inr (Some (be 4 n)), s2)" "consumes s1 rest s2" using read_consumes [OF ok] by auto
  show ?thesis using s1(1) s2 consumes_trans [OF s1(2) s2(2)] by (auto simp: serve_one_def op_simps)
qed

text \<open>One request was served: the answer, the rest of the input, and the new transaction and database.\<close>

definition served :: "client \<Rightarrow> bytes \<Rightarrow> bytes \<Rightarrow> transaction option \<Rightarrow> db \<Rightarrow> client \<Rightarrow> bool" where
  "served s out rest tx d s' \<longleftrightarrow> conn_out s' = conn_out s @ out \<and> input s' = rest \<and> cl_txn s' = tx \<and> cl_db s' = d \<and> conn_ok s' \<and>
     conn_closed s' = conn_closed s"

lemma send_served:
  assumes "conn_ok s1" "conn_out s1 = conn_out s" "conn_closed s1 = conn_closed s"
  shows "\<exists>s'. send_response status payload s1 = (Inr (), s') \<and> served s (response status payload) (input s1) (cl_txn s1) (cl_db s1) s'"
  using send_response_run [OF assms(1), of status payload] assms answersD [of s1 "response status payload"] by (fastforce simp: served_def)

lemma serve_begin:
  assumes "conn_ok s" "input s = request OP_BEGIN [] @ rest" "cl_txn s = None" "DB_Begin (cl_db s) = (Inr t, d)"
  shows "\<exists>s'. serve_one what ord s = (Inr True, s') \<and> served s (response STATUS_OK []) rest (Some t) d s'"
proof -
  obtain s1 where s1: "serve_one what ord s = op_bind (dispatch what ord OP_BEGIN) (\<lambda>_. op_return True) s1" "consumes s rest s1"
    using header_run [OF assms(1), of OP_BEGIN 0 rest] assms(2) by (auto simp: request_def)
  note C = consumesD [OF s1(2)]
  let ?s2 = "s1\<lparr>cl_db := d, cl_txn := Some t\<rparr>"
  have ok: "conn_ok ?s2" using C assms(1) by (simp add: conn_ok_def)
  obtain s' where s': "send_response STATUS_OK [] ?s2 = (Inr (), s')" "served s (response STATUS_OK []) rest (Some t) d s'"
    using send_served [OF ok, of s STATUS_OK "[]"] C by auto
  have "handle_begin s1 = (Inr (), s')" using s'(1) C assms(3,4) by (simp add: handle_begin_def op_simps on_cl_db_def send_ok_def)
  then show ?thesis using s1(1) s'(2) by (simp add: op_simps dispatch_def)
qed

lemma reset_ended: "cl_txn s = Some t \<Longrightarrow> txn_done t \<Longrightarrow> reset_txn ord s = (Inr (), s\<lparr>cl_txn := None\<rparr>)"
  by (simp add: reset_txn_def op_bind_def on_txn_def ended_throws(6) op_modify_def)

lemma serve_commit:
  assumes "conn_ok s" "input s = request OP_COMMIT [] @ rest" "cl_txn s = Some t" "Txn_Commit (t, cl_db s) = (Inr (), (ended t, d))"
  shows "\<exists>s'. serve_one what ord s = (Inr True, s') \<and> served s (response STATUS_OK []) rest None d s'"
proof -
  obtain s1 where s1: "serve_one what ord s = op_bind (dispatch what ord OP_COMMIT) (\<lambda>_. op_return True) s1" "consumes s rest s1"
    using header_run [OF assms(1), of OP_COMMIT 0 rest] assms(2) by (auto simp: request_def)
  note C = consumesD [OF s1(2)]
  let ?s2 = "s1\<lparr>cl_txn := Some (ended t), cl_db := d\<rparr>"
  let ?s3 = "?s2\<lparr>cl_txn := None\<rparr>"
  have ok: "conn_ok ?s3" using C assms(1) by (simp add: conn_ok_def)
  obtain s' where s': "send_response STATUS_OK [] ?s3 = (Inr (), s')" "served s (response STATUS_OK []) rest None d s'"
    using send_served [OF ok, of s STATUS_OK "[]"] C by auto
  have "on_txn (\<lambda>_. Txn_Commit) s1 = (Inr (), ?s2)" using C assms(3,4) by (simp add: on_txn_def)
  moreover have "reset_txn ord ?s2 = (Inr (), ?s3)" using reset_ended [of ?s2 "ended t"] by simp
  ultimately have "handle_commit what ord s1 = (Inr (), s')"
    using s'(1) C assms(3) by (simp add: handle_commit_def op_simps try_catch_def send_ok_def)
  then show ?thesis using s1(1) s'(2)
    by (simp add: op_simps dispatch_def OP_BEGIN_def OP_GET_def OP_PUT_def OP_DELETE_def OP_COMMIT_def)
qed

lemma serve_end: "conn_ok s \<Longrightarrow> input s = [] \<Longrightarrow> serve_one what ord s = (Inr False, s\<lparr>conn_in := []\<rparr>)"
  using read_exact_end [of s 1] by (simp add: serve_one_def op_simps)

lemma lock_first: "\<exists>l. lock_attempt i key EXCLUSIVE LockManager_new = (True, l)"
  by (simp add: lock_attempt_def get_or_create_def LockManager_new_def can_grant_def)

datatype client_request = Req_Begin | Req_Get bytes | Req_Put bytes bytes | Req_Delete bytes | Req_Commit | Req_Rollback

fun encode_request :: "client_request \<Rightarrow> bytes" where
  "encode_request Req_Begin = request OP_BEGIN []"
| "encode_request (Req_Get k) = request OP_GET (wire_string k)"
| "encode_request (Req_Put k v) = request OP_PUT (wire_string k @ wire_string v)"
| "encode_request (Req_Delete k) = request OP_DELETE (wire_string k)"
| "encode_request Req_Commit = request OP_COMMIT []"
| "encode_request Req_Rollback = request OP_ROLLBACK []"

lemmas op_codes = OP_BEGIN_def OP_GET_def OP_PUT_def OP_DELETE_def OP_COMMIT_def OP_ROLLBACK_def

subsection \<open>Data requests\<close>

text \<open>The method behind a data request, and the status and payload of the answer.\<close>

fun data_call :: "client_request \<Rightarrow> ('a, byte \<times> bytes) txn_op" where
  "data_call (Req_Get k) = op_bind (Txn_Get k) (\<lambda>v. op_return (case v of
     Some v \<Rightarrow> (STATUS_OK, be 2 (length v) @ v) | None \<Rightarrow> (STATUS_NOT_FOUND, [])))"
| "data_call (Req_Put k v) = op_bind (Txn_Put k v) (\<lambda>_. op_return (STATUS_OK, []))"
| "data_call (Req_Delete k) = op_bind (Txn_Delete k) (\<lambda>_. op_return (STATUS_OK, []))"
| "data_call _ = op_return (STATUS_OK, [])"

fun data_sizes :: "client_request \<Rightarrow> bool" where
  "data_sizes (Req_Get k) = (length k < 65536)"
| "data_sizes (Req_Put k v) = (length k < 65536 \<and> length v < 65536)"
| "data_sizes (Req_Delete k) = (length k < 65536)"
| "data_sizes _ = False"

definition data_handler :: "messages \<Rightarrow> undo_order \<Rightarrow> client_request \<Rightarrow> (client, unit) op" where
  "data_handler what ord r = with_catch what ord (op_bind (on_txn (\<lambda>_. data_call r)) (\<lambda>(st, pl). send_response st pl))"

lemma on_txn_return: "op_bind (on_txn (\<lambda>_. op_bind m (\<lambda>x. op_return (f x)))) k = op_bind (on_txn (\<lambda>_. m)) (\<lambda>x. k (f x))"
  by (rule ext) (auto simp: op_bind_def on_txn_def op_return_def split: option.split prod.split sum.split)

lemma data_handler_eq:
  "data_handler what ord (Req_Get k) = with_catch what ord (op_bind (on_txn (\<lambda>_. Txn_Get k)) (\<lambda>v. case v of
     Some v \<Rightarrow> send_ok_value v | None \<Rightarrow> send_not_found))"
  "data_handler what ord (Req_Put k v) = with_catch what ord (op_bind (on_txn (\<lambda>_. Txn_Put k v)) (\<lambda>_. send_ok))"
  "data_handler what ord (Req_Delete k) = with_catch what ord (op_bind (on_txn (\<lambda>_. Txn_Delete k)) (\<lambda>_. send_ok))"
proof -
  have "(\<lambda>v. case (case v of Some v \<Rightarrow> (STATUS_OK, be 2 (length v) @ v) | None \<Rightarrow> (STATUS_NOT_FOUND, [])) of (st, pl) \<Rightarrow> send_response st pl) =
      (\<lambda>v. case v of Some v \<Rightarrow> send_ok_value v | None \<Rightarrow> send_not_found)"
    by (auto simp: fun_eq_iff send_ok_value_def send_not_found_def split: option.split)
  then show "data_handler what ord (Req_Get k) = with_catch what ord (op_bind (on_txn (\<lambda>_. Txn_Get k)) (\<lambda>v. case v of
     Some v \<Rightarrow> send_ok_value v | None \<Rightarrow> send_not_found))"
    by (simp add: data_handler_def on_txn_return)
qed (simp_all add: data_handler_def on_txn_return send_ok_def)

text \<open>The payload is read, then the method is called.\<close>

lemma serve_data:
  assumes "conn_ok s" "input s = encode_request r @ rest" "data_sizes r" "cl_txn s = Some t"
  shows "\<exists>s'. serve_one what ord s = op_bind (data_handler what ord r) (\<lambda>_. op_return True) s' \<and> consumes s rest s'"
proof -
  have one: "\<exists>s'. read_string s1 = (Inr (Some k), s') \<and> consumes s1 r1 s'" if "consumes s (wire_string k @ r1) s1" "length k < 65536" for s1 k r1
    using read_string_run [of s1 k r1] consumesD [OF that(1)] assms(1) that(2) by auto
  show ?thesis
  proof (cases r)
    case (Req_Get k)
    obtain s1 where s1: "serve_one what ord s = op_bind (dispatch what ord OP_GET) (\<lambda>_. op_return True) s1" "consumes s (wire_string k @ rest) s1"
      using header_run [OF assms(1), of OP_GET "length (wire_string k)" "wire_string k @ rest"] assms(2) Req_Get by (auto simp: request_def)
    obtain s2 where s2: "read_string s1 = (Inr (Some k), s2)" "consumes s1 rest s2" using one [OF s1(2)] assms(3) Req_Get by auto
    have "dispatch what ord OP_GET s1 = data_handler what ord r s2"
      using s2(1) consumesD [OF s1(2)] assms(4) by (simp add: Req_Get data_handler_eq dispatch_def op_codes handle_get_def op_simps)
    then show ?thesis using s1 consumes_trans [OF s1(2) s2(2)] by (auto simp: op_bind_def)
  next
    case (Req_Put k v)
    let ?pl = "wire_string k @ wire_string v"
    obtain s1 where s1: "serve_one what ord s = op_bind (dispatch what ord OP_PUT) (\<lambda>_. op_return True) s1" "consumes s (wire_string k @ wire_string v @ rest) s1"
      using header_run [OF assms(1), of OP_PUT "length ?pl" "?pl @ rest"] assms(2) Req_Put by (auto simp: request_def)
    obtain s2 where s2: "read_string s1 = (Inr (Some k), s2)" "consumes s1 (wire_string v @ rest) s2" using one [OF s1(2)] assms(3) Req_Put by auto
    note c2 = consumes_trans [OF s1(2) s2(2)]
    obtain s3 where s3: "read_string s2 = (Inr (Some v), s3)" "consumes s2 rest s3" using one [OF c2] assms(3) Req_Put by auto
    have "dispatch what ord OP_PUT s1 = data_handler what ord r s3"
      using s2(1) s3(1) consumesD [OF s1(2)] assms(4) by (simp add: Req_Put data_handler_eq dispatch_def op_codes handle_put_def op_simps)
    then show ?thesis using s1 consumes_trans [OF c2 s3(2)] by (auto simp: op_bind_def)
  next
    case (Req_Delete k)
    obtain s1 where s1: "serve_one what ord s = op_bind (dispatch what ord OP_DELETE) (\<lambda>_. op_return True) s1" "consumes s (wire_string k @ rest) s1"
      using header_run [OF assms(1), of OP_DELETE "length (wire_string k)" "wire_string k @ rest"] assms(2) Req_Delete by (auto simp: request_def)
    obtain s2 where s2: "read_string s1 = (Inr (Some k), s2)" "consumes s1 rest s2" using one [OF s1(2)] assms(3) Req_Delete by auto
    have "dispatch what ord OP_DELETE s1 = data_handler what ord r s2"
      using s2(1) consumesD [OF s1(2)] assms(4) by (simp add: Req_Delete data_handler_eq dispatch_def op_codes handle_delete_def op_simps)
    then show ?thesis using s1 consumes_trans [OF s1(2) s2(2)] by (auto simp: op_bind_def)
  qed (use assms(3) in simp_all)
qed

text \<open>The method returned: the transaction goes on and the answer is sent.\<close>

lemma serve_data_done:
  assumes "conn_ok s" "input s = encode_request r @ rest" "data_sizes r" "cl_txn s = Some t"
    "data_call r (t, cl_db s) = (Inr (st, pl), (t', d))"
  shows "\<exists>s'. serve_one what ord s = (Inr True, s') \<and> served s (response st pl) rest (Some t') d s'"
proof -
  obtain s1 where s1: "serve_one what ord s = op_bind (data_handler what ord r) (\<lambda>_. op_return True) s1" "consumes s rest s1"
    using serve_data [OF assms(1-4)] by blast
  note C = consumesD [OF s1(2)]
  let ?s2 = "s1\<lparr>cl_txn := Some t', cl_db := d\<rparr>"
  have ok: "conn_ok ?s2" using C assms(1) by (simp add: conn_ok_def)
  obtain s' where s': "send_response st pl ?s2 = (Inr (), s')" "served s (response st pl) rest (Some t') d s'"
    using send_served [OF ok, of s st pl] C by auto
  have "on_txn (\<lambda>_. data_call r) s1 = (Inr (st, pl), ?s2)" using C assms(4,5) by (simp add: on_txn_def)
  then have "data_handler what ord r s1 = (Inr (), s')" using s'(1) by (simp add: data_handler_def with_catch_def try_catch_def op_simps)
  then show ?thesis using s1(1) s'(2) by (simp add: op_simps)
qed

text \<open>The lock was refused: the transaction is destroyed, which rolls it back.\<close>

lemma reset_open:
  assumes "cl_txn s = Some t" "\<not> txn_done t" "Txn_Rollback (ord t) (t, cl_db s) = (Inr (), (ended t, d))"
  shows "reset_txn ord s = (Inr (), s\<lparr>cl_txn := None, cl_db := d\<rparr>)"
  using assms by (simp add: reset_txn_def op_bind_def on_txn_def Txn_destroy_def txn_get_run try_catch_def op_modify_def)

lemma serve_data_deadlock:
  assumes "conn_ok s" "input s = encode_request r @ rest" "data_sizes r" "cl_txn s = Some t"
    "data_call r (t, cl_db s) = (Inl Deadlock_exception, (t, d))" "\<not> txn_done t" "Txn_Rollback (ord t) (t, d) = (Inr (), (ended t, d'))"
  shows "\<exists>s'. serve_one what ord s = (Inr True, s') \<and> served s (response STATUS_DEADLOCK []) rest None d' s'"
proof -
  obtain s1 where s1: "serve_one what ord s = op_bind (data_handler what ord r) (\<lambda>_. op_return True) s1" "consumes s rest s1"
    using serve_data [OF assms(1-4)] by blast
  note C = consumesD [OF s1(2)]
  let ?s2 = "s1\<lparr>cl_txn := Some t, cl_db := d\<rparr>"
  let ?s3 = "?s2\<lparr>cl_txn := None, cl_db := d'\<rparr>"
  have ok: "conn_ok ?s3" using C assms(1) by (simp add: conn_ok_def)
  obtain s' where s': "send_response STATUS_DEADLOCK [] ?s3 = (Inr (), s')" "served s (response STATUS_DEADLOCK []) rest None d' s'"
    using send_served [OF ok, of s STATUS_DEADLOCK "[]"] C by auto
  have "on_txn (\<lambda>_. data_call r) s1 = (Inl Deadlock_exception, ?s2)" using C assms(4,5) by (simp add: on_txn_def)
  moreover have "reset_txn ord ?s2 = (Inr (), ?s3)" using reset_open [of ?s2 t ord d'] assms(6,7) by simp
  ultimately have "data_handler what ord r s1 = (Inr (), s')"
    using s'(1) by (simp add: data_handler_def with_catch_def try_catch_def is_exception_def op_simps send_deadlock_def)
  then show ?thesis using s1(1) s'(2) by (simp add: op_simps)
qed

subsection \<open>Rolling back and leaving\<close>

lemma serve_rollback:
  assumes "conn_ok s" "input s = encode_request Req_Rollback @ rest" "cl_txn s = Some t" "Txn_Rollback (ord t) (t, cl_db s) = (Inr (), (ended t, d))"
  shows "\<exists>s'. serve_one what ord s = (Inr True, s') \<and> served s (response STATUS_OK []) rest None d s'"
proof -
  obtain s1 where s1: "serve_one what ord s = op_bind (dispatch what ord OP_ROLLBACK) (\<lambda>_. op_return True) s1" "consumes s rest s1"
    using header_run [OF assms(1), of OP_ROLLBACK 0 rest] assms(2) by (auto simp: request_def)
  note C = consumesD [OF s1(2)]
  let ?s2 = "s1\<lparr>cl_txn := Some (ended t), cl_db := d\<rparr>"
  let ?s3 = "?s2\<lparr>cl_txn := None\<rparr>"
  have ok: "conn_ok ?s3" using C assms(1) by (simp add: conn_ok_def)
  obtain s' where s': "send_response STATUS_OK [] ?s3 = (Inr (), s')" "served s (response STATUS_OK []) rest None d s'"
    using send_served [OF ok, of s STATUS_OK "[]"] C by auto
  have "on_txn (\<lambda>t. Txn_Rollback (ord t)) s1 = (Inr (), ?s2)" using C assms(3,4) by (simp add: on_txn_def)
  moreover have "reset_txn ord ?s2 = (Inr (), ?s3)" using reset_ended [of ?s2 "ended t"] by simp
  ultimately have "handle_rollback ord s1 = (Inr (), s')"
    using s'(1) C assms(3) by (simp add: handle_rollback_def op_simps try_catch_def send_ok_def)
  then show ?thesis using s1(1) s'(2) by (simp add: op_simps dispatch_def op_codes)
qed

lemma cleanup_none: "cl_txn s = None \<Longrightarrow> client_cleanup ord s = (Inr (), s\<lparr>conn_closed := True\<rparr>)"
  by (simp add: client_cleanup_def op_simps)

lemma cleanup_open:
  assumes "cl_txn s = Some t" "Txn_Rollback (ord t) (t, cl_db s) = (Inr (), (ended t, d))"
  shows "client_cleanup ord s = (Inr (), s\<lparr>cl_txn := None, cl_db := d, conn_closed := True\<rparr>)"
proof -
  let ?s1 = "s\<lparr>cl_txn := Some (ended t), cl_db := d\<rparr>"
  have "on_txn (\<lambda>t. Txn_Rollback (ord t)) s = (Inr (), ?s1)" using assms by (simp add: on_txn_def)
  moreover have "reset_txn ord ?s1 = (Inr (), ?s1\<lparr>cl_txn := None\<rparr>)" using reset_ended [of ?s1 "ended t"] by simp
  ultimately show ?thesis using assms(1) by (simp add: client_cleanup_def op_simps try_catch_def)
qed

end
