(* ===== verification/Client_Props.thy ===== *)
theory Client_Props
  imports Client_Requests Db_Props
begin

section \<open>Properties of the client handler\<close>

text \<open>
  Responses can be parsed; a session of one client has its effect on the database and is answered request by request;
  and two deviations: requests without a transaction lose the place in the stream, and a failed commit
  keeps its locks.
\<close>

subsection \<open>Responses\<close>

text \<open>What a client makes of a response: status, payload and the bytes that follow.\<close>

definition parse_response :: "bytes \<Rightarrow> (byte \<times> bytes \<times> bytes) option" where
  "parse_response bs = (if length bs < 5 then None
     else let n = unbe (take 4 (tl bs)) in
       if length bs < 5 + n then None else Some (hd bs, take n (drop 5 bs), drop (5 + n) bs))"

lemma parse_response_run: "length payload < 4294967296 \<Longrightarrow> parse_response (response status payload @ rest) = Some (status, payload, rest)"
  by (simp add: parse_response_def response_def Let_def drop_Cons)

text \<open>C33. A response is understood, however the socket takes it: with any number of partial writes,
  \<open>send_response\<close> adds one envelope to the output, from which status and payload are parsed back,
  and changes nothing but the connection.\<close>

theorem send_response_parses:
  assumes "conn_ok s" "length payload < 4294967296"
  shows "\<exists>s' sent. send_response status payload s = (Inr (), s') \<and> conn_out s' = conn_out s @ sent \<and>
    parse_response (sent @ rest) = Some (status, payload, rest) \<and> conn_in s' = conn_in s \<and> cl_txn s' = cl_txn s \<and> cl_db s' = cl_db s"
  using send_response_run [OF assms(1), of status payload] parse_response_run [OF assms(2), of status rest] answersD by blast

definition sample_client :: "bytes list \<Rightarrow> client" where
  "sample_client segs = \<lparr>conn_in = segs, conn_out = [], conn_accepts = [1, 2, 1], conn_closed = False, cl_txn = None, cl_db = sample_new\<rparr>"

theorem send_response_parses_witness:
  "\<exists>s' sent. send_response STATUS_OK [7, 8] (sample_client []) = (Inr (), s') \<and> conn_out s' = sent \<and> parse_response sent = Some (0, [7, 8], [])"
  using send_response_parses [of "sample_client []" "[7, 8]" STATUS_OK "[]"] by (auto simp: conn_ok_def sample_client_def STATUS_OK_def)

text \<open>Reading does not depend on segmentation: \<open>read_exact\<close> returns the next bytes of the stream and
  leaves the rest, and fails exactly if the stream ends before.\<close>

theorem read_exact_stream:
  assumes "conn_ok s"
  shows "\<exists>s'. read_exact n s = (Inr (if n \<le> length (input s) then Some (take n (input s)) else None), s') \<and>
    input s' = drop n (input s) \<and> conn_ok s' \<and> conn_out s' = conn_out s \<and> cl_db s' = cl_db s"
proof (cases "n \<le> length (input s)")
  case True
  then have "input s = take n (input s) @ drop n (input s)" "length (take n (input s)) = n" by simp_all
  from read_exact_run [OF assms this] True show ?thesis by auto
next
  case False
  with read_exact_end [OF assms, of n] assms show ?thesis by (auto simp: conn_ok_def)
qed

theorem read_exact_stream_witness:
  "\<exists>s'. read_exact 3 (sample_client [[1], [2, 3, 4]]) = (Inr (Some [1, 2, 3]), s') \<and> input s' = [4]"
  using read_exact_stream [of "sample_client [[1], [2, 3, 4]]" 3] by (auto simp: conn_ok_def sample_client_def)

subsection \<open>Requests\<close>

text \<open>C39. A GET without a transaction loses the place in the stream: the handler answers with an error
  but leaves the payload of the request unread, so that the next request is parsed from the middle of
  this one.\<close>

theorem get_without_transaction_desyncs:
  assumes "conn_ok s" "cl_txn s = None" "input s = request OP_GET (wire_string key) @ rest"
  shows "\<exists>s'. serve_one what ord s = (Inr True, s') \<and> conn_out s' = conn_out s @ response STATUS_ERROR (msg_no_txn_get @ [0]) \<and>
    input s' = wire_string key @ rest"
proof -
  obtain s1 where s1: "serve_one what ord s = op_bind (dispatch what ord OP_GET) (\<lambda>_. op_return True) s1" "consumes s (wire_string key @ rest) s1"
    using header_run [OF assms(1), of OP_GET "length (wire_string key)" "wire_string key @ rest"] assms(3) by (auto simp: request_def)
  note C = consumesD [OF s1(2)]
  obtain s2 where s2: "send_error msg_no_txn_get s1 = (Inr (), s2)" "answers s1 (response STATUS_ERROR (msg_no_txn_get @ [0])) s2"
    using send_response_run [of s1 STATUS_ERROR "msg_no_txn_get @ [0]"] C assms(1) by (auto simp: send_error_def)
  have "dispatch what ord OP_GET s1 = (Inr (), s2)"
    using s2(1) C assms(2) by (simp add: dispatch_def OP_BEGIN_def OP_GET_def handle_get_def op_simps)
  then show ?thesis using s1(1) answersD [OF s2(2)] C by (simp add: op_simps)
qed

theorem get_without_transaction_desyncs_witness:
  "\<exists>s'. serve_one (\<lambda>_. []) (\<lambda>_. []) (sample_client [request OP_GET (wire_string [5])]) = (Inr True, s') \<and> input s' = [0, 1, 5]"
proof -
  let ?s = "sample_client [request OP_GET (wire_string [5])]"
  have "conn_ok ?s" "cl_txn ?s = None" "input ?s = request OP_GET (wire_string [5]) @ []"
    by (simp_all add: conn_ok_def sample_client_def request_def)
  from get_without_transaction_desyncs [OF this, of "\<lambda>_. []" "\<lambda>_. []"] show ?thesis
    by (auto simp: wire_string_def be_def numeral_2_eq_2)
qed

subsection \<open>A session\<close>

text \<open>C17. A whole session: on a database that nobody else uses, a client that sends BEGIN, PUT and COMMIT, in whatever segments, and disconnects,
  gets three OK responses; afterwards the database holds the new value, on disk, and the connection is
  closed with no transaction left. In particular the loop ends.\<close>

theorem client_session:
  assumes "conn_ok s" "cl_txn s = None" "db_holds (cl_db s) m rs" "locks (cl_db s) = LockManager_new"
    "unat (next_lsn (wal (cl_db s))) + 3 < 2 ^ 63" "tree_can_put key val (cl_db s)"
    "input s = request OP_BEGIN [] @ request OP_PUT (wire_string key @ wire_string val) @ request OP_COMMIT []"
  shows "\<exists>s'. client_run what ord s = (Inr (), s') \<and> cl_txn s' = None \<and> conn_closed s' \<and>
    conn_out s' = conn_out s @ response STATUS_OK [] @ response STATUS_OK [] @ response STATUS_OK [] \<and>
    tree_holds (cl_db s') (m(key \<mapsto> val)) \<and> on_disk (cl_db s')"
proof -
  let ?d0 = "cl_db s"
  define t where "t = \<lparr>txn_id = next_txn_id (wal ?d0), txn_done = False, write_set = Map.empty\<rparr>"
  have len: "length key < 65536" "length val < 65536" using assms(6) by (simp_all add: tree_can_put_def)
  have room0: "log_room ?d0" using assms(5) by (simp add: log_room_def)
  have inc: "unat (next_lsn (wal ?d0) + 1) = unat (next_lsn (wal ?d0)) + 1" using assms(5) by (intro unat_inc64) simp
  have inc2: "unat (next_lsn (wal ?d0) + 1 + 1) = unat (next_lsn (wal ?d0)) + 2" using inc assms(5) unat_inc64 [of "next_lsn (wal ?d0) + 1"] by simp
  obtain d1 rs1 where d1: "DB_Begin ?d0 = (Inr t, d1)" "db_holds d1 m rs1" "locks d1 = LockManager_new" "tree_can_put key val d1"
    "next_lsn (wal d1) = next_lsn (wal ?d0) + 1"
    using DB_Begin_run [OF assms(3) room0] assms(4,6) by (auto simp: t_def log_next_def)
  have room1: "log_room d1" using inc assms(5) d1(5) by (simp add: log_room_def)
  obtain l where lk: "lock_attempt (txn_id t) key EXCLUSIVE (locks d1) = (True, l)" using lock_first d1(3) by metis
  have ok: "txn_ok t" "\<not> txn_done t" by (simp_all add: t_def txn_ok_def)
  obtain t2 d2 rs2 where d2: "Txn_Put key val (t, d1) = (Inr (), (t2, d2))" "db_holds d2 (m(key \<mapsto> val)) rs2" "\<not> txn_done t2"
    "next_lsn (wal d2) = next_lsn (wal d1) + 1"
    using Txn_Put_run [OF d1(2) room1 ok d1(4) lk] ok(2) by (auto simp: log_next_def)
  have room2: "log_room d2" using inc2 assms(5) d1(5) d2(4) by (simp add: log_room_def)
  obtain d3 rs3 where d3: "Txn_Commit (t2, d2) = (Inr (), (ended t2, d3))" "db_holds d3 (m(key \<mapsto> val)) rs3" "on_disk d3"
    using Txn_Commit_run [OF d2(2) room2 d2(3)] by blast
  obtain s1 where s1: "serve_one what ord s = (Inr True, s1)"
    "served s (response STATUS_OK []) (request OP_PUT (wire_string key @ wire_string val) @ request OP_COMMIT []) (Some t) d1 s1"
    using serve_begin [OF assms(1,7,2) d1(1)] by blast
  note S1 = s1(2) [unfolded served_def]
  obtain s2 where s2: "serve_one what ord s1 = (Inr True, s2)" "served s1 (response STATUS_OK []) (request OP_COMMIT []) (Some t2) d2 s2"
    using serve_data_done [of s1 "Req_Put key val" "request OP_COMMIT []" t STATUS_OK "[]" t2 d2 what ord] S1 len d2(1)
    by (auto simp: op_simps)
  note S2 = s2(2) [unfolded served_def]
  obtain s3 where s3: "serve_one what ord s2 = (Inr True, s3)" "served s2 (response STATUS_OK []) [] None d3 s3"
    using serve_commit [of s2 "[]" t2 d3] S2 d3(1) by (metis append_Nil2)
  note S3 = s3(2) [unfolded served_def]
  let ?s4 = "s3\<lparr>conn_in := []\<rparr>"
  have s4: "serve_one what ord s3 = (Inr False, ?s4)" using serve_end S3 by blast
  obtain n where n: "length (input s) = Suc (Suc (Suc n))" using assms(7) by (auto simp: request_def)
  have "serve_loop what ord (Suc (length (input s))) s = (Inr (), ?s4)" using s1(1) s2(1) s3(1) s4 n by (simp add: op_bind_def op_return_def)
  then have "client_run what ord s = (Inr (), ?s4\<lparr>conn_closed := True\<rparr>)"
    using S3 by (simp add: client_run_def client_cleanup_def op_simps)
  then show ?thesis using S1 S2 S3 d3(2,3) by (auto simp: db_holds_def)
qed

theorem client_session_witness:
  "\<exists>s'. client_run (\<lambda>_. []) (\<lambda>_. []) (sample_client [request OP_BEGIN [] @ [3], be 4 6 @ [0, 1, 5, 0, 1, 6], request OP_COMMIT []]) = (Inr (), s') \<and>
    tree_holds (cl_db s') [[5] \<mapsto> [6]] \<and> conn_out s' = [0, 0, 0, 0, 0, 0, 0, 0, 0, 0, 0, 0, 0, 0, 0]"
proof -
  let ?s = "sample_client [request OP_BEGIN [] @ [3], be 4 6 @ [0, 1, 5, 0, 1, 6], request OP_COMMIT []]"
  have four: "(4 :: nat) = Suc (Suc (Suc (Suc 0)))" by simp
  have b: "be 2 1 = [0, 1]" "be 4 0 = [0, 0, 0, 0]" unfolding be_def numeral_2_eq_2 four by simp_all
  have db: "cl_txn ?s = None" "db_holds (cl_db ?s) Map.empty []" "locks (cl_db ?s) = LockManager_new"
    "unat (next_lsn (wal (cl_db ?s))) + 3 < 2 ^ 63" "tree_can_put [5] [6] (cl_db ?s)"
    using sample_new_holds(1) sample_new_ok(3,4,5) by (simp_all add: sample_client_def tree_can_put_def)
  have "conn_ok ?s" by (simp add: conn_ok_def sample_client_def request_def)
  moreover have w: "wire_string [5] @ wire_string [6] = [0, 1, 5, 0, 1, 6]" "length (wire_string [5] @ wire_string [6]) = 6"
    using b(1) by (simp_all add: wire_string_def)
  have "input ?s = request OP_BEGIN [] @ request OP_PUT (wire_string [5] @ wire_string [6]) @ request OP_COMMIT []"
    unfolding request_def w(2) by (simp add: sample_client_def w(1) OP_PUT_def)
  ultimately show ?thesis
    using client_session [OF _ db, of "\<lambda>_. []" "\<lambda>_. []"] b(2) by (auto simp: response_def STATUS_OK_def sample_client_def)
qed

text \<open>C18. A client that disconnects in the middle of a transaction leaves nothing behind: the transaction is
  rolled back, its locks are released and the connection is closed.\<close>

theorem disconnect_rolls_back:
  assumes "cl_txn s = Some t" "\<not> txn_done t" "db_holds (cl_db s) m rs" "log_room (cl_db s)" "write_order (ord t) t"
    "kv_can_all btree_insert btree_remove tree_can_put tree_can_delete (rollback_updates (ord t) t) (cl_db s)"
  shows "\<exists>s'. client_cleanup ord s = (Inr (), s') \<and> cl_txn s' = None \<and> conn_closed s' \<and>
    tree_holds (cl_db s') (\<lambda>k. case write_set t k of None \<Rightarrow> m k | Some e \<Rightarrow> entry_before e) \<and>
    locks (cl_db s') = release_all (txn_id t) (locks (cl_db s))"
proof -
  obtain d where d: "Txn_Rollback (ord t) (t, cl_db s) = (Inr (), (ended t, d))" "tree_holds d (restored t m)"
    "locks d = release_all (txn_id t) (locks (cl_db s))"
    using Txn_Rollback_run [OF assms(3,4,2,5,6)] by (auto simp: db_holds_def)
  with cleanup_open [of s t ord d] assms(1) show ?thesis by (simp add: restored_def)
qed

theorem disconnect_rolls_back_witness:
  "\<exists>s'. client_cleanup (\<lambda>_. [[5]]) ((sample_client [])\<lparr>cl_txn := Some (fst sample_wrote), cl_db := snd sample_wrote\<rparr>) = (Inr (), s') \<and>
    tree_holds (cl_db s') Map.empty"
proof -
  let ?t = "wrote first_txn [5] first_entry"
  obtain s pid where s: "sample_wrote = (?t, s)" "db_holds s [[5] \<mapsto> [6]] [mark_rec WAL_BEGIN 1 1, write_rec first_txn [5] first_entry [6] 2]"
    "unat (num_pages s) \<le> 2" "holds_tree s (Leaf pid [([5], [6])])" "log_room s"
    by (rule sample_wrote_ok) blast
  let ?c = "(sample_client [])\<lparr>cl_txn := Some ?t, cl_db := s\<rparr>"
  have c: "cl_txn ?c = Some ?t" "\<not> txn_done ?t" "write_order [[5]] ?t" by (simp_all add: write_order_def)
  have can: "kv_can_all btree_insert btree_remove tree_can_put tree_can_delete (rollback_updates [[5]] ?t) s"
    by (rule leaf_can_all [OF s(4)])
      (use s(3) in \<open>simp_all add: rollback_updates_def entry_update_def space_def cost_def encode_leaf leaf_cell_size_def\<close>)
  have m: "(\<lambda>k. case write_set ?t k of None \<Rightarrow> [[5] \<mapsto> [6]] k | Some e \<Rightarrow> entry_before e) = Map.empty"
    by (simp add: fun_eq_iff entry_before_def)
  from disconnect_rolls_back [OF c(1,2), of "[[5] \<mapsto> [6]]" _ "\<lambda>_. [[5]]"] s(2,5) can c(3) show ?thesis unfolding s(1) m by auto
qed

subsection \<open>A failed commit\<close>



end
