(* ===== verification/Server.thy ===== *)
theory Server
  imports Client_Handler
begin

section \<open>The server (\<open>src/server/server.{h,cpp}\<close>, \<open>src/server/main.cpp\<close>)\<close>

text \<open>
  The server owns the database and a listening socket, and starts one detached thread per
  connection. The threads share the database: a thread runs its handler on the current database and
  leaves it to the others as it is afterwards. The state of a thread is that of its handler.

  A run of the server is a list of events in the order in which the scheduler and the network let
  them happen: \<open>accept\<close> returns in the main thread, a thread serves its next request, or a signal
  arrives. The calls to \<open>socket\<close>, \<open>bind\<close> and \<open>listen\<close> succeed or not, as an argument says. What the
  server prints is left out.
\<close>

record server =
  srv_db :: db
  srv_port :: int
  listening :: bool
  stopping :: bool
  handlers :: "client list"

subsection \<open>Starting\<close>

text \<open>\<open>htons(static_cast<uint16_t>(port_))\<close>: the port that is bound.\<close>

definition bound_port :: "int \<Rightarrow> nat" where
  "bound_port port = nat (port mod 65536)"

record startup =
  socket_ok :: bool
  bind_ok :: "nat \<Rightarrow> bool"
  listen_ok :: bool

definition Server_new :: "buf \<Rightarrow> nat \<Rightarrow> io_outcome list \<Rightarrow> bytes \<Rightarrow> io_outcome list \<Rightarrow> int \<Rightarrow> startup \<Rightarrow> exc + server" where
  "Server_new file sz faults log_file log_faults port os =
     res_bind (DB_Open file sz faults log_file log_faults) (\<lambda>d.
     if \<not> socket_ok os then Inl Runtime_error
     else if \<not> bind_ok os (bound_port port) then Inl Runtime_error
     else if \<not> listen_ok os then Inl Runtime_error
     else Inr \<lparr>srv_db = d, srv_port = port, listening = True, stopping = False, handlers = []\<rparr>)"

subsection \<open>Stopping\<close>

definition Server_stop :: "server \<Rightarrow> server" where
  "Server_stop s = (let s1 = s\<lparr>stopping := True\<rparr> in if listening s1 then s1\<lparr>listening := False\<rparr> else s1)"

definition on_srv_db :: "(db, 'x) op \<Rightarrow> (server, 'x) op" where
  "on_srv_db m = (\<lambda>s. case m (srv_db s) of (r, d) \<Rightarrow> (r, s\<lparr>srv_db := d\<rparr>))"

text \<open>The destructor closes the database; then the members are destroyed.\<close>

definition Server_destroy :: "(server, unit) op" where
  "Server_destroy = op_bind (op_modify (\<lambda>s. if listening s then s\<lparr>listening := False\<rparr> else s)) (\<lambda>_.
     op_bind (on_srv_db DB_Close) (\<lambda>_.
     on_srv_db DB_destroy))"

subsection \<open>Threads\<close>

definition new_handler :: "bytes list \<Rightarrow> nat list \<Rightarrow> db \<Rightarrow> client" where
  "new_handler segs accepts d = \<lparr>conn_in = segs, conn_out = [], conn_accepts = accepts, conn_closed = False, cl_txn = None, cl_db = d\<rparr>"

text \<open>A thread works on the shared database.\<close>

definition with_handler :: "nat \<Rightarrow> (client, 'x) op \<Rightarrow> (server, 'x) op" where
  "with_handler i m = (\<lambda>s. case m ((handlers s ! i)\<lparr>cl_db := srv_db s\<rparr>) of
     (r, c) \<Rightarrow> (r, s\<lparr>handlers := (handlers s)[i := c], srv_db := cl_db c\<rparr>))"

text \<open>One round of the request loop of a thread, or the end of it. An exception that leaves the thread
  function ends the process, here as the result of the step. A thread that has ended does nothing.\<close>

definition handler_step :: "messages \<Rightarrow> undo_order \<Rightarrow> nat \<Rightarrow> (server, unit) op" where
  "handler_step what ord i = op_bind (op_gets (\<lambda>s. i < length (handlers s) \<and> \<not> conn_closed (handlers s ! i))) (\<lambda>alive.
     if alive then
       op_bind (with_handler i (serve_one what ord)) (\<lambda>more.
       if more then op_return () else with_handler i (client_cleanup ord))
     else op_return ())"

subsection \<open>The accept loop\<close>

datatype accept_result = Accepted "bytes list" "nat list" | Accept_error

definition accept_call :: "accept_result \<Rightarrow> (server, (bytes list \<times> nat list) option) op" where
  "accept_call a = op_bind (op_gets listening) (\<lambda>l. op_return (case a of
     Accepted segs accepts \<Rightarrow> if l then Some (segs, accepts) else None
   | Accept_error \<Rightarrow> None))"

definition spawn_handler :: "bytes list \<Rightarrow> nat list \<Rightarrow> (server, unit) op" where
  "spawn_handler segs accepts = op_modify (\<lambda>s. s\<lparr>handlers := handlers s @ [new_handler segs accepts (srv_db s)]\<rparr>)"

text \<open>One round of \<open>run\<close>, from the return of \<open>accept\<close> to the next test of the loop: \<open>False\<close> leaves the loop.\<close>

definition run_round :: "accept_result \<Rightarrow> (server, bool) op" where
  "run_round a = op_bind (accept_call a) (\<lambda>conn. case conn of
     None \<Rightarrow> op_gets (\<lambda>s. \<not> stopping s)
   | Some (segs, accepts) \<Rightarrow> op_bind (spawn_handler segs accepts) (\<lambda>_. op_gets (\<lambda>s. \<not> stopping s)))"

datatype event = Main accept_result | Thread nat | Signal

text \<open>The result says whether \<open>run\<close> has returned when the events are over.\<close>

fun server_loop :: "messages \<Rightarrow> undo_order \<Rightarrow> event list \<Rightarrow> (server, bool) op" where
  "server_loop what ord [] = op_return False"
| "server_loop what ord (Main a # es) = op_bind (run_round a) (\<lambda>more. if more then server_loop what ord es else op_return True)"
| "server_loop what ord (Thread i # es) = op_bind (handler_step what ord i) (\<lambda>_. server_loop what ord es)"
| "server_loop what ord (Signal # es) = op_bind (op_modify Server_stop) (\<lambda>_. server_loop what ord es)"

definition server_run :: "messages \<Rightarrow> undo_order \<Rightarrow> event list \<Rightarrow> (server, bool) op" where
  "server_run what ord es = op_bind (op_gets stopping) (\<lambda>st. if st then op_return True else server_loop what ord es)"

subsection \<open>The command line\<close>

definition DEFAULT_PORT :: int where "DEFAULT_PORT = 6380"

definition is_digit :: "char \<Rightarrow> bool" where
  "is_digit c \<longleftrightarrow> (48 :: nat) \<le> of_char c \<and> of_char c \<le> (57 :: nat)"

definition is_space :: "char \<Rightarrow> bool" where
  "is_space c \<longleftrightarrow> c = CHR '' '' \<or> ((9 :: nat) \<le> of_char c \<and> of_char c \<le> (13 :: nat))"

definition digits_value :: "string \<Rightarrow> int" where
  "digits_value ds = fold (\<lambda>c n. 10 * n + (int (of_char c) - 48)) ds 0"

text \<open>\<open>std::stoi\<close>: white space, a sign and as many digits as there are; what follows is ignored.\<close>

definition stoi :: "string \<Rightarrow> exc + int" where
  "stoi str =
     (let s1 = dropWhile is_space str;
          neg = (s1 \<noteq> [] \<and> hd s1 = CHR ''-'');
          s2 = (if s1 \<noteq> [] \<and> (hd s1 = CHR ''-'' \<or> hd s1 = CHR ''+'') then tl s1 else s1);
          ds = takeWhile is_digit s2;
          v = (if neg then - digits_value ds else digits_value ds)
      in if ds = [] then Inl Invalid_argument
         else if v < - (2 ^ 31) \<or> 2 ^ 31 \<le> v then Inl Out_of_range
         else Inr v)"

text \<open>The loop looks at every argument but the last, also at one that was the value of an option.\<close>

fun parse_args :: "string list \<Rightarrow> string \<times> int \<Rightarrow> exc + string \<times> int" where
  "parse_args (a # b # args) (db_path, port) =
     (let db_path' = (if a = ''--db'' then b else db_path) in
      res_bind (if a = ''--port'' then stoi b else Inr port) (\<lambda>port'. parse_args (b # args) (db_path', port')))"
| "parse_args args cfg = Inr cfg"

text \<open>\<open>main\<close>: the contents of the files are given by path; the result is the exit code and the server when
  \<open>main\<close> ends, \<open>None\<close> if it does not. An exception outside of the \<open>try\<close> block terminates the process.\<close>

definition server_main ::
  "(string \<Rightarrow> buf \<times> nat) \<Rightarrow> (string \<Rightarrow> bytes) \<Rightarrow> string list \<Rightarrow> startup \<Rightarrow> messages \<Rightarrow> undo_order \<Rightarrow> event list \<Rightarrow> exc + (nat \<times> server option) option" where
  "server_main files logs args os what ord es =
     res_bind (parse_args args (''keyvdb.db'', DEFAULT_PORT)) (\<lambda>(db_path, port).
     case Server_new (fst (files db_path)) (snd (files db_path)) [] (logs (db_path @ ''.wal'')) [] port os of
       Inl e \<Rightarrow> if is_exception e then Inr (Some (1, None)) else Inl e
     | Inr s \<Rightarrow>
         (case server_run what ord es s of
            (Inl e, _) \<Rightarrow> Inl e
          | (Inr False, _) \<Rightarrow> Inr None
          | (Inr True, s1) \<Rightarrow> (case Server_destroy s1 of (Inl e, _) \<Rightarrow> Inl e | (Inr _, s2) \<Rightarrow> Inr (Some (0, Some s2)))))"

end
