(* ===== verification/Server_Props.thy ===== *)
theory Server_Props
  imports Server Client_Props
begin

section \<open>Properties of the server\<close>

text \<open>
  Many clients at once. Under every interleaving of their requests, the database and the open
  transactions of the connections are a reachable state of the transition system of the database, so
  that everything proved there holds for the server. Then stopping, with what it does to transactions
  that are still open.
\<close>

subsection \<open>Requests within the limits\<close>

definition rollback_ok :: "undo_order \<Rightarrow> transaction \<Rightarrow> db \<Rightarrow> bool" where
  "rollback_ok ord t d \<longleftrightarrow> log_room d \<and> write_order (ord t) t \<and>
     (\<forall>l. kv_can_all btree_insert btree_remove tree_can_put tree_can_delete (rollback_updates (ord t) t) (d\<lparr>locks := l\<rparr>))"

fun request_ok :: "undo_order \<Rightarrow> transaction option \<Rightarrow> db \<Rightarrow> client_request \<Rightarrow> bool" where
  "request_ok ord None d Req_Begin = (log_room d \<and> unat (next_txn_id (wal d)) + 1 < 2 ^ 63)"
| "request_ok ord (Some t) d (Req_Get k) = (length k < 65536 \<and> rollback_ok ord t d)"
| "request_ok ord (Some t) d (Req_Put k v) = (tree_can_put k v d \<and> v \<noteq> [] \<and> rollback_ok ord t d)"
| "request_ok ord (Some t) d (Req_Delete k) = (length k < 65536 \<and>
     (fst (btree_get k d) \<noteq> Inr None \<longrightarrow> tree_can_delete k d) \<and> rollback_ok ord t d)"
| "request_ok ord (Some t) d Req_Commit = log_room d"
| "request_ok ord (Some t) d Req_Rollback = rollback_ok ord t d"
| "request_ok ord _ d _ = False"

text \<open>The specification: only a commit changes the committed map.\<close>

fun committed_after :: "client_request \<Rightarrow> transaction option \<Rightarrow> kv_map \<Rightarrow> kv_map" where
  "committed_after Req_Commit (Some t) m = committed_by t m"
| "committed_after _ _ m = m"

text \<open>The open transactions after a connection went from one transaction to another.\<close>

fun next_txns :: "transaction option \<Rightarrow> transaction option \<Rightarrow> (txn_id \<rightharpoonup> transaction) \<Rightarrow> (txn_id \<rightharpoonup> transaction)" where
  "next_txns None None T = T"
| "next_txns None (Some t) T = T(txn_id t \<mapsto> t)"
| "next_txns (Some t) (Some t') T = T(txn_id t \<mapsto> t')"
| "next_txns (Some t) None T = T(txn_id t := None)"

definition txn_change :: "transaction option \<Rightarrow> transaction option \<Rightarrow> (txn_id \<rightharpoonup> transaction) \<Rightarrow> bool" where
  "txn_change tx tx' T \<longleftrightarrow> (case (tx, tx') of (None, Some t') \<Rightarrow> T (txn_id t') = None | (Some t, Some t') \<Rightarrow> txn_id t' = txn_id t | _ \<Rightarrow> True)"

subsection \<open>One request\<close>

lemma rollback_run:
  assumes "dbs.reachable m0 (d, T, m)" "T (txn_id t) = Some t" "rollback_ok ord t d"
  shows "\<exists>d'. Txn_Rollback (ord t) (t, d) = (Inr (), (ended t, d')) \<and> dbs.reachable m0 (d', T(txn_id t := None), m)"
proof -
  obtain cur rs where inv: "sys_inv m0 d T m cur rs" using reachable_inv [OF assms(1)] .
  note Ti = txn_invD [OF sys_invD(4) [OF inv assms(2)]]
  have "d\<lparr>locks := locks d\<rparr> = d" by simp
  then have ok: "log_room d" "write_order (ord t) t"
    "kv_can_all btree_insert btree_remove tree_can_put tree_can_delete (rollback_updates (ord t) t) d"
    using assms(3) unfolding rollback_ok_def by metis+
  obtain d' where d': "Txn_Rollback (ord t) (t, d) = (Inr (), (ended t, d'))"
    using Txn_Rollback_run [OF sys_invD(1) [OF inv] ok(1) Ti(2) ok(2,3)] by blast
  with dbs.reachable_step [OF assms(1) Step_Rollback [where T = T and i = "txn_id t", OF assms(2) ok d']] show ?thesis by blast
qed

text \<open>A removal returns, or throws because of a lock.\<close>

lemma delete_result:
  assumes "db_holds d cur rs" "log_room d" "txn_ok t" "\<not> txn_done t" "length k < 2 ^ 32" "fst (btree_get k d) \<noteq> Inr None \<longrightarrow> tree_can_delete k d"
  shows "\<exists>res t' d'. Txn_Delete k (t, d) = (res, (t', d')) \<and> txn_id t' = txn_id t \<and>
    (res = Inr () \<or> res = Inl Deadlock_exception \<and> t' = t \<and> (\<exists>l. d' = d\<lparr>locks := l\<rparr>))"
proof -
  have "fst (btree_get k d) = Inr (cur k)" using bt.get_law [of d cur k] assms(1) by (auto simp: db_holds_def)
  then have can: "cur k \<noteq> None \<Longrightarrow> tree_can_delete k d" using assms(6) by simp
  obtain g l where lk: "lock_attempt (txn_id t) k EXCLUSIVE (locks d) = (g, l)" by fastforce
  show ?thesis
  proof (cases g)
    case True
    then have lt: "lock_attempt (txn_id t) k EXCLUSIVE (locks d) = (True, l)" using lk by simp
    note D = Txn_Delete_run [OF assms(1-5) can lt]
    show ?thesis
    proof (cases "cur k = None")
      case True
      from D(1) [OF _ True] show ?thesis by blast
    next
      case False
      from D(2) False show ?thesis by fastforce
    qed
  next
    case False
    from refused(3) [of t k EXCLUSIVE d l] lk False assms(4) show ?thesis by auto
  qed
qed

text \<open>A data method is a step; it returns, or it throws because of a lock and leaves the transaction.\<close>

lemma data_call_run:
  assumes reach: "dbs.reachable m0 (d, T, m)" and T: "T (txn_id t) = Some t" and ok: "request_ok ord (Some t) d r" "data_sizes r"
  shows "\<exists>res t' d'. data_call r (t, d) = (res, (t', d')) \<and> dbs.reachable m0 (d', T(txn_id t \<mapsto> t'), m) \<and>
    ((\<exists>st pl. res = Inr (st, pl)) \<and> txn_id t' = txn_id t \<or> res = Inl Deadlock_exception \<and> t' = t \<and> (\<exists>l. d' = d\<lparr>locks := l\<rparr>))"
proof -
  obtain cur rs where inv: "sys_inv m0 d T m cur rs" using reachable_inv [OF reach] .
  note I = sys_invD [OF inv] and Ti = txn_invD [OF sys_invD(4) [OF inv T]]
  show ?thesis
  proof (cases r)
    case (Req_Get k)
    obtain g l where lk: "lock_attempt (txn_id t) k SHARED (locks d) = (g, l)" by fastforce
    obtain res d' where run: "Txn_Get k (t, d) = (res, (t, d'))" "(\<exists>v. res = Inr v) \<or> res = Inl Deadlock_exception \<and> (\<exists>l. d' = d\<lparr>locks := l\<rparr>)"
      using Txn_Get_run [OF I(1) Ti(2), of k l] refused(1) [of t k SHARED d l] Ti(2) lk by (cases g) auto
    from dbs.reachable_step [OF reach Step_Get [where T = T and i = "txn_id t" and key = k, OF T run(1)]] show ?thesis
      using run by (auto simp: Req_Get op_simps op_bind_def)
  next
    case (Req_Put k v)
    have c: "tree_can_put k v d" "v \<noteq> []" "log_room d" using ok(1) by (auto simp: Req_Put rollback_ok_def)
    obtain g l where lk: "lock_attempt (txn_id t) k EXCLUSIVE (locks d) = (g, l)" by fastforce
    obtain res t' d' where run: "Txn_Put k v (t, d) = (res, (t', d'))" "txn_id t' = txn_id t"
      "res = Inr () \<or> res = Inl Deadlock_exception \<and> t' = t \<and> (\<exists>l. d' = d\<lparr>locks := l\<rparr>)"
      using Txn_Put_run [OF I(1) c(3) Ti(4,2) c(1), of l] refused(2) [of t k EXCLUSIVE d l v] Ti(2) lk by (cases g) auto
    from dbs.reachable_step [OF reach Step_Put [where T = T and i = "txn_id t", OF T c(3,1,2) run(1)]] show ?thesis
      using run by (auto simp: Req_Put op_simps op_bind_def)
  next
    case (Req_Delete k)
    have c: "length k < 2 ^ 32" "fst (btree_get k d) \<noteq> Inr None \<longrightarrow> tree_can_delete k d" "log_room d"
      using ok(1) by (auto simp: Req_Delete rollback_ok_def)
    obtain res t' d' where run: "Txn_Delete k (t, d) = (res, (t', d'))" "txn_id t' = txn_id t"
      "res = Inr () \<or> res = Inl Deadlock_exception \<and> t' = t \<and> (\<exists>l. d' = d\<lparr>locks := l\<rparr>)"
      using delete_result [OF I(1) c(3) Ti(4,2) c(1,2)] by blast
    from dbs.reachable_step [OF reach Step_Delete [where T = T and i = "txn_id t", OF T c(3,1,2) run(1)]] show ?thesis
      using run by (auto simp: Req_Delete op_simps op_bind_def)
  qed (use ok(2) in simp_all)
qed

text \<open>Serving a data request.\<close>

lemma serve_data_request:
  assumes reach: "dbs.reachable m0 (d, T, m)" and Tt: "T (txn_id t) = Some t" and ok: "request_ok ord (Some t) d r" and size: "data_sizes r"
    and s: "conn_ok s" "input s = encode_request r @ rest" "cl_txn s = Some t" "cl_db s = d"
  shows "\<exists>s' out tx' d'. serve_one what ord s = (Inr True, s') \<and> served s out rest tx' d' s' \<and>
    dbs.reachable m0 (d', next_txns (Some t) tx' T, committed_after r (Some t) m) \<and> txn_change (Some t) tx' T"
proof -
  obtain cur rs where inv: "sys_inv m0 d T m cur rs" using reachable_inv [OF reach] .
  note Ti = txn_invD [OF sys_invD(4) [OF inv Tt]]
  have rb: "rollback_ok ord t d" using ok size by (cases r) auto
  have c: "committed_after r (Some t) m = m" using size by (cases r) auto
  from data_call_run [OF reach Tt ok size] obtain res t' d' where
    call: "data_call r (t, d) = (res, (t', d'))" "dbs.reachable m0 (d', T(txn_id t \<mapsto> t'), m)"
    "(\<exists>st pl. res = Inr (st, pl)) \<and> txn_id t' = txn_id t \<or> res = Inl Deadlock_exception \<and> t' = t \<and> (\<exists>l. d' = d\<lparr>locks := l\<rparr>)"
    by metis
  show ?thesis
  proof (cases "res = Inl Deadlock_exception")
    case False
    then show ?thesis
      using serve_data_done [of s r rest t _ _ t' d' what ord] s size call c by (fastforce simp: txn_change_def)
  next
    case dead: True
    then have t': "t' = t" "T(txn_id t \<mapsto> t') = T" and l: "\<exists>l. d' = d\<lparr>locks := l\<rparr>" using call(3) Tt by (auto simp: map_upd_triv)
    have "rollback_ok ord t d'" using rb l by (auto simp: rollback_ok_def)
    then obtain d'' where d'': "Txn_Rollback (ord t) (t, d') = (Inr (), (ended t, d''))" "dbs.reachable m0 (d'', T(txn_id t := None), m)"
      using rollback_run [of m0 d' T m t ord] call(2) t' Tt by auto
    show ?thesis
      using serve_data_deadlock [of s r rest t d' ord d'' what] s size call(1) dead t'(1) Ti(2) d'' c by (fastforce simp: txn_change_def)
  qed
qed

text \<open>Serving any request within the limits: it is answered, and what happens to the database is a run of
  its transition system.\<close>

lemma serve_request:
  assumes reach: "dbs.reachable m0 (d, T, m)" and T: "\<And>t. tx = Some t \<Longrightarrow> T (txn_id t) = Some t" and ok: "request_ok ord tx d r"
    and s: "conn_ok s" "input s = encode_request r @ rest" "cl_txn s = tx" "cl_db s = d"
  shows "\<exists>s' out tx' d'. serve_one what ord s = (Inr True, s') \<and> served s out rest tx' d' s' \<and>
    dbs.reachable m0 (d', next_txns tx tx' T, committed_after r tx m) \<and> txn_change tx tx' T"
proof (cases tx)
  case None
  then have r: "r = Req_Begin" "log_room d" "unat (next_txn_id (wal d)) + 1 < 2 ^ 63" using ok by (cases r; simp)+
  obtain cur rs where inv: "sys_inv m0 d T m cur rs" using reachable_inv [OF reach] .
  define t where "t = \<lparr>txn_id = next_txn_id (wal d), txn_done = False, write_set = Map.empty\<rparr>"
  obtain d' where d': "DB_Begin d = (Inr t, d')" using DB_Begin_run(1) [OF sys_invD(1) [OF inv] r(2)] by (simp add: t_def)
  have "T (txn_id t) = None" using sys_invD(2) [OF inv] by (auto simp: log_ok_def t_def)
  moreover have "dbs.reachable m0 (d', T(txn_id t \<mapsto> t), m)" by (rule dbs.reachable_step [OF reach Step_Begin [OF r(2,3) d']])
  ultimately show ?thesis
    using serve_begin [of s rest t d' what ord] s d' None r(1) by (fastforce simp: txn_change_def)
next
  case (Some t)
  note Tt = T [OF Some]
  obtain cur rs where inv: "sys_inv m0 d T m cur rs" using reachable_inv [OF reach] .
  note I = sys_invD [OF inv] and Ti = txn_invD [OF sys_invD(4) [OF inv Tt]]
  consider "r = Req_Commit" | "r = Req_Rollback" | "data_sizes r"
    using ok Some by (cases r) (auto simp: tree_can_put_def)
  then show ?thesis
  proof cases
    case 1
    have room: "log_room d" using ok 1 Some by simp
    obtain d' where d': "Txn_Commit (t, d) = (Inr (), (ended t, d'))" using Txn_Commit_run [OF I(1) room Ti(2)] by blast
    from dbs.reachable_step [OF reach Step_Commit [where T = T and i = "txn_id t", OF Tt room d']]
    show ?thesis using serve_commit [of s rest t d' what ord] s d' 1 Some by (fastforce simp: txn_change_def)
  next
    case 2
    have "rollback_ok ord t d" using ok 2 Some by simp
    from rollback_run [OF reach Tt this] obtain d' where
      d': "Txn_Rollback (ord t) (t, d) = (Inr (), (ended t, d'))" "dbs.reachable m0 (d', T(txn_id t := None), m)" by blast
    then show ?thesis using serve_rollback [of s rest t ord d' what] s 2 Some by (fastforce simp: txn_change_def)
  next
    case 3
    have "request_ok ord (Some t) d r" "cl_txn s = Some t" using ok s(3) Some by simp_all
    from serve_data_request [OF reach Tt this(1) 3 s(1,2) this(2) s(4)] show ?thesis unfolding Some .
  qed
qed

subsection \<open>The open transactions of the connections\<close>

text \<open>The connection with a transaction, as a relation.\<close>

definition open_at :: "client list \<Rightarrow> nat \<Rightarrow> transaction \<Rightarrow> bool" where
  "open_at hs h t \<longleftrightarrow> h < length hs \<and> cl_txn (hs ! h) = Some t"

definition owns :: "client list \<Rightarrow> (txn_id \<rightharpoonup> transaction) \<Rightarrow> bool" where
  "owns hs T \<longleftrightarrow> (\<forall>h t. open_at hs h t \<longrightarrow> T (txn_id t) = Some t) \<and>
     (\<forall>h h' t t'. open_at hs h t \<longrightarrow> open_at hs h' t' \<longrightarrow> txn_id t = txn_id t' \<longrightarrow> h = h') \<and>
     (\<forall>i t. T i = Some t \<longrightarrow> txn_id t = i \<and> (\<exists>h. open_at hs h t))"

lemma ownsD:
  assumes "owns hs T"
  shows "open_at hs h t \<Longrightarrow> T (txn_id t) = Some t" "open_at hs h t \<Longrightarrow> open_at hs h' t' \<Longrightarrow> txn_id t = txn_id t' \<Longrightarrow> h = h'"
    "T i = Some t \<Longrightarrow> txn_id t = i" "T i = Some t \<Longrightarrow> \<exists>h. open_at hs h t"
  using assms unfolding owns_def by blast+

lemma owns_add:
  assumes "owns hs T" "cl_txn c = None"
  shows "owns (hs @ [c]) T"
proof -
  have "open_at (hs @ [c]) = open_at hs" using assms(2) by (auto simp: open_at_def fun_eq_iff nth_append less_Suc_eq)
  then show ?thesis using assms(1) by (simp add: owns_def)
qed

lemma open_at_update: "h < length hs \<Longrightarrow> open_at (hs[h := c]) h' t \<longleftrightarrow> (if h' = h then cl_txn c = Some t else open_at hs h' t)"
  by (auto simp: open_at_def)

lemma next_txns_own: "txn_change tx (Some u) T \<Longrightarrow> next_txns tx (Some u) T (txn_id u) = Some u"
  by (cases tx) (simp_all add: txn_change_def)

lemma next_txns_other:
  assumes "T i = Some t" "\<And>u. tx = Some u \<Longrightarrow> i \<noteq> txn_id u" "\<And>u. tx' = Some u \<Longrightarrow> i \<noteq> txn_id u"
  shows "next_txns tx tx' T i = Some t"
  using assms by (cases tx; cases tx') simp_all

lemma next_txnsD:
  assumes "txn_change tx tx' T" "next_txns tx tx' T i = Some t"
  shows "tx' = Some t \<and> txn_id t = i \<or> T i = Some t \<and> (\<forall>u. tx = Some u \<longrightarrow> i \<noteq> txn_id u)"
  using assms by (cases tx; cases tx') (auto simp: txn_change_def split: if_splits)

text \<open>The ids of the other connections' transactions differ from the old and the new one of this connection.\<close>

lemma owns_other_id:
  assumes "owns hs T" "open_at hs h' t'" "h' \<noteq> h" "h < length hs"
  shows "cl_txn (hs ! h) = Some t \<Longrightarrow> txn_id t' \<noteq> txn_id t"
    "txn_change (cl_txn (hs ! h)) (Some u) T \<Longrightarrow> txn_id t' \<noteq> txn_id u"
proof -
  note O = ownsD [OF assms(1)]
  show old: "txn_id t' \<noteq> txn_id t" if "cl_txn (hs ! h) = Some t" for t
    using O(2) [OF assms(2), of h t] that assms(3,4) by (auto simp: open_at_def)
  show "txn_id t' \<noteq> txn_id u" if "txn_change (cl_txn (hs ! h)) (Some u) T"
    using that old O(1) [OF assms(2)] by (cases "cl_txn (hs ! h)") (auto simp: txn_change_def)
qed

lemma owns_change:
  assumes "owns hs T" "h < length hs" "txn_change (cl_txn (hs ! h)) (cl_txn c) T"
  shows "owns (hs[h := c]) (next_txns (cl_txn (hs ! h)) (cl_txn c) T)"
proof -
  note O = ownsD [OF assms(1)] and U = open_at_update [OF assms(2), of c]
  let ?T = "next_txns (cl_txn (hs ! h)) (cl_txn c) T"
  have other: "cl_txn (hs ! h) = Some t \<Longrightarrow> txn_id t' \<noteq> txn_id t" "cl_txn c = Some u \<Longrightarrow> txn_id t' \<noteq> txn_id u"
    if "open_at hs h' t'" "h' \<noteq> h" for h' t t' u
    using owns_other_id [OF assms(1) that assms(2)] assms(3) by simp_all
  have source: "txn_id t = i \<and> (cl_txn c = Some t \<or> (\<exists>h'. h' \<noteq> h \<and> open_at hs h' t))" if T: "?T i = Some t" for i t
  proof (cases "cl_txn c = Some t \<and> txn_id t = i")
    case False
    then have *: "T i = Some t" "\<forall>u. cl_txn (hs ! h) = Some u \<longrightarrow> i \<noteq> txn_id u" using next_txnsD [OF assms(3) T] by blast+
    obtain h' where h': "open_at hs h' t" using O(4) [OF *(1)] ..
    have id: "txn_id t = i" by (rule O(3) [OF *(1)])
    then have "h' \<noteq> h" using h' *(2) by (auto simp: open_at_def)
    with h' id show ?thesis by blast
  qed simp
  show ?thesis
    unfolding owns_def U
  proof (intro conjI allI impI)
    show "?T (txn_id t) = Some t" if "if h' = h then cl_txn c = Some t else open_at hs h' t" for h' t
    proof (cases "h' = h")
      case True
      then show ?thesis using that next_txns_own [of "cl_txn (hs ! h)" t T] assms(3) by simp
    next
      case False
      then show ?thesis using that other O(1) by (intro next_txns_other) simp_all
    qed
    show "h1 = h2" if "if h1 = h then cl_txn c = Some t1 else open_at hs h1 t1" "if h2 = h then cl_txn c = Some t2 else open_at hs h2 t2"
      "txn_id t1 = txn_id t2" for h1 h2 t1 t2
      using that other(2) [of h1 t1 t2] other(2) [of h2 t2 t1] O(2) [of h1 t1 h2 t2] by (cases "h1 = h") (force split: if_splits)+
    show "txn_id t = i" if "?T i = Some t" for i t using source [OF that] by blast
    show "\<exists>h'. if h' = h then cl_txn c = Some t else open_at hs h' t" if "?T i = Some t" for i t
      using source [OF that] by (elim conjE disjE exE) (fastforce intro: exI [of _ h], fastforce)
  qed
qed

subsection \<open>The server as a transition system\<close>

text \<open>A state is the server with the committed map of the specification. Clients follow the protocol and
  stay within the limits; what the result of a step is, is not assumed.\<close>

type_synonym srv_system = "server \<times> kv_map"

inductive srv_step :: "messages \<Rightarrow> undo_order \<Rightarrow> srv_system \<Rightarrow> srv_system \<Rightarrow> bool" for what ord where
  Srv_Accept: "[] \<notin> set segs \<Longrightarrow> 0 \<notin> set accepts \<Longrightarrow> run_round (Accepted segs accepts) s = (res, s') \<Longrightarrow> srv_step what ord (s, m) (s', m)"
| Srv_Signal: "srv_step what ord (s, m) (Server_stop s, m)"
| Srv_Request: "h < length (handlers s) \<Longrightarrow> \<not> conn_closed (handlers s ! h) \<Longrightarrow> input (handlers s ! h) = encode_request r @ rest \<Longrightarrow>
    request_ok ord (cl_txn (handlers s ! h)) (srv_db s) r \<Longrightarrow> handler_step what ord h s = (res, s') \<Longrightarrow>
    srv_step what ord (s, m) (s', committed_after r (cl_txn (handlers s ! h)) m)"
| Srv_Leave: "h < length (handlers s) \<Longrightarrow> \<not> conn_closed (handlers s ! h) \<Longrightarrow> input (handlers s ! h) = [] \<Longrightarrow>
    \<forall>t. cl_txn (handlers s ! h) = Some t \<longrightarrow> rollback_ok ord t (srv_db s) \<Longrightarrow> handler_step what ord h s = (res, s') \<Longrightarrow>
    srv_step what ord (s, m) (s', m)"

definition srv_init :: "kv_map \<Rightarrow> srv_system \<Rightarrow> bool" where
  "srv_init m0 S \<longleftrightarrow> (case S of (s, m) \<Rightarrow> handlers s = [] \<and> db_init m0 (srv_db s, Map.empty, m))"

interpretation srv: transition_system "srv_init m0" "srv_step what ord" for m0 what ord .

definition srv_inv :: "kv_map \<Rightarrow> srv_system \<Rightarrow> bool" where
  "srv_inv m0 S \<longleftrightarrow> (case S of (s, m) \<Rightarrow>
     (\<exists>T. dbs.reachable m0 (srv_db s, T, m) \<and> owns (handlers s) T) \<and> (\<forall>c \<in> set (handlers s). conn_ok c))"

lemma conn_ok_db [simp]: "conn_ok (c\<lparr>cl_db := d\<rparr>) = conn_ok c"
  by (simp add: conn_ok_def)

text \<open>A thread's step, given what its handler does.\<close>

lemma handler_step_more:
  assumes "h < length (handlers s)" "\<not> conn_closed (handlers s ! h)" "serve_one what ord ((handlers s ! h)\<lparr>cl_db := srv_db s\<rparr>) = (Inr True, c)"
  shows "handler_step what ord h s = (Inr (), s\<lparr>handlers := (handlers s)[h := c], srv_db := cl_db c\<rparr>)"
  using assms by (simp add: handler_step_def op_simps with_handler_def)

lemma handler_step_leave:
  assumes "h < length (handlers s)" "\<not> conn_closed (handlers s ! h)" "input (handlers s ! h) = []" "conn_ok (handlers s ! h)"
    "client_cleanup ord ((handlers s ! h)\<lparr>conn_in := [], cl_db := srv_db s\<rparr>) = (Inr (), c)"
  shows "handler_step what ord h s = (Inr (), s\<lparr>handlers := (handlers s)[h := c], srv_db := cl_db c\<rparr>)"
proof -
  let ?c = "(handlers s ! h)\<lparr>cl_db := srv_db s\<rparr>"
  have "serve_one what ord ?c = (Inr False, ?c\<lparr>conn_in := []\<rparr>)" using serve_end [of ?c what ord] assms(3,4) by simp
  then show ?thesis using assms(1,2,5) by (simp add: handler_step_def op_simps with_handler_def)
qed

lemma srv_inv_update:
  assumes "owns (handlers s) T" "\<forall>c \<in> set (handlers s). conn_ok c" "h < length (handlers s)"
    "dbs.reachable m0 (cl_db c, next_txns (cl_txn (handlers s ! h)) (cl_txn c) T, m)" "txn_change (cl_txn (handlers s ! h)) (cl_txn c) T" "conn_ok c"
  shows "srv_inv m0 (s\<lparr>handlers := (handlers s)[h := c], srv_db := cl_db c\<rparr>, m)"
proof -
  have "conn_ok c'" if "c' \<in> set ((handlers s)[h := c])" for c' using set_update_subset_insert [of "handlers s" h c] that assms(2,6) by blast
  then show ?thesis using owns_change [OF assms(1,3,5)] assms(4) by (auto simp: srv_inv_def)
qed

text \<open>A request within the limits, in a state with the invariant.\<close>

lemma request_step:
  assumes inv: "srv_inv m0 (s, m)" and h: "h < length (handlers s)" "\<not> conn_closed (handlers s ! h)"
    and r: "input (handlers s ! h) = encode_request r @ rest" "request_ok ord (cl_txn (handlers s ! h)) (srv_db s) r"
  shows "\<exists>s'. handler_step what ord h s = (Inr (), s') \<and> srv_inv m0 (s', committed_after r (cl_txn (handlers s ! h)) m)"
proof -
  let ?h = "handlers s ! h"
  let ?c = "?h\<lparr>cl_db := srv_db s\<rparr>"
  obtain T where T: "dbs.reachable m0 (srv_db s, T, m)" "owns (handlers s) T" and ok: "\<forall>c \<in> set (handlers s). conn_ok c"
    using inv by (auto simp: srv_inv_def)
  have c: "conn_ok ?c" "input ?c = encode_request r @ rest" "cl_txn ?c = cl_txn ?h" "cl_db ?c = srv_db s" using ok h(1) r(1) by simp_all
  have "T (txn_id t) = Some t" if "cl_txn ?h = Some t" for t using ownsD(1) [OF T(2), of h t] h(1) that by (simp add: open_at_def)
  from serve_request [OF T(1) this r(2) c, of what] obtain c' out tx' d' where
    c': "serve_one what ord ?c = (Inr True, c')" "served ?c out rest tx' d' c'"
    "dbs.reachable m0 (d', next_txns (cl_txn ?h) tx' T, committed_after r (cl_txn ?h) m)" "txn_change (cl_txn ?h) tx' T" by blast
  have "cl_txn c' = tx'" "cl_db c' = d'" "conn_ok c'" using c'(2) by (simp_all add: served_def)
  then have "srv_inv m0 (s\<lparr>handlers := (handlers s)[h := c'], srv_db := cl_db c'\<rparr>, committed_after r (cl_txn ?h) m)"
    using c'(3,4) by (intro srv_inv_update [OF T(2) ok h(1)]) simp_all
  then show ?thesis using handler_step_more [OF h c'(1)] by blast
qed

lemma leave_step:
  assumes inv: "srv_inv m0 (s, m)" and h: "h < length (handlers s)" "\<not> conn_closed (handlers s ! h)" "input (handlers s ! h) = []"
    and rb: "\<forall>t. cl_txn (handlers s ! h) = Some t \<longrightarrow> rollback_ok ord t (srv_db s)"
  shows "\<exists>s'. handler_step what ord h s = (Inr (), s') \<and> srv_inv m0 (s', m) \<and> cl_txn (handlers s' ! h) = None \<and> conn_closed (handlers s' ! h)"
proof -
  let ?h = "handlers s ! h"
  let ?c = "?h\<lparr>conn_in := [], cl_db := srv_db s\<rparr>"
  obtain T where T: "dbs.reachable m0 (srv_db s, T, m)" "owns (handlers s) T" and ok: "\<forall>c \<in> set (handlers s). conn_ok c"
    using inv by (auto simp: srv_inv_def)
  have "\<exists>c. client_cleanup ord ?c = (Inr (), c) \<and> cl_txn c = None \<and> conn_closed c \<and> conn_ok c \<and>
    dbs.reachable m0 (cl_db c, next_txns (cl_txn ?h) None T, m)"
  proof (cases "cl_txn ?h")
    case None
    then show ?thesis using cleanup_none [of ?c ord] T(1) ok h(1) by (auto simp: conn_ok_def)
  next
    case (Some t)
    have "T (txn_id t) = Some t" using ownsD(1) [OF T(2), of h t] h(1) Some by (simp add: open_at_def)
    moreover have "rollback_ok ord t (srv_db s)" using rb Some by simp
    ultimately obtain d' where d': "Txn_Rollback (ord t) (t, srv_db s) = (Inr (), (ended t, d'))" "dbs.reachable m0 (d', T(txn_id t := None), m)"
      using rollback_run [OF T(1)] by blast
    let ?c' = "?c\<lparr>cl_txn := None, cl_db := d', conn_closed := True\<rparr>"
    have "client_cleanup ord ?c = (Inr (), ?c')" using cleanup_open [of ?c t ord d'] Some d'(1) by simp
    moreover have "conn_ok ?c'" using ok h(1) by (simp add: conn_ok_def)
    ultimately show ?thesis using d'(2) Some by (intro exI [of _ ?c']) simp
  qed
  then obtain c where c: "client_cleanup ord ?c = (Inr (), c)" "cl_txn c = None" "conn_closed c" "conn_ok c"
    "dbs.reachable m0 (cl_db c, next_txns (cl_txn ?h) None T, m)" by blast
  have "conn_ok ?h" using ok h(1) by simp
  from handler_step_leave [OF h this c(1)] have run: "handler_step what ord h s = (Inr (), s\<lparr>handlers := (handlers s)[h := c], srv_db := cl_db c\<rparr>)" .
  have "txn_change (cl_txn ?h) (cl_txn c) T" using c(2) by (auto simp: txn_change_def split: option.split)
  then have "srv_inv m0 (s\<lparr>handlers := (handlers s)[h := c], srv_db := cl_db c\<rparr>, m)"
    using c by (intro srv_inv_update [OF T(2) ok h(1)]) simp_all
  then show ?thesis using run c(2,3) h(1) by auto
qed

lemma accept_keeps:
  assumes "srv_inv m0 (s, m)" "[] \<notin> set segs" "0 \<notin> set accepts" "run_round (Accepted segs accepts) s = (res, s')"
  shows "srv_inv m0 (s', m)"
proof -
  let ?c = "new_handler segs accepts (srv_db s)"
  have "conn_ok ?c" "cl_txn ?c = None" using assms(2,3) by (simp_all add: new_handler_def conn_ok_def)
  then have "srv_inv m0 (s\<lparr>handlers := handlers s @ [?c]\<rparr>, m)" using assms(1) owns_add by (auto simp: srv_inv_def)
  then show ?thesis using assms(1,4) by (auto simp: run_round_def accept_call_def spawn_handler_def op_defs split: if_splits)
qed

lemma srv_step_inv: "srv_step what ord S S' \<Longrightarrow> srv_inv m0 S \<Longrightarrow> srv_inv m0 S'"
proof (induction rule: srv_step.induct)
  case (Srv_Request h s r rest res s' m)
  from request_step [OF Srv_Request(6,1-4), of what] Srv_Request(5) show ?case by auto
next
  case (Srv_Leave h s res s' m)
  from leave_step [OF Srv_Leave(6,1-4), of what] Srv_Leave(5) show ?case by auto
next
  case (Srv_Signal s m)
  then show ?case by (simp add: srv_inv_def Server_stop_def Let_def)
qed (rule accept_keeps)

lemma srv_init_inv: "srv_init m0 S \<Longrightarrow> srv_inv m0 S"
  by (auto simp: srv_init_def srv_inv_def owns_def open_at_def intro: dbs.reachable_init)

lemma srv_reachable_inv: "srv.reachable m0 what ord S \<Longrightarrow> srv_inv m0 S"
  by (rule srv.reachable_invariant) (auto intro: srv_init_inv srv_step_inv)

subsection \<open>A server used by the witnesses\<close>

definition sample_os :: startup where
  "sample_os = \<lparr>socket_ok = True, bind_ok = (\<lambda>_. True), listen_ok = True\<rparr>"

definition sample_order :: undo_order where
  "sample_order t = (if write_set t [5] = None then [] else [[5]])"

definition sample_server :: server where
  "sample_server = \<lparr>srv_db = sample_new, srv_port = 6380, listening = True, stopping = False, handlers = []\<rparr>"

lemma sample_server_new: "Server_new (\<lambda>_. 0) 0 [] [] [] 6380 sample_os = Inr sample_server"
  by (simp add: Server_new_def sample_new_ok(1) sample_os_def sample_server_def)

text \<open>One client has connected and has put a key in a transaction of its own; \<open>rest\<close> is what it sends next.\<close>

lemma sample_session:
  assumes "length rest > 0"
  obtains s c where "srv.reachable Map.empty what sample_order (s, Map.empty)" "handlers s = [c]" "\<not> conn_closed c"
    "cl_txn c = Some (wrote first_txn [5] first_entry)" "input c = rest" "srv_db s = snd sample_wrote" "listening s"
    "rollback_ok sample_order (wrote first_txn [5] first_entry) (srv_db s)" "\<not> stopping s"
proof -
  let ?t = "wrote first_txn [5] first_entry" and ?put = "Req_Put [5] [6]" and ?reach = "srv.reachable Map.empty what sample_order"
  obtain d1 where d1: "sample_begun = (first_txn, d1)" "DB_Begin sample_new = (Inr first_txn, d1)" "unat (num_pages d1) \<le> 2" "log_room d1"
    by (rule sample_begun_ok) blast
  obtain d2 pid where d2: "sample_wrote = (?t, d2)" "Txn_Put [5] [6] sample_begun = (Inr (), sample_wrote)" "unat (num_pages d2) \<le> 2"
    "holds_tree d2 (Leaf pid [([5], [6])])" "log_room d2"
    by (rule sample_wrote_ok) blast
  let ?c0 = "new_handler [encode_request Req_Begin @ encode_request ?put @ rest] [] sample_new"
  let ?s0 = "sample_server\<lparr>handlers := [?c0]\<rparr>"
  have ok0: "conn_ok ?c0" "input ?c0 = encode_request Req_Begin @ encode_request ?put @ rest" "cl_txn ?c0 = None" "cl_db ?c0 = sample_new"
    by (simp_all add: conn_ok_def new_handler_def request_def)
  have init: "?reach (sample_server, Map.empty)"
    by (rule srv.reachable_init) (use sample_new_holds(2) in \<open>simp add: srv_init_def sample_server_def\<close>)
  have acc: "run_round (Accepted [encode_request Req_Begin @ encode_request ?put @ rest] []) sample_server = (Inr True, ?s0)"
    by (simp add: run_round_def accept_call_def spawn_handler_def op_defs sample_server_def)
  have "srv_step what sample_order (sample_server, Map.empty) (?s0, Map.empty)" by (rule Srv_Accept [OF _ _ acc]) (simp_all add: request_def)
  with init have r0: "?reach (?s0, Map.empty)" by (rule srv.reachable_step)
  obtain c1 where c1: "serve_one what sample_order ?c0 = (Inr True, c1)"
    "served ?c0 (response STATUS_OK []) (encode_request ?put @ rest) (Some first_txn) d1 c1"
    using serve_begin [of ?c0 "encode_request ?put @ rest" first_txn d1 what sample_order] ok0 d1(2) by auto
  let ?s1 = "?s0\<lparr>handlers := [c1], srv_db := d1\<rparr>"
  have S1: "cl_txn c1 = Some first_txn" "cl_db c1 = d1" "conn_ok c1" "\<not> conn_closed c1" "input c1 = encode_request ?put @ rest"
    using c1(2) by (auto simp: served_def new_handler_def)
  have h1: "handler_step what sample_order 0 ?s0 = (Inr (), ?s1)"
    using handler_step_more [of 0 ?s0 what sample_order c1] c1(1) S1(2) by (simp add: sample_server_def new_handler_def)
  have "request_ok sample_order None sample_new Req_Begin" by (simp add: log_room_def sample_new_ok(5))
  then have r1: "?reach (?s1, Map.empty)"
    using srv.reachable_step [OF r0 Srv_Request [OF _ _ _ _ h1, of Req_Begin]] ok0 by (simp add: sample_server_def new_handler_def)
  obtain c2 where c2: "serve_one what sample_order c1 = (Inr True, c2)" "served c1 (response STATUS_OK []) rest (Some ?t) d2 c2"
    using serve_data_done [of c1 ?put rest first_txn STATUS_OK "[]" ?t d2 what sample_order] S1 d1(1) d2(1,2) by (auto simp: op_simps)
  let ?s2 = "?s1\<lparr>handlers := [c2], srv_db := d2\<rparr>"
  have S2: "cl_txn c2 = Some ?t" "cl_db c2 = d2" "\<not> conn_closed c2" "input c2 = rest" using c2(2) S1(4) by (auto simp: served_def)
  have "c1\<lparr>cl_db := d1\<rparr> = c1" using S1(2) by simp
  then have h2: "handler_step what sample_order 0 ?s1 = (Inr (), ?s2)"
    using handler_step_more [of 0 ?s1 what sample_order c2] c2(1) S1(4) S2(2) by simp
  have "rollback_ok sample_order first_txn d1" using d1(4) by (simp add: rollback_ok_def sample_order_def write_order_def rollback_updates_def)
  then have "request_ok sample_order (Some first_txn) d1 ?put" using d1(3) by (simp add: tree_can_put_def)
  then have "?reach (?s2, Map.empty)"
    using srv.reachable_step [OF r1 Srv_Request [OF _ _ _ _ h2, of ?put rest]] S1 by simp
  moreover have "kv_can_all btree_insert btree_remove tree_can_put tree_can_delete (rollback_updates [[5]] ?t) (d2\<lparr>locks := l\<rparr>)" for l
    by (rule leaf_can_all [of _ pid "[([5], [6])]"])
      (use d2(3,4) in \<open>simp_all add: rollback_updates_def entry_update_def space_def cost_def encode_leaf leaf_cell_size_def\<close>)
  then have "rollback_ok sample_order ?t d2" using d2(5) by (simp add: rollback_ok_def sample_order_def write_order_def)
  moreover have "snd sample_wrote = d2" unfolding d2(1) by simp
  ultimately show ?thesis using S2 by (intro that [of ?s2 c2]) (simp_all add: sample_server_def)
qed

subsection \<open>Many clients\<close>

text \<open>C9. The server is the transaction system, used by many clients at once. Under every interleaving of
  connections, requests and disconnections, the database is in a reachable state of the transition
  system of transactions, whose open transactions are exactly those of the connections, each owned by
  one, and whose committed map changes by COMMIT requests only.\<close>

theorem server_refines_transactions:
  assumes "srv.reachable m0 what ord (s, m)"
  shows "\<exists>T. dbs.reachable m0 (srv_db s, T, m) \<and>
    (\<forall>i t. T i = Some t \<longleftrightarrow> (\<exists>h < length (handlers s). cl_txn (handlers s ! h) = Some t \<and> txn_id t = i)) \<and>
    (\<forall>h h' t t'. h < length (handlers s) \<longrightarrow> h' < length (handlers s) \<longrightarrow> cl_txn (handlers s ! h) = Some t \<longrightarrow>
      cl_txn (handlers s ! h') = Some t' \<longrightarrow> txn_id t = txn_id t' \<longrightarrow> h = h')"
proof -
  obtain T where T: "dbs.reachable m0 (srv_db s, T, m)" "owns (handlers s) T" using srv_reachable_inv [OF assms] by (auto simp: srv_inv_def)
  note O = T(2) [unfolded owns_def open_at_def]
  have "T i = Some t \<longleftrightarrow> (\<exists>h < length (handlers s). cl_txn (handlers s ! h) = Some t \<and> txn_id t = i)" for i t using O by metis
  with O T(1) show ?thesis by blast
qed

theorem server_refines_transactions_witness:
  "\<exists>(s :: server) T. dbs.reachable Map.empty (srv_db s, T, Map.empty) \<and> T 1 = Some (wrote first_txn [5] first_entry)"
proof -
  obtain s c where s: "srv.reachable Map.empty (\<lambda>_. []) sample_order (s, Map.empty)" "handlers s = [c]" "cl_txn c = Some (wrote first_txn [5] first_entry)"
    by (rule sample_session [of "[0]" "\<lambda>_. []"]) simp_all
  from server_refines_transactions [OF s(1)] obtain T where
    T: "dbs.reachable Map.empty (srv_db s, T, Map.empty)"
    "\<And>i t. T i = Some t \<longleftrightarrow> (\<exists>h < length (handlers s). cl_txn (handlers s ! h) = Some t \<and> txn_id t = i)" by blast
  have "T 1 = Some (wrote first_txn [5] first_entry)" unfolding T(2) using s(2,3) by simp
  with T(1) show ?thesis by blast
qed

text \<open>C10. What a client is told about a key: whatever the other clients do, a GET request is answered with
  what the client's own transaction last wrote, otherwise with the committed value, and with NOT FOUND
  if there is none. It is answered with DEADLOCK exactly if another transaction holds the key exclusively.\<close>

theorem server_get_answer:
  assumes "srv.reachable m0 what ord (s, m)" "h < length (handlers s)" "\<not> conn_closed (handlers s ! h)" "cl_txn (handlers s ! h) = Some t"
    "input (handlers s ! h) = encode_request (Req_Get key) @ rest" "length key < 65536" "rollback_ok ord t (srv_db s)"
  shows "\<exists>s'. handler_step what ord h s = (Inr (), s') \<and> conn_out (handlers s' ! h) = conn_out (handlers s ! h) @
    (if \<exists>j. j \<noteq> txn_id t \<and> j \<noteq> INVALID_TXN_ID \<and> held (locks (srv_db s)) j key = Some EXCLUSIVE then response STATUS_DEADLOCK []
     else case (case write_set t key of None \<Rightarrow> m key | Some e \<Rightarrow> entry_after e) of
       None \<Rightarrow> response STATUS_NOT_FOUND [] | Some v \<Rightarrow> response STATUS_OK (be 2 (length v) @ v))"
proof -
  let ?h = "handlers s ! h" and ?d = "srv_db s" and ?r = "Req_Get key"
  let ?c = "?h\<lparr>cl_db := ?d\<rparr>" and ?v = "case write_set t key of None \<Rightarrow> m key | Some e \<Rightarrow> entry_after e"
  obtain T where T: "dbs.reachable m0 (?d, T, m)" "owns (handlers s) T" and ok: "\<forall>c \<in> set (handlers s). conn_ok c"
    using srv_reachable_inv [OF assms(1)] by (auto simp: srv_inv_def)
  have c: "conn_ok ?c" "input ?c = encode_request ?r @ rest" "data_sizes ?r" "cl_txn ?c = Some t" "cl_db ?c = ?d" using ok assms(2,4-6) by simp_all
  have Tt: "T (txn_id t) = Some t" using ownsD(1) [OF T(2), of h t] assms(2,4) by (simp add: open_at_def)
  obtain cur rs where inv: "sys_inv m0 ?d T m cur rs" using reachable_inv [OF T(1)] .
  have nd: "\<not> txn_done t" using txn_invD(2) [OF sys_invD(4) [OF inv Tt]] .
  obtain res t' d' where run: "Txn_Get key (t, ?d) = (res, (t', d'))" by (metis surj_pair)
  have G: "t' = t" "res = (if \<exists>j. j \<noteq> txn_id t \<and> j \<noteq> INVALID_TXN_ID \<and> held (locks ?d) j key = Some EXCLUSIVE
      then Inl Deadlock_exception else Inr ?v)" using get_isolated [OF T(1) Tt run] by simp_all
  have fin: ?thesis if "serve_one what ord ?c = (Inr True, c')" "served ?c out rest tx d'' c'"
    "out = (if \<exists>j. j \<noteq> txn_id t \<and> j \<noteq> INVALID_TXN_ID \<and> held (locks ?d) j key = Some EXCLUSIVE then response STATUS_DEADLOCK []
     else case ?v of None \<Rightarrow> response STATUS_NOT_FOUND [] | Some v \<Rightarrow> response STATUS_OK (be 2 (length v) @ v))" for c' out tx d''
    using handler_step_more [OF assms(2,3) that(1)] that(2,3) assms(2) by (simp add: served_def)
  show ?thesis
  proof (cases "\<exists>j. j \<noteq> txn_id t \<and> j \<noteq> INVALID_TXN_ID \<and> held (locks ?d) j key = Some EXCLUSIVE")
    case False
    let ?a = "case ?v of Some v \<Rightarrow> (STATUS_OK, be 2 (length v) @ v) | None \<Rightarrow> (STATUS_NOT_FOUND, [])"
    have "data_call ?r (t, cl_db ?c) = (Inr (fst ?a, snd ?a), (t, d'))" using run G False by (simp add: op_simps)
    from serve_data_done [OF c(1-4) this, of what ord] obtain c' where
      "serve_one what ord ?c = (Inr True, c')" "served ?c (response (fst ?a) (snd ?a)) rest (Some t) d' c'" by blast
    then show ?thesis by (rule fin) (unfold if_not_P [OF False], simp split: option.split)
  next
    case True
    have dead: "data_call ?r (t, cl_db ?c) = (Inl Deadlock_exception, (t, d'))" using run G True by (simp add: op_simps)
    from data_call_run [OF T(1) Tt, of ord ?r] assms(6,7) dead c(5) obtain l where d': "d' = ?d\<lparr>locks := l\<rparr>" "dbs.reachable m0 (d', T, m)"
      by (auto simp: map_upd_triv [of T "txn_id t" t] Tt)
    have "rollback_ok ord t d'" using assms(7) d'(1) by (simp add: rollback_ok_def)
    from rollback_run [OF d'(2) Tt this] obtain d'' where "Txn_Rollback (ord t) (t, d') = (Inr (), (ended t, d''))" by blast
    from serve_data_deadlock [where ord = ord, OF c(1-4) dead nd this, of what] obtain c' where
      "serve_one what ord ?c = (Inr True, c')" "served ?c (response STATUS_DEADLOCK []) rest None d'' c'" by blast
    then show ?thesis by (rule fin) (unfold if_P [OF True], rule refl)
  qed
qed

theorem server_get_answer_witness:
  "\<exists>s s'. handler_step (\<lambda>_. []) sample_order 0 s = (Inr (), s') \<and> conn_out (handlers s' ! 0) = conn_out (handlers s ! 0) @ response STATUS_OK [0, 1, 6]"
proof -
  let ?t = "wrote first_txn [5] first_entry"
  obtain s c where s: "srv.reachable Map.empty (\<lambda>_. []) sample_order (s, Map.empty)" "handlers s = [c]" "\<not> conn_closed c"
    "cl_txn c = Some ?t" "input c = encode_request (Req_Get [5])" "srv_db s = snd sample_wrote" "rollback_ok sample_order ?t (srv_db s)"
    by (rule sample_session [of "encode_request (Req_Get [5])" "\<lambda>_. []"]) (simp_all add: request_def)
  obtain d where d: "sample_wrote = (?t, d)" "dbs.reachable Map.empty (d, [1 \<mapsto> ?t], Map.empty)" by (rule sample_wrote_ok) blast
  obtain cur rs where inv: "sys_inv Map.empty d [1 \<mapsto> ?t] Map.empty cur rs" using reachable_inv [OF d(2)] .
  have "held (locks d) 1 [5] = Some EXCLUSIVE" using txn_invD(5) [OF sys_invD(4) [OF inv, of 1 ?t], of "[5]"] by simp
  then have none: "\<not> (\<exists>j. j \<noteq> txn_id ?t \<and> j \<noteq> INVALID_TXN_ID \<and> held (locks (srv_db s)) j [5] = Some EXCLUSIVE)"
    using held_exclusive_unique [of "locks d" 1 "[5]"] unfolding s(6) d(1) snd_conv by auto
  have b: "be 2 1 @ [6] = [0, 1, 6]" unfolding be_def numeral_2_eq_2 by simp
  have "entry_after first_entry = Some [6]" "length [6 :: byte] = 1" by (simp_all add: entry_after_def)
  then have "\<exists>s'. handler_step (\<lambda>_. []) sample_order 0 s = (Inr (), s') \<and>
      conn_out (handlers s' ! 0) = conn_out (handlers s ! 0) @ response STATUS_OK [0, 1, 6]"
    using server_get_answer [OF s(1), of 0 ?t "[5]" "[]", unfolded if_not_P [OF none]] s(2-5,7) b by auto
  then show ?thesis by blast
qed

subsection \<open>Stopping\<close>

lemma server_loop_append: "server_loop what ord es s = (Inr False, s1) \<Longrightarrow> server_loop what ord (es @ es') s = server_loop what ord es' s1"
proof (induction what ord es arbitrary: s rule: server_loop.induct)
  case (2 what ord a es)
  then show ?case by (auto simp: op_bind_def op_return_def split: prod.splits sum.splits if_splits)
next
  case (3 what ord i es)
  then show ?case by (auto simp: op_bind_def split: prod.splits sum.splits)
qed (simp_all add: op_simps)

lemma signal_loop: "server_loop what ord (Signal # Main a # es) s = (Inr True, Server_stop s)"
  by (simp add: op_defs run_round_def accept_call_def Server_stop_def Let_def split: accept_result.split)

text \<open>C40. A signal ends the server: whatever has happened while \<open>run\<close> was running, once \<open>stop\<close> was called the
  next return of \<open>accept\<close>, with a connection or without, makes \<open>run\<close> return. No connection is taken any
  more, and the socket is closed.\<close>

theorem server_stops:
  assumes "server_run what ord es s = (Inr False, s1)"
  shows "server_run what ord (es @ Signal # Main a # es') s = (Inr True, Server_stop s1) \<and> \<not> listening (Server_stop s1) \<and>
    handlers (Server_stop s1) = handlers s1"
proof -
  have "\<not> stopping s" "server_loop what ord es s = (Inr False, s1)" using assms by (auto simp: server_run_def op_defs split: if_splits)
  then show ?thesis using signal_loop [of what ord a es' s1] by (simp add: server_run_def op_defs server_loop_append Server_stop_def Let_def)
qed

theorem server_stops_witness:
  "server_run (\<lambda>_. []) sample_order [Main (Accepted [] []), Signal, Main Accept_error] sample_server =
    (Inr True, Server_stop (sample_server\<lparr>handlers := [new_handler [] [] sample_new]\<rparr>))"
proof -
  let ?s = "sample_server\<lparr>handlers := [new_handler [] [] sample_new]\<rparr>"
  have "server_run (\<lambda>_. []) sample_order [Main (Accepted [] [])] sample_server = (Inr False, ?s)"
    by (simp add: server_run_def run_round_def accept_call_def spawn_handler_def op_defs sample_server_def)
  from server_stops [OF this, of Accept_error "[]"] show ?thesis by simp
qed

text \<open>C35. Stopping the server makes the writes of open transactions permanent: the destructor flushes all pages
  and truncates the log while clients are still in their transactions, so that after a restart a value
  which was never committed is in the database, and no recovery will remove it.\<close>

theorem shutdown_keeps_uncommitted:
  assumes "srv.reachable m0 what ord (s, m)" "h < length (handlers s)" "cl_txn (handlers s ! h) = Some t" "write_set t k = Some e" "\<not> stopping s"
  shows "\<exists>s1 s2 d m'. server_run what ord [Signal, Main Accept_error] s = (Inr True, s1) \<and> Server_destroy s1 = (Inr (), s2) \<and>
    DB_Open (db_file (srv_db s2)) (file_size (srv_db s2)) [] (wal_file (wal (srv_db s2))) [] = Inr d \<and> fresh_db m' d \<and> m' k = entry_after e"
proof -
  obtain T where T: "dbs.reachable m0 (srv_db s, T, m)" "owns (handlers s) T" using srv_reachable_inv [OF assms(1)] by (auto simp: srv_inv_def)
  have Tt: "T (txn_id t) = Some t" using ownsD(1) [OF T(2), of h t] assms(2,3) by (simp add: open_at_def)
  obtain cur rs where inv: "sys_inv m0 (srv_db s) T m cur rs" using reachable_inv [OF T(1)] .
  have k: "cur k = entry_after e" using txn_invD(7) [OF sys_invD(4) [OF inv Tt]] assms(4) .
  obtain d0 where d0: "DB_Close (srv_db s) = (Inr (), d0)" "tree_holds d0 cur" "wal_file (wal d0) = []"
    using DB_Close_run [OF sys_invD(1) [OF inv]] by blast
  obtain d1 where d1: "DB_destroy d0 = (Inr (), d1)" "tree_holds d1 cur" "on_disk d1" "wal d1 = wal d0" using destroy_run [OF d0(2)] by blast
  have "wal_file (wal d1) = []" using d0(3) d1(4) by simp
  from reopen_clean [OF d1(2,3) this] obtain d2 where
    d: "DB_Open (db_file d1) (file_size d1) [] (wal_file (wal d1)) [] = Inr d2" "fresh_db cur d2" by blast
  have run: "server_run what ord [Signal, Main Accept_error] s = (Inr True, Server_stop s)"
    using assms(5) signal_loop by (simp add: server_run_def op_defs)
  have "Server_destroy (Server_stop s) = (Inr (), (Server_stop s)\<lparr>srv_db := d1\<rparr>)"
    using d0(1) d1(1) by (simp add: Server_destroy_def Server_stop_def Let_def op_defs on_srv_db_def)
  then show ?thesis using run d k by (intro exI conjI) (assumption | simp)+
qed

theorem shutdown_keeps_uncommitted_witness:
  "\<exists>s s1 s2 d m'. srv.reachable Map.empty (\<lambda>_. []) sample_order (s, Map.empty) \<and>
    server_run (\<lambda>_. []) sample_order [Signal, Main Accept_error] s = (Inr True, s1) \<and> Server_destroy s1 = (Inr (), s2) \<and>
    DB_Open (db_file (srv_db s2)) (file_size (srv_db s2)) [] (wal_file (wal (srv_db s2))) [] = Inr d \<and> fresh_db m' d \<and> m' [5] = Some [6]"
proof -
  let ?t = "wrote first_txn [5] first_entry"
  obtain s c where s: "srv.reachable Map.empty (\<lambda>_. []) sample_order (s, Map.empty)" "handlers s = [c]" "cl_txn c = Some ?t" "\<not> stopping s"
    by (rule sample_session [of "[0]" "\<lambda>_. []"]) simp_all
  have e: "entry_after first_entry = Some [6]" by (simp add: entry_after_def)
  have "0 < length (handlers s)" "cl_txn (handlers s ! 0) = Some ?t" "write_set ?t [5] = Some first_entry" using s(2,3) by simp_all
  from shutdown_keeps_uncommitted [OF s(1) this s(4)] s(1) show ?thesis unfolding e by blast
qed

end
