(* ===== verification/Demo.thy ===== *)
theory Demo
  imports Db
begin

section \<open>The demonstration program (\<open>src/src/main.cpp\<close>)\<close>

text \<open>
  The program uses the interface of the library as an embedding application does: it opens a database,
  commits, reads, rolls back, deletes, closes, opens the files again and reads what is left. The state is
  what it has printed and the database object; the transactions are local variables of the blocks. No
  block handles an exception, so that one ends the process.

  The database is opened on files that were removed before, which \<open>open\<close> creates empty; that the removal
  succeeds is taken for granted, and the removal at the end is not followed. The write set of
  a transaction that is rolled back has no more than the one key \<open>temp\<close>, which leaves one order to undo it.
\<close>

record demo =
  stdout :: bytes
  demo_db :: db

definition puts :: "bytes \<Rightarrow> (demo, unit) op" where
  "puts str = op_modify (\<lambda>d. d\<lparr>stdout := stdout d @ str @ [10]\<rparr>)"

text \<open>\<open>printf\<close> of a \<open>c_str\<close> stops at a zero byte.\<close>

definition show_value :: "bytes option \<Rightarrow> bytes \<Rightarrow> bytes" where
  "show_value v null = (case v of None \<Rightarrow> null | Some str \<Rightarrow> takeWhile (\<lambda>b. b \<noteq> 0) str)"

definition show_bool :: "bool \<Rightarrow> bytes" where
  "show_bool b = (if b then ascii ''true'' else ascii ''false'')"

definition null_text :: bytes where "null_text = ascii ''(null)''"

text \<open>Method calls on the database and on a transaction, which is handed on with its changes.\<close>

definition call_db :: "(db, 'x) op \<Rightarrow> (demo, 'x) op" where
  "call_db m = (\<lambda>d. case m (demo_db d) of (r, s) \<Rightarrow> (r, d\<lparr>demo_db := s\<rparr>))"

definition call_txn :: "(unit, 'x) txn_op \<Rightarrow> transaction \<Rightarrow> (demo, 'x \<times> transaction) op" where
  "call_txn m t = (\<lambda>d. case m (t, demo_db d) of
     (Inl e, (_, s)) \<Rightarrow> (Inl e, d\<lparr>demo_db := s\<rparr>)
   | (Inr x, (t', s)) \<Rightarrow> (Inr (x, t'), d\<lparr>demo_db := s\<rparr>))"

subsection \<open>The blocks of the program\<close>

definition demo_commit :: "(demo, unit) op" where
  "demo_commit =
     op_bind (call_db DB_Begin) (\<lambda>txn.
     op_bind (call_txn (Txn_Put (ascii ''name'') (ascii ''KeyVDB'')) txn) (\<lambda>(_, txn).
     op_bind (call_txn (Txn_Put (ascii ''version'') (ascii ''1.0.0'')) txn) (\<lambda>(_, txn).
     op_bind (call_txn (Txn_Put (ascii ''author'') (ascii ''learning-in-public'')) txn) (\<lambda>(_, txn).
     op_bind (call_txn Txn_Commit txn) (\<lambda>(_, txn).
     op_bind (puts (ascii ''[2] Committed: name, version, author.'')) (\<lambda>_.
     op_bind (call_txn (Txn_destroy []) txn) (\<lambda>_. op_return ())))))))"

definition demo_read :: "(demo, unit) op" where
  "demo_read =
     op_bind (call_db DB_Begin) (\<lambda>txn.
     op_bind (call_txn (Txn_Get (ascii ''name'')) txn) (\<lambda>(name, txn).
     op_bind (call_txn (Txn_Get (ascii ''version'')) txn) (\<lambda>(version, txn).
     op_bind (call_txn (Txn_Get (ascii ''does_not_exist'')) txn) (\<lambda>(missing, txn).
     op_bind (call_txn (Txn_Rollback []) txn) (\<lambda>(_, txn).
     op_bind (puts (ascii ''[3] Get(name)    = '' @ show_value name null_text)) (\<lambda>_.
     op_bind (puts (ascii ''    Get(version) = '' @ show_value version null_text)) (\<lambda>_.
     op_bind (puts (ascii ''    Get(missing) = '' @ show_value missing (ascii ''(null '' @ em_dash @ ascii '' expected)''))) (\<lambda>_.
     op_bind (call_txn (Txn_destroy []) txn) (\<lambda>_. op_return ())))))))))"

definition demo_rollback :: "(demo, unit) op" where
  "demo_rollback =
     op_bind (call_db DB_Begin) (\<lambda>txn.
     op_bind (call_txn (Txn_Put (ascii ''temp'') (ascii ''this will be rolled back'')) txn) (\<lambda>(_, txn).
     op_bind (call_txn (Txn_Rollback [ascii ''temp'']) txn) (\<lambda>(_, txn).
     op_bind (call_db DB_Begin) (\<lambda>t2.
     op_bind (call_txn (Txn_Get (ascii ''temp'')) t2) (\<lambda>(v, t2).
     op_bind (call_txn (Txn_Rollback []) t2) (\<lambda>(_, t2).
     op_bind (puts (ascii ''[4] Rolled-back key 'temp' present: '' @ show_bool (v \<noteq> None) @ ascii '' (expected: false)'')) (\<lambda>_.
     op_bind (call_txn (Txn_destroy []) t2) (\<lambda>_.
     op_bind (call_txn (Txn_destroy [ascii ''temp'']) txn) (\<lambda>_. op_return ())))))))))"

definition demo_delete :: "(demo, unit) op" where
  "demo_delete =
     op_bind (call_db DB_Begin) (\<lambda>txn.
     op_bind (call_txn (Txn_Delete (ascii ''author'')) txn) (\<lambda>(_, txn).
     op_bind (call_txn Txn_Commit txn) (\<lambda>(_, txn).
     op_bind (call_db DB_Begin) (\<lambda>t2.
     op_bind (call_txn (Txn_Get (ascii ''author'')) t2) (\<lambda>(v, t2).
     op_bind (call_txn (Txn_Rollback []) t2) (\<lambda>(_, t2).
     op_bind (puts (ascii ''[5] Deleted 'author' '' @ em_dash @ ascii '' present after delete: '' @ show_bool (v \<noteq> None) @ ascii '' (expected: false)'')) (\<lambda>_.
     op_bind (call_txn (Txn_destroy []) t2) (\<lambda>_.
     op_bind (call_txn (Txn_destroy [ascii ''author'']) txn) (\<lambda>_. op_return ())))))))))"

text \<open>\<open>db = DB::Open(db_path)\<close> opens the new database before the old object is destroyed; both work on the
  same file, so that the destructor finds it as the new object left it, and what it writes is there for the new one.\<close>

definition demo_reopen :: "io_outcome list \<Rightarrow> io_outcome list \<Rightarrow> (demo, unit) op" where
  "demo_reopen faults log_faults = (\<lambda>d. let old = demo_db d in
     case DB_Open (db_file old) (file_size old) faults (wal_file (wal old)) log_faults of
       Inl e \<Rightarrow> (Inl e, d)
     | Inr new \<Rightarrow>
         (case DB_destroy (old\<lparr>db_file := db_file new, file_size := file_size new\<rparr>) of
            (Inl e, _) \<Rightarrow> (Inl e, d)
          | (Inr _, gone) \<Rightarrow> (Inr (), d\<lparr>demo_db := new\<lparr>db_file := db_file gone, file_size := file_size gone\<rparr>\<rparr>)))"

definition demo_reread :: "(demo, unit) op" where
  "demo_reread =
     op_bind (call_db DB_Begin) (\<lambda>txn.
     op_bind (call_txn (Txn_Get (ascii ''name'')) txn) (\<lambda>(name, txn).
     op_bind (call_txn (Txn_Get (ascii ''version'')) txn) (\<lambda>(version, txn).
     op_bind (call_txn (Txn_Get (ascii ''author'')) txn) (\<lambda>(author, txn).
     op_bind (call_txn (Txn_Rollback []) txn) (\<lambda>(_, txn).
     op_bind (puts (ascii ''[8] After reopen:'')) (\<lambda>_.
     op_bind (puts (ascii ''    Get(name)    = '' @ show_value name null_text)) (\<lambda>_.
     op_bind (puts (ascii ''    Get(version) = '' @ show_value version null_text)) (\<lambda>_.
     op_bind (puts (ascii ''    Get(author)  = '' @ show_value author null_text @ ascii '' (deleted, expected null)'')) (\<lambda>_.
     op_bind (call_txn (Txn_destroy []) txn) (\<lambda>_. op_return ()))))))))))"

definition demo_body :: "io_outcome list \<Rightarrow> io_outcome list \<Rightarrow> (demo, unit) op" where
  "demo_body faults log_faults =
     op_bind (puts (ascii ''[1] Database opened (new).'')) (\<lambda>_.
     op_bind demo_commit (\<lambda>_.
     op_bind demo_read (\<lambda>_.
     op_bind demo_rollback (\<lambda>_.
     op_bind demo_delete (\<lambda>_.
     op_bind (call_db DB_Close) (\<lambda>_.
     op_bind (puts (ascii ''[6] DB closed cleanly.'')) (\<lambda>_.
     op_bind (demo_reopen faults log_faults) (\<lambda>_.
     op_bind (puts (ascii ''[7] DB reopened (WAL recovery ran).'')) (\<lambda>_.
     op_bind demo_reread (\<lambda>_.
     op_bind (call_db DB_Close) (\<lambda>_.
     op_bind (puts []) (\<lambda>_.
     op_bind (puts (ascii ''All checks passed. KeyVDB Phase 1 is working correctly.'')) (\<lambda>_.
     call_db DB_destroy)))))))))))))"

definition demo_banner :: bytes where
  "demo_banner = ascii ''KeyVDB Phase 1 '' @ em_dash @ ascii '' embedded key-value store demo'' @ [10] @
     ascii ''Build: sanitizers active (ASan + UBSan)'' @ [10] @ [10]"

text \<open>\<open>main\<close>: the exit code and the output, or the exception that ended the process and what had been printed. The
  two times the files are opened meet the given outcomes of the system calls.\<close>

definition demo_main :: "io_outcome list \<Rightarrow> io_outcome list \<Rightarrow> io_outcome list \<Rightarrow> io_outcome list \<Rightarrow> (exc + nat) \<times> bytes" where
  "demo_main faults log_faults faults' log_faults' = (case DB_Open (\<lambda>_. 0) 0 faults [] log_faults of
     Inl e \<Rightarrow> (Inl e, demo_banner)
   | Inr s \<Rightarrow>
       (case demo_body faults' log_faults' \<lparr>stdout = demo_banner, demo_db = s\<rparr> of
          (Inl e, d) \<Rightarrow> (Inl e, stdout d)
        | (Inr _, d) \<Rightarrow> (Inr 0, stdout d)))"

end
