(* ===== verification/Small_Db.thy ===== *)
theory Small_Db
  imports Db_Open
begin

section \<open>Databases of one leaf\<close>

text \<open>
  As long as everything fits into the root leaf, no operation splits it, borrows or takes a page, so a
  program that uses a small database meets the preconditions of all calls. How much an operation may add
  to the leaf is a bound that is composed along its definition: the rules of \<open>op_grows\<close> follow the
  structure of the code. On top of that, \<open>solo\<close> is the state of a database that one transaction at a
  time uses: nobody else holds a lock, so that every request for one is granted.
\<close>

subsection \<open>How much an operation adds to the leaf\<close>

definition grows :: "nat \<Rightarrow> 'r btree_scheme \<Rightarrow> 'r btree_scheme \<Rightarrow> bool" where
  "grows c s s' \<longleftrightarrow> (\<forall>pid cs. holds_tree s (Leaf pid cs) \<longrightarrow> unat (num_pages s) < 1073741824 \<longrightarrow> space leaf_tail cs + c \<le> 4040 \<longrightarrow>
     (\<exists>cs'. holds_tree s' (Leaf pid cs') \<and> unat (num_pages s') \<le> unat (num_pages s) \<and> space leaf_tail cs' \<le> space leaf_tail cs + c))"

definition op_grows :: "('s \<Rightarrow> 'r btree_scheme) \<Rightarrow> nat \<Rightarrow> ('s, 'x) op \<Rightarrow> bool" where
  "op_grows part c m \<longleftrightarrow> (\<forall>s. grows c (part s) (part (snd (m s))))"

lemma grows_trans:
  assumes "grows c s1 s2" "grows d s2 s3"
  shows "grows (c + d) s1 s3"
  unfolding grows_def
proof (intro allI impI)
  fix pid cs assume h: "holds_tree s1 (Leaf pid cs)" "unat (num_pages s1) < 1073741824" "space leaf_tail cs + (c + d) \<le> 4040"
  then obtain cs2 where c2: "holds_tree s2 (Leaf pid cs2)" "unat (num_pages s2) \<le> unat (num_pages s1)" "space leaf_tail cs2 \<le> space leaf_tail cs + c"
    using assms(1) by (force simp: grows_def)
  then obtain cs3 where "holds_tree s3 (Leaf pid cs3)" "unat (num_pages s3) \<le> unat (num_pages s2)" "space leaf_tail cs3 \<le> space leaf_tail cs2 + d"
    using assms(2) h(2,3) by (force simp: grows_def)
  then show "\<exists>cs'. holds_tree s3 (Leaf pid cs') \<and> unat (num_pages s3) \<le> unat (num_pages s1) \<and> space leaf_tail cs' \<le> space leaf_tail cs + (c + d)"
    using c2 by (intro exI [of _ cs3]) simp
qed

lemma grows_same: "(\<And>pid cs. holds_tree s (Leaf pid cs) \<Longrightarrow> holds_tree s' (Leaf pid cs)) \<Longrightarrow> num_pages s' = num_pages s \<Longrightarrow> grows c s s'"
  by (force simp: grows_def)

lemma grows_refl: "grows c s s"
  by (rule grows_same) simp_all

lemma op_growsD: "op_grows part c m \<Longrightarrow> grows c (part s) (part (snd (m s)))"
  by (simp add: op_grows_def)

named_theorems grows_intros

lemma op_grows_bind:
  assumes "op_grows part c m" "\<And>x. op_grows part d (f x)"
  shows "op_grows part (c + d) (op_bind m f)"
  unfolding op_grows_def
proof
  fix s
  obtain r s1 where m: "m s = (r, s1)" by (cases "m s")
  have first: "grows c (part s) (part s1)" using op_growsD [OF assms(1), of s] m by simp
  have second: "grows d (part s1) (part (snd (case r of Inl e \<Rightarrow> (Inl e, s1) | Inr x \<Rightarrow> f x s1)))"
    using op_growsD [OF assms(2)] by (cases r) (simp_all add: grows_refl)
  show "grows (c + d) (part s) (part (snd (op_bind m f s)))"
    using grows_trans [OF first second] m by (cases r) (simp_all add: op_bind_def)
qed

lemma op_grows_then [grows_intros]: "op_grows part 0 m \<Longrightarrow> (\<And>x. op_grows part c (f x)) \<Longrightarrow> op_grows part c (op_bind m f)"
  using op_grows_bind [of part 0 m c f] by simp

lemma op_grows_pure [grows_intros]:
  "op_grows part c (op_return x)" "op_grows part c (op_throw e)" "op_grows part c (op_gets g)"
  by (simp_all add: op_grows_def op_simps grows_refl)

lemma op_grows_cases [grows_intros]:
  "(b \<Longrightarrow> op_grows part c m) \<Longrightarrow> (\<not> b \<Longrightarrow> op_grows part c m') \<Longrightarrow> op_grows part c (if b then m else m')"
  "op_grows part c m \<Longrightarrow> (\<And>y. op_grows part c (f y)) \<Longrightarrow> op_grows part c (case x of None \<Rightarrow> m | Some y \<Rightarrow> f y)"
  by (simp_all split: option.split)

lemma op_grows_on_db [grows_intros]: "op_grows (\<lambda>s. s) c m \<Longrightarrow> op_grows snd c (on_db m)"
  unfolding op_grows_def on_db_def by (auto split: prod.split) (metis snd_conv)

lemma op_grows_parts [grows_intros]:
  "op_grows (\<lambda>s. s) c (on_wal w)" "op_grows snd c (txn_get f)" "op_grows snd c (txn_set g)" "op_grows snd c (txn_lock k mode)"
  "op_grows snd c txn_release" "op_grows snd c check_open"
  by (auto simp: op_grows_def on_wal_def txn_get_def txn_set_def txn_lock_def txn_release_def check_open_run op_simps
      split: prod.split bool.split intro!: grows_same)

lemma op_grows_get [grows_intros]: "op_grows (\<lambda>s. s) c (btree_get k)"
  by (force simp: op_grows_def grows_def dest: tree_get_law [where key = k])

lemma op_grows_flush [grows_intros]: "op_grows (\<lambda>s. s) c flush_all"
  by (force simp: op_grows_def grows_def dest: tree_flush_law)

lemma op_grows_sync [grows_intros]: "op_grows (\<lambda>s. s) c dm_flush"
  unfolding op_grows_def grows_def
proof (intro allI impI)
  fix s :: "'a btree_scheme" and pid cs assume "holds_tree s (Leaf pid cs)"
  then show "\<exists>cs'. holds_tree (snd (dm_flush s)) (Leaf pid cs') \<and> unat (num_pages (snd (dm_flush s))) \<le> unat (num_pages s) \<and>
      space leaf_tail cs' \<le> space leaf_tail cs + c"
    using dm_flush_run [OF holds_tree_io, of s "Leaf pid cs"] by force
qed

lemma op_grows_remove [grows_intros]: "op_grows (\<lambda>s. s) c (btree_remove k)"
  unfolding op_grows_def grows_def
proof (intro allI impI)
  fix s :: "'r btree_scheme" and pid cs
  assume h: "holds_tree s (Leaf pid cs)" "space leaf_tail cs + c \<le> 4040"
  have sp: "space leaf_tail (del_key k cs) \<le> space leaf_tail cs" by (rule space_del_key)
  then have "fits leaf_tail (del_key k cs)" using h(2) by (simp add: fits_space)
  then show "\<exists>cs'. holds_tree (snd (btree_remove k s)) (Leaf pid cs') \<and> unat (num_pages (snd (btree_remove k s))) \<le> unat (num_pages s) \<and>
      space leaf_tail cs' \<le> space leaf_tail cs + c"
    using tree_delete_law [OF h(1), of k] sp by (auto simp: leaf_stays_def removable.simps intro!: exI [of _ "del_key k cs"])
qed

lemma op_grows_insert [grows_intros]:
  assumes "length k + length v \<le> 1002"
  shows "op_grows (\<lambda>s. s) (cost leaf_tail (k, v)) (btree_insert k v)"
  unfolding op_grows_def grows_def
proof (intro allI impI)
  fix s :: "'r btree_scheme" and pid cs
  assume h: "holds_tree s (Leaf pid cs)" "unat (num_pages s) < 1073741824" "space leaf_tail cs + cost leaf_tail (k, v) \<le> 4040"
  have sp: "space leaf_tail (put_key k v cs) \<le> space leaf_tail cs + cost leaf_tail (k, v)" by (rule space_put_key)
  then have "fits leaf_tail (put_key k v cs)" using h(3) by (simp add: fits_space)
  then show "\<exists>cs'. holds_tree (snd (btree_insert k v s)) (Leaf pid cs') \<and> unat (num_pages (snd (btree_insert k v s))) \<le> unat (num_pages s) \<and>
      space leaf_tail cs' \<le> space leaf_tail cs + cost leaf_tail (k, v)"
    using tree_put_law [OF h(1), of k v] assms h(2) sp by (auto simp: leaf_stays_def tree_can_put_def intro!: exI [of _ "put_key k v cs"])
qed

lemma op_grows_step: "update_small u \<Longrightarrow> op_grows (\<lambda>s. s) (update_cost u) (tree_step u)"
  by (cases u) (auto simp: kv_step_def intro!: grows_intros)

lemma op_grows_steps: "\<forall>u \<in> set us. update_small u \<Longrightarrow> op_grows (\<lambda>s. s) (sum_list (map update_cost us)) (op_foreach tree_step us)"
  by (induction us) (auto intro: grows_intros op_grows_step op_grows_bind)

subsection \<open>The methods of a transaction\<close>

lemma Txn_grows:
  "op_grows snd 0 (Txn_Get k)" "length k + length v \<le> 1002 \<Longrightarrow> op_grows snd (cost leaf_tail (k, v)) (Txn_Put k v)"
  "op_grows snd 0 (Txn_Delete k)" "op_grows snd 0 Txn_Commit" "op_grows (\<lambda>s. s) 0 DB_Begin" "op_grows (\<lambda>s. s) 0 DB_Close"
  unfolding Txn_Get_def Txn_Put_def Txn_Delete_def Txn_Commit_def DB_Begin_def DB_Close_def get_locked_def put_locked_def delete_locked_def log_write_def Let_def
  by (auto split: prod.split intro!: grows_intros)

lemma Txn_Rollback_grows:
  assumes "set order \<subseteq> dom (write_set t)" "\<forall>u \<in> set (rollback_updates order t). update_small u"
  shows "grows (sum_list (map update_cost (rollback_updates order t))) s (snd (snd (Txn_Rollback order (t, s))))"
proof (cases "txn_done t")
  case False
  let ?us = "rollback_updates order t"
  let ?rest = "op_bind (txn_get txn_id) (\<lambda>tid. op_bind (on_db (on_wal (append_abort tid))) (\<lambda>_. txn_release))"
  have "op_grows snd (sum_list (map update_cost ?us) + 0) (op_bind (on_db (op_foreach tree_step ?us)) (\<lambda>_. ?rest))"
    by (intro op_grows_bind grows_intros op_grows_steps assms)
  note G = op_growsD [OF this, of "(ended t, s)"]
  have "undo_all order (ended t, s) = on_db (op_foreach tree_step ?us) (ended t, s)"
    using undo_all_eq [of order "ended t" s] assms(1) by (simp add: rollback_updates_def)
  then have "Txn_Rollback order (t, s) = op_bind (on_db (op_foreach tree_step ?us)) (\<lambda>_. ?rest) (ended t, s)"
    using False by (simp add: Txn_Rollback_def op_simps check_open_run op_bind_def)
  with G show ?thesis by simp
qed (simp add: Txn_Rollback_def op_bind_def check_open_run grows_refl)

subsection \<open>One transaction at a time\<close>

definition leaf_room :: "nat \<Rightarrow> 'r btree_scheme \<Rightarrow> bool" where
  "leaf_room b s \<longleftrightarrow> unat (num_pages s) \<le> 2 \<and> (\<exists>pid cs. holds_tree s (Leaf pid cs) \<and> space leaf_tail cs \<le> b)"

definition solo_locks :: "txn_id \<Rightarrow> lock_manager \<Rightarrow> bool" where
  "solo_locks i l \<longleftrightarrow> lm_ok l \<and> (\<forall>j k. j \<noteq> i \<longrightarrow> j \<noteq> INVALID_TXN_ID \<longrightarrow> held l j k = None)"

text \<open>The transaction \<open>i\<close> is open, or none for the invalid id. The leaf has at most \<open>b\<close> bytes of cells,
  the database holds the map \<open>m\<close>, and the numbers of the log are at most \<open>n\<close>.\<close>

definition solo :: "txn_id \<Rightarrow> nat \<Rightarrow> nat \<Rightarrow> kv_map \<Rightarrow> 'a db_scheme \<Rightarrow> bool" where
  "solo i b n m s \<longleftrightarrow> (\<exists>rs. db_holds s m rs) \<and> leaf_room b s \<and> solo_locks i (locks s) \<and>
     unat (next_lsn (wal s)) \<le> n \<and> unat (next_txn_id (wal s)) \<le> n"

lemma soloE:
  assumes "solo i b n m s"
  obtains rs where "db_holds s m rs" "leaf_room b s" "solo_locks i (locks s)" "unat (next_lsn (wal s)) \<le> n" "unat (next_txn_id (wal s)) \<le> n"
  using assms by (auto simp: solo_def)

lemma solo_mono: "solo i b n m s \<Longrightarrow> b \<le> b' \<Longrightarrow> n \<le> n' \<Longrightarrow> solo i b' n' m s"
  unfolding solo_def leaf_room_def by (meson le_trans)

lemma leaf_room_grows: "leaf_room b s \<Longrightarrow> grows c s s' \<Longrightarrow> b + c \<le> 4040 \<Longrightarrow> leaf_room (b + c) s'"
  unfolding leaf_room_def grows_def by (elim conjE exE) (force dest!: spec)

lemma solo_room: "solo i b n m s \<Longrightarrow> n < 2 ^ 62 \<Longrightarrow> log_room s"
  by (auto simp: solo_def log_room_def)

lemma solo_granted:
  assumes "solo_locks i l" "i \<noteq> INVALID_TXN_ID"
  obtains l' where "lock_attempt i k mode l = (True, l')" "solo_locks i l'"
proof -
  obtain g l' where lk: "lock_attempt i k mode l = (g, l')" by (cases "lock_attempt i k mode l")
  note A = lock_attempt_run [OF _ assms(2) lk]
  have "compatible mode None" by (cases mode) (simp_all add: compatible_def)
  then have "g" "solo_locks i l'" using A assms(1) by (auto simp: solo_locks_def)
  with lk show ?thesis by (intro that [of l']) simp_all
qed

lemma solo_released: "solo_locks i l \<Longrightarrow> i \<noteq> INVALID_TXN_ID \<Longrightarrow> solo_locks INVALID_TXN_ID (release_all i l)"
  using release_all_run [of l i] by (auto simp: solo_locks_def)

lemma log_next_numbers:
  assumes "unat (next_lsn w) \<le> n" "unat (next_txn_id w) \<le> n" "n < 2 ^ 62"
  shows "unat (next_lsn (log_next r w)) \<le> n + 1" "unat (next_txn_id (log_next r w)) \<le> n + 1"
  using assms unat_inc64 [of "next_lsn w"] by (simp_all add: log_next_def)

text \<open>A transaction that has not ended, and what each of its methods does to a database that it uses alone.\<close>

definition open_txn :: "transaction \<Rightarrow> bool" where
  "open_txn t \<longleftrightarrow> txn_id t \<noteq> INVALID_TXN_ID \<and> \<not> txn_done t \<and> txn_ok t"

lemma open_txnD: "open_txn t \<Longrightarrow> txn_id t \<noteq> INVALID_TXN_ID" "open_txn t \<Longrightarrow> \<not> txn_done t" "open_txn t \<Longrightarrow> txn_ok t"
  by (simp_all add: open_txn_def)

lemma open_wrote:
  assumes "open_txn t" "db_holds s m rs"
  shows "open_txn (wrote t k (next_entry t m k v))"
  using next_entry_ok [of s m t k v] assms by (simp add: open_txn_def txn_ok_def db_holds_def)

lemma solo_begin:
  assumes "solo INVALID_TXN_ID b n m s" "n < 2 ^ 62" "b \<le> 4040"
  shows "\<exists>t s'. DB_Begin s = (Inr t, s') \<and> open_txn t \<and> write_set t = Map.empty \<and> solo (txn_id t) b (n + 1) m s'"
proof -
  obtain rs where h: "db_holds s m rs" "leaf_room b s" "solo_locks INVALID_TXN_ID (locks s)" "unat (next_lsn (wal s)) \<le> n"
    "unat (next_txn_id (wal s)) \<le> n" by (rule soloE [OF assms(1)])
  note B = DB_Begin_run [OF h(1) solo_room [OF assms(1,2)]]
  let ?i = "next_txn_id (wal s)" and ?s = "snd (DB_Begin s)"
  have ne: "?i \<noteq> INVALID_TXN_ID" using h(5) assms(2) by (auto simp: INVALID_TXN_ID_def unsigned_minus_1_eq_mask mask_eq_exp_minus_1)
  have "leaf_room b ?s" using leaf_room_grows [OF h(2) op_growsD [OF Txn_grows(5)]] assms(3) by simp
  moreover have "solo_locks ?i (locks ?s)" using h(3) B(1) by (simp add: solo_locks_def)
  moreover have "unat (next_txn_id (wal s) + 1) \<le> n + 1" using h(5) assms(2) unat_inc64 [of ?i] by simp
  ultimately have "solo ?i b (n + 1) m ?s"
    unfolding solo_def using B log_next_numbers(1) [OF h(4,5) assms(2)] by auto
  then show ?thesis using B(1) ne by (auto simp: open_txn_def txn_ok_def)
qed

lemma solo_get:
  assumes "solo (txn_id t) b n m s" "open_txn t" "b \<le> 4040"
  shows "\<exists>s'. Txn_Get k (t, s) = (Inr (m k), (t, s')) \<and> solo (txn_id t) b n m s'"
proof -
  note T = open_txnD [OF assms(2)]
  obtain rs where h: "db_holds s m rs" "leaf_room b s" "solo_locks (txn_id t) (locks s)" "unat (next_lsn (wal s)) \<le> n"
    "unat (next_txn_id (wal s)) \<le> n" by (rule soloE [OF assms(1)])
  obtain l where l: "lock_attempt (txn_id t) k SHARED (locks s) = (True, l)" "solo_locks (txn_id t) l"
    by (rule solo_granted [OF h(3) T(1)])
  obtain s' where s': "Txn_Get k (t, s) = (Inr (m k), (t, s'))" "db_holds s' m rs" "locks s' = l" "wal s' = wal s"
    using Txn_Get_run [OF h(1) T(2) l(1)] by blast
  have "leaf_room b s'" using leaf_room_grows [OF h(2) op_growsD [OF Txn_grows(1) [of k], of "(t, s)", simplified]] assms(3) s'(1) by simp
  then have "solo (txn_id t) b n m s'" unfolding solo_def using s' h(4,5) l(2) by auto
  with s'(1) show ?thesis by blast
qed

lemma solo_put:
  assumes "solo (txn_id t) b n m s" "open_txn t" "n < 2 ^ 62"
    "length k + length v \<le> 1002" "b + length k + length v + 6 \<le> 4040"
  shows "\<exists>t' s'. Txn_Put k v (t, s) = (Inr (), (t', s')) \<and> open_txn t' \<and> write_set t' = (write_set t)(k \<mapsto> next_entry t m k v) \<and>
    solo (txn_id t') (b + length k + length v + 6) (n + 1) (m(k \<mapsto> v)) s'"
proof -
  note T = open_txnD [OF assms(2)]
  obtain rs where h: "db_holds s m rs" "leaf_room b s" "solo_locks (txn_id t) (locks s)" "unat (next_lsn (wal s)) \<le> n"
    "unat (next_txn_id (wal s)) \<le> n" by (rule soloE [OF assms(1)])
  obtain l where l: "lock_attempt (txn_id t) k EXCLUSIVE (locks s) = (True, l)" "solo_locks (txn_id t) l"
    by (rule solo_granted [OF h(3) T(1)])
  have can: "tree_can_put k v s" using assms(4) h(2) by (simp add: tree_can_put_def leaf_room_def)
  obtain s' rs' r where s': "Txn_Put k v (t, s) = (Inr (), (wrote t k (next_entry t m k v), s'))" "db_holds s' (m(k \<mapsto> v)) rs'"
    "locks s' = l" "wal s' = log_next r (wal s)"
    using Txn_Put_run [OF h(1) solo_room [OF assms(1,3)] T(3,2) can l(1)] by blast
  have c: "cost leaf_tail (k, v) = length k + length v + 6" by (simp add: cost_def encode_leaf leaf_cell_size_def)
  have "leaf_room (b + length k + length v + 6) s'"
    using leaf_room_grows [OF h(2) op_growsD [OF Txn_grows(2) [OF assms(4)], of "(t, s)", simplified]] assms(5) s'(1) c by (simp add: add.assoc)
  then have "solo (txn_id t) (b + length k + length v + 6) (n + 1) (m(k \<mapsto> v)) s'"
    unfolding solo_def using s' l(2) log_next_numbers [OF h(4,5) assms(3)] by auto
  with s'(1) open_wrote [OF assms(2) h(1)] show ?thesis by fastforce
qed

lemma solo_delete:
  assumes "solo (txn_id t) b n m s" "open_txn t" "n < 2 ^ 62" "length k < 2 ^ 32"
    "m k \<noteq> None" "b \<le> 4040"
  shows "\<exists>t' s'. Txn_Delete k (t, s) = (Inr (), (t', s')) \<and> open_txn t' \<and> solo (txn_id t') b (n + 1) (m(k := None)) s'"
proof -
  note T = open_txnD [OF assms(2)]
  obtain rs where h: "db_holds s m rs" "leaf_room b s" "solo_locks (txn_id t) (locks s)" "unat (next_lsn (wal s)) \<le> n"
    "unat (next_txn_id (wal s)) \<le> n" by (rule soloE [OF assms(1)])
  obtain l where l: "lock_attempt (txn_id t) k EXCLUSIVE (locks s) = (True, l)" "solo_locks (txn_id t) l"
    by (rule solo_granted [OF h(3) T(1)])
  have can: "tree_can_delete k s" using h(2) by (auto simp: leaf_room_def tree_can_delete_def removable.simps)
  obtain s' rs' r where s': "Txn_Delete k (t, s) = (Inr (), (wrote t k (next_entry t m k []), s'))" "db_holds s' (m(k := None)) rs'"
    "locks s' = l" "wal s' = log_next r (wal s)"
    using Txn_Delete_run(2) [OF h(1) solo_room [OF assms(1,3)] T(3,2) assms(4) can l(1) assms(5)] by blast
  have "leaf_room b s'" using leaf_room_grows [OF h(2) op_growsD [OF Txn_grows(3) [of k], of "(t, s)", simplified]] assms(6) s'(1) by simp
  then have "solo (txn_id t) b (n + 1) (m(k := None)) s'"
    unfolding solo_def using s' l(2) log_next_numbers [OF h(4,5) assms(3)] by auto
  with s'(1) open_wrote [OF assms(2) h(1)] show ?thesis by fastforce
qed

lemma solo_commit:
  assumes "solo (txn_id t) b n m s" "open_txn t" "n < 2 ^ 62" "b \<le> 4040"
  shows "\<exists>s'. Txn_Commit (t, s) = (Inr (), (ended t, s')) \<and> solo INVALID_TXN_ID b (n + 1) m s'"
proof -
  note T = open_txnD [OF assms(2)]
  obtain rs where h: "db_holds s m rs" "leaf_room b s" "solo_locks (txn_id t) (locks s)" "unat (next_lsn (wal s)) \<le> n"
    "unat (next_txn_id (wal s)) \<le> n" by (rule soloE [OF assms(1)])
  obtain s' rs' r where s': "Txn_Commit (t, s) = (Inr (), (ended t, s'))" "db_holds s' m rs'"
    "locks s' = release_all (txn_id t) (locks s)" "wal s' = log_next r (wal s)"
    using Txn_Commit_run [OF h(1) solo_room [OF assms(1,3)] T(2)] by blast
  have "leaf_room b s'" using leaf_room_grows [OF h(2) op_growsD [OF Txn_grows(4), of "(t, s)", simplified]] assms(4) s'(1) by simp
  then have "solo INVALID_TXN_ID b (n + 1) m s'"
    unfolding solo_def using s' solo_released [OF h(3) T(1)] log_next_numbers [OF h(4,5) assms(3)] by auto
  with s'(1) show ?thesis by blast
qed

lemma solo_rollback:
  assumes "solo (txn_id t) b n m s" "open_txn t" "n < 2 ^ 62" "write_order order t"
    "\<forall>u \<in> set (rollback_updates order t). update_small u" "b + sum_list (map update_cost (rollback_updates order t)) \<le> 4040"
  shows "\<exists>s'. Txn_Rollback order (t, s) = (Inr (), (ended t, s')) \<and>
    solo INVALID_TXN_ID (b + sum_list (map update_cost (rollback_updates order t))) (n + 1) (restored t m) s'"
proof -
  note T = open_txnD [OF assms(2)]
  obtain rs where h: "db_holds s m rs" "leaf_room b s" "solo_locks (txn_id t) (locks s)" "unat (next_lsn (wal s)) \<le> n"
    "unat (next_txn_id (wal s)) \<le> n" by (rule soloE [OF assms(1)])
  have can: "kv_can_all btree_insert btree_remove tree_can_put tree_can_delete (rollback_updates order t) s"
    using h(2) assms(5,6) by (auto simp: leaf_room_def intro!: leaf_can_all)
  obtain s' rs' r where s': "Txn_Rollback order (t, s) = (Inr (), (ended t, s'))" "db_holds s' (restored t m) rs'"
    "locks s' = release_all (txn_id t) (locks s)" "wal s' = log_next r (wal s)"
    using Txn_Rollback_run [OF h(1) solo_room [OF assms(1,3)] T(2) assms(4) can] by blast
  have "set order \<subseteq> dom (write_set t)" using assms(4) by (simp add: write_order_def)
  note G = Txn_Rollback_grows [OF this assms(5), of s, unfolded s'(1), simplified]
  have "solo INVALID_TXN_ID (b + sum_list (map update_cost (rollback_updates order t))) (n + 1) (restored t m) s'"
    unfolding solo_def using s' solo_released [OF h(3) T(1)] log_next_numbers [OF h(4,5) assms(3)] leaf_room_grows [OF h(2) G assms(6)] by auto
  with s'(1) show ?thesis by blast
qed

text \<open>A transaction that has only read.\<close>

lemma solo_rollback_nothing:
  assumes "solo (txn_id t) b n m s" "open_txn t" "n < 2 ^ 62" "write_set t = Map.empty" "b \<le> 4040"
  shows "\<exists>s'. Txn_Rollback [] (t, s) = (Inr (), (ended t, s')) \<and> solo INVALID_TXN_ID b (n + 1) m s'"
proof -
  have "restored t m = m" using assms(4) by (simp add: restored_def)
  then show ?thesis using solo_rollback [OF assms(1-3), of "[]"] assms(4,5) by (simp add: write_order_def rollback_updates_def)
qed

text \<open>A transaction that has put one new key.\<close>

lemma solo_rollback_new:
  assumes "solo (txn_id t) b n (m(k \<mapsto> v)) s" "open_txn t" "n < 2 ^ 62" "write_set t = [k \<mapsto> e]" "\<not> we_before_exists e" "m k = None" "b \<le> 4040"
  shows "\<exists>s'. Txn_Rollback [k] (t, s) = (Inr (), (ended t, s')) \<and> solo INVALID_TXN_ID b (n + 1) m s'"
proof -
  have "restored t (m(k \<mapsto> v)) = m" using assms(4-6) by (auto simp: restored_def entry_before_def fun_eq_iff)
  then show ?thesis using solo_rollback [OF assms(1-3), of "[k]"] assms(4,5,7) by (simp add: write_order_def rollback_updates_def entry_update_def)
qed

text \<open>Closing and opening again.\<close>

definition pool_clean :: "'a buffer_pool_scheme \<Rightarrow> bool" where
  "pool_clean s \<longleftrightarrow> (\<forall>(pid, fid) \<in> set (page_table s). \<not> is_dirty (frames s ! fid))"

lemma flush_clean: "pool_clean s \<Longrightarrow> flush_all s = (Inr (), s)"
proof -
  have "\<forall>(pid, fid) \<in> set es. \<not> is_dirty (frames s ! fid) \<Longrightarrow> flush_entries es s = (Inr (), s)" for es
    by (induction es) (auto simp: flush_frame_def op_simps)
  then show "pool_clean s \<Longrightarrow> flush_all s = (Inr (), s)" by (simp add: pool_clean_def flush_all_def op_simps)
qed

lemma flushed_clean:
  assumes "pool_inv s" "flush_all s = (Inr (), s')"
  shows "pool_clean s'"
proof -
  obtain t where "flush_entries (page_table s) s = (Inr (), t)" "page_table t = page_table s"
    "\<forall>pid fid. (pid, fid) \<in> set (page_table s) \<longrightarrow> \<not> is_dirty (frames t ! fid)"
    using flush_entries_run [OF assms(1), of "page_table s"] by auto
  then show ?thesis using assms(2) by (auto simp: flush_all_def op_simps pool_clean_def)
qed

lemma solo_close:
  assumes "solo INVALID_TXN_ID b n m s" "b \<le> 4040"
  shows "\<exists>s'. DB_Close s = (Inr (), s') \<and> tree_holds s' m \<and> on_disk s' \<and> wal_file (wal s') = [] \<and> leaf_room b s' \<and> pool_clean s'"
proof -
  obtain rs where h: "db_holds s m rs" "leaf_room b s" by (rule soloE [OF assms(1)])
  obtain s' where s': "DB_Close s = (Inr (), s')" "tree_holds s' m" "on_disk s'" "wal_file (wal s') = []"
    using DB_Close_run [OF h(1)] by blast
  have "leaf_room b s'" using leaf_room_grows [OF h(2) op_growsD [OF Txn_grows(6), of s]] assms(2) s'(1) by simp
  moreover obtain t where t: "holds_tree s t" using h(2) by (auto simp: leaf_room_def)
  then have "pool_inv s" using cachedD(1) by (auto elim: holds_treeE)
  then have "pool_clean s'"
    using s'(1) flushed_clean [of s] flush_tree_run [of s m] h(1)
    by (auto simp: DB_Close_def op_simps on_wal_def db_holds_def pool_clean_def op_bind_def split: prod.splits)
  ultimately show ?thesis using s' by blast
qed

lemma solo_reopen:
  fixes s :: db
  assumes "tree_holds s m" "on_disk s" "leaf_room b s" "n \<ge> 1"
  shows "\<exists>s'. DB_Open (db_file s) (file_size s) [] [] [] = Inr s' \<and> db_file s' = db_file s \<and> file_size s' = file_size s \<and>
    solo INVALID_TXN_ID b n m s'"
proof -
  let ?lg = "\<lparr>wal_file = [], wal_faults = [], next_lsn = 1, next_txn_id = 1\<rparr>"
  let ?s = "reopened s ?lg"
  obtain t where t: "holds_tree s t" "m = map_of (contents t)" using assms(1) by (auto simp: tree_holds_def)
  obtain pid cs where l: "holds_tree s (Leaf pid cs)" "space leaf_tail cs \<le> b" "unat (num_pages s) \<le> 2"
    using assms(3) by (auto simp: leaf_room_def)
  obtain c where c: "cached c s" "stores c t" by (rule holds_treeE [OF t(1)])
  note C = cachedD [OF c(1)]
  have "tree_root s \<in> allocated_ids c" using C(10) c(2) tid_in_pages [of t] by (auto simp: stores_def)
  then have "valid_pid s (tree_root s)" using C(2) liveD(1) by blast
  moreover have "header_ok (tree_root s) s" using assms(2) by (simp add: on_disk_def)
  ultimately have R: "DB_Open (db_file s) (file_size s) [] [] [] = Inr ?s" "same_disk ?s s"
    using reopen_unflushed [OF C(1)] by simp_all
  have "db_holds ?s m []" using reopened_holds(1) [OF t(1) assms(2)] t(2) by (auto simp: db_holds_def tree_holds_def log_inv_def reopened_def)
  moreover have "leaf_room b ?s" using reopened_holds [OF l(1) assms(2), of ?lg] l(2,3) by (auto simp: leaf_room_def)
  moreover have "solo_locks INVALID_TXN_ID (locks ?s)" using lm_ok_new by (simp add: reopened_def solo_locks_def held_def LockManager_new_def)
  moreover have "wal ?s = ?lg" by (simp add: reopened_def)
  ultimately have "solo INVALID_TXN_ID b n m ?s" using assms(4) by (auto simp: solo_def)
  then show ?thesis using R by (auto simp: same_disk_def)
qed

text \<open>A new database.\<close>

lemma solo_new: "\<exists>s. DB_Open f 0 [] [] [] = Inr s \<and> solo INVALID_TXN_ID 0 1 Map.empty s"
proof -
  obtain s pid where s: "DB_Open f 0 [] [] [] = Inr s" "holds_tree s (Leaf pid [])" "unat (num_pages s) \<le> 2" "locks s = LockManager_new"
    "wal s = \<lparr>wal_file = [], wal_faults = [], next_lsn = 1, next_txn_id = 1\<rparr>"
    using DB_Open_new_run [of f] by blast
  have "db_holds s Map.empty []" using s(2,5) by (auto simp: db_holds_def tree_holds_def contents_def log_inv_def)
  moreover have "leaf_room 0 s" using s(2,3) by (force simp: leaf_room_def space_def)
  moreover have "solo_locks INVALID_TXN_ID (locks s)" using lm_ok_new s(4) by (simp add: solo_locks_def held_def LockManager_new_def)
  ultimately show ?thesis using s(1,5) by (auto simp: solo_def)
qed

end
