(* ===== verification/Demo_Props.thy ===== *)
theory Demo_Props
  imports Demo Small_Db
begin

section \<open>What the demonstration program prints\<close>

text \<open>
  The run of the whole program over all components, from the creation of the files to the second close: every
  block meets a database that no other transaction uses and that fits into one leaf, and the text that it
  prints is computed from the map that the database holds.
\<close>

lemma call_db_run [op_simps]: "m (demo_db d) = (r, s) \<Longrightarrow> call_db m d = (r, d\<lparr>demo_db := s\<rparr>)"
  by (simp add: call_db_def)

lemma call_txn_run [op_simps]: "m (t, demo_db d) = (Inr x, (t', s)) \<Longrightarrow> call_txn m t d = (Inr (x, t'), d\<lparr>demo_db := s\<rparr>)"
  by (simp add: call_txn_def)

lemma puts_run [op_simps]: "puts str d = (Inr (), d\<lparr>stdout := stdout d @ str @ [10]\<rparr>)"
  by (simp add: puts_def op_simps)

lemma destroy_ended: "txn_done t \<Longrightarrow> call_txn (Txn_destroy order) t d = (Inr ((), t), d)"
  by (cases d) (simp add: call_txn_def ended_throws)

text \<open>A block that begins with a database \<open>s\<close> that holds \<open>m\<close> ends with one that holds \<open>m'\<close>, and has printed \<open>out\<close>.\<close>

definition block :: "(demo, unit) op \<Rightarrow> nat \<Rightarrow> nat \<Rightarrow> kv_map \<Rightarrow> nat \<Rightarrow> nat \<Rightarrow> kv_map \<Rightarrow> bytes \<Rightarrow> bool" where
  "block p b n m b' n' m' out \<longleftrightarrow> (\<forall>d. solo INVALID_TXN_ID b n m (demo_db d) \<longrightarrow>
     (\<exists>d'. p d = (Inr (), d') \<and> stdout d' = stdout d @ out \<and> solo INVALID_TXN_ID b' n' m' (demo_db d')))"

abbreviation demo_map :: kv_map where
  "demo_map \<equiv> [ascii ''name'' \<mapsto> ascii ''KeyVDB'', ascii ''version'' \<mapsto> ascii ''1.0.0'', ascii ''author'' \<mapsto> ascii ''learning-in-public'']"

lemma demo_commit_block: "block demo_commit 0 2 Map.empty 200 7 demo_map (ascii ''[2] Committed: name, version, author.'' @ [10])"
  unfolding block_def
proof (intro allI impI)
  fix d :: demo assume "solo INVALID_TXN_ID 0 2 Map.empty (demo_db d)"
  from solo_begin [OF this] obtain t0 s0 where s0: "DB_Begin (demo_db d) = (Inr t0, s0)" "open_txn t0" "solo (txn_id t0) 0 3 Map.empty s0"
    by auto
  from solo_put [OF s0(3,2), of "ascii ''name''" "ascii ''KeyVDB''"] obtain t1 s1 where
    s1: "Txn_Put (ascii ''name'') (ascii ''KeyVDB'') (t0, s0) = (Inr (), (t1, s1))" "open_txn t1"
      "solo (txn_id t1) 16 4 [ascii ''name'' \<mapsto> ascii ''KeyVDB''] s1" by auto
  from solo_put [OF s1(3,2), of "ascii ''version''" "ascii ''1.0.0''"] obtain t2 s2 where
    s2: "Txn_Put (ascii ''version'') (ascii ''1.0.0'') (t1, s1) = (Inr (), (t2, s2))" "open_txn t2"
      "solo (txn_id t2) 34 5 [ascii ''name'' \<mapsto> ascii ''KeyVDB'', ascii ''version'' \<mapsto> ascii ''1.0.0''] s2" by auto
  from solo_put [OF s2(3,2), of "ascii ''author''" "ascii ''learning-in-public''"] obtain t3 s3 where
    s3: "Txn_Put (ascii ''author'') (ascii ''learning-in-public'') (t2, s2) = (Inr (), (t3, s3))" "open_txn t3"
      "solo (txn_id t3) 64 6 demo_map s3" by auto
  from solo_commit [OF s3(3,2)] obtain s4 where s4: "Txn_Commit (t3, s3) = (Inr (), (ended t3, s4))" "solo INVALID_TXN_ID 64 7 demo_map s4"
    by auto
  have "solo INVALID_TXN_ID 200 7 demo_map s4" by (rule solo_mono [OF s4(2)]) simp_all
  then show "\<exists>d'. demo_commit d = (Inr (), d') \<and> stdout d' = stdout d @ ascii ''[2] Committed: name, version, author.'' @ [10] \<and>
      solo INVALID_TXN_ID 200 7 demo_map (demo_db d')"
    using s0(1) s1(1) s2(1) s3(1) s4(1) by (simp add: demo_commit_def op_simps destroy_ended)
qed

text \<open>A block that reads a key in a transaction of its own: begin, get and roll back.\<close>

lemma solo_peek:
  assumes "solo INVALID_TXN_ID b n m s" "n + 1 < 2 ^ 62" "b \<le> 4040"
  obtains t s1 s2 s3 where "DB_Begin s = (Inr t, s1)" "Txn_Get k (t, s1) = (Inr (m k), (t, s2))" "Txn_Rollback [] (t, s2) = (Inr (), (ended t, s3))"
    "solo INVALID_TXN_ID b (n + 2) m s3"
proof -
  obtain t s1 where s1: "DB_Begin s = (Inr t, s1)" "open_txn t" "write_set t = Map.empty" "solo (txn_id t) b (n + 1) m s1"
    using solo_begin [OF assms(1) _ assms(3)] assms(2) by auto
  obtain s2 where s2: "Txn_Get k (t, s1) = (Inr (m k), (t, s2))" "solo (txn_id t) b (n + 1) m s2"
    using solo_get [OF s1(4,2) assms(3)] by blast
  obtain s3 where s3: "Txn_Rollback [] (t, s2) = (Inr (), (ended t, s3))" "solo INVALID_TXN_ID b (n + 2) m s3"
    using solo_rollback_nothing [OF s2(2) s1(2) assms(2) s1(3) assms(3)] by auto
  show thesis by (rule that [OF s1(1) s2(1) s3])
qed

lemma solo_peek3:
  assumes "solo INVALID_TXN_ID b n m s" "n + 1 < 2 ^ 62" "b \<le> 4040"
  obtains t s1 s2 s3 s4 s5 where "DB_Begin s = (Inr t, s1)" "Txn_Get k (t, s1) = (Inr (m k), (t, s2))"
    "Txn_Get k' (t, s2) = (Inr (m k'), (t, s3))" "Txn_Get k'' (t, s3) = (Inr (m k''), (t, s4))"
    "Txn_Rollback [] (t, s4) = (Inr (), (ended t, s5))" "solo INVALID_TXN_ID b (n + 2) m s5"
proof -
  obtain t s1 where s1: "DB_Begin s = (Inr t, s1)" "open_txn t" "write_set t = Map.empty" "solo (txn_id t) b (n + 1) m s1"
    using solo_begin [OF assms(1) _ assms(3)] assms(2) by auto
  obtain s2 where s2: "Txn_Get k (t, s1) = (Inr (m k), (t, s2))" "solo (txn_id t) b (n + 1) m s2"
    using solo_get [OF s1(4,2) assms(3)] by blast
  obtain s3 where s3: "Txn_Get k' (t, s2) = (Inr (m k'), (t, s3))" "solo (txn_id t) b (n + 1) m s3"
    using solo_get [OF s2(2) s1(2) assms(3)] by blast
  obtain s4 where s4: "Txn_Get k'' (t, s3) = (Inr (m k''), (t, s4))" "solo (txn_id t) b (n + 1) m s4"
    using solo_get [OF s3(2) s1(2) assms(3)] by blast
  obtain s5 where s5: "Txn_Rollback [] (t, s4) = (Inr (), (ended t, s5))" "solo INVALID_TXN_ID b (n + 2) m s5"
    using solo_rollback_nothing [OF s4(2) s1(2) assms(2) s1(3) assms(3)] by auto
  show thesis by (rule that [OF s1(1) s2(1) s3(1) s4(1) s5])
qed

lemma demo_read_block:
  "block demo_read 200 7 m 200 9 m
     (ascii ''[3] Get(name)    = '' @ show_value (m (ascii ''name'')) null_text @ [10] @
      ascii ''    Get(version) = '' @ show_value (m (ascii ''version'')) null_text @ [10] @
      ascii ''    Get(missing) = '' @ show_value (m (ascii ''does_not_exist'')) (ascii ''(null '' @ em_dash @ ascii '' expected)'') @ [10])"
  unfolding block_def
proof (intro allI impI, goal_cases)
  case (1 d)
  then obtain t s1 s2 s3 s4 s5 where "DB_Begin (demo_db d) = (Inr t, s1)"
    "Txn_Get (ascii ''name'') (t, s1) = (Inr (m (ascii ''name'')), (t, s2))"
    "Txn_Get (ascii ''version'') (t, s2) = (Inr (m (ascii ''version'')), (t, s3))"
    "Txn_Get (ascii ''does_not_exist'') (t, s3) = (Inr (m (ascii ''does_not_exist'')), (t, s4))"
    "Txn_Rollback [] (t, s4) = (Inr (), (ended t, s5))" "solo INVALID_TXN_ID 200 (7 + 2) m s5"
    by (rule solo_peek3 [where k = "ascii ''name''" and k' = "ascii ''version''" and k'' = "ascii ''does_not_exist''"]) simp_all
  then show ?case by (simp add: demo_read_def op_simps destroy_ended)
qed

lemma demo_reread_block:
  "block demo_reread 300 2 m 300 4 m
     (ascii ''[8] After reopen:'' @ [10] @
      ascii ''    Get(name)    = '' @ show_value (m (ascii ''name'')) null_text @ [10] @
      ascii ''    Get(version) = '' @ show_value (m (ascii ''version'')) null_text @ [10] @
      ascii ''    Get(author)  = '' @ show_value (m (ascii ''author'')) null_text @ ascii '' (deleted, expected null)'' @ [10])"
  unfolding block_def
proof (intro allI impI, goal_cases)
  case (1 d)
  then obtain t s1 s2 s3 s4 s5 where "DB_Begin (demo_db d) = (Inr t, s1)"
    "Txn_Get (ascii ''name'') (t, s1) = (Inr (m (ascii ''name'')), (t, s2))"
    "Txn_Get (ascii ''version'') (t, s2) = (Inr (m (ascii ''version'')), (t, s3))"
    "Txn_Get (ascii ''author'') (t, s3) = (Inr (m (ascii ''author'')), (t, s4))"
    "Txn_Rollback [] (t, s4) = (Inr (), (ended t, s5))" "solo INVALID_TXN_ID 300 (2 + 2) m s5"
    by (rule solo_peek3 [where k = "ascii ''name''" and k' = "ascii ''version''" and k'' = "ascii ''author''"]) simp_all
  then show ?case by (simp add: demo_reread_def op_simps destroy_ended)
qed

lemma demo_rollback_block:
  assumes "m (ascii ''temp'') = None"
  shows "block demo_rollback 200 9 m 300 14 m 
     (ascii ''[4] Rolled-back key 'temp' present: '' @ ascii ''false'' @ ascii '' (expected: false)'' @ [10])"
  unfolding block_def
proof (intro allI impI, goal_cases)
  case (1 d)
  let ?k = "ascii ''temp''" and ?v = "ascii ''this will be rolled back''"
  obtain t0 s0 where s0: "DB_Begin (demo_db d) = (Inr t0, s0)" "open_txn t0" "write_set t0 = Map.empty" "solo (txn_id t0) 200 10 m s0"
    using solo_begin [OF 1] by auto
  obtain t1 s1 where s1: "Txn_Put ?k ?v (t0, s0) = (Inr (), (t1, s1))" "open_txn t1" "write_set t1 = [?k \<mapsto> next_entry t0 m ?k ?v]"
    "solo (txn_id t1) 234 11 (m(?k \<mapsto> ?v)) s1"
    using solo_put [OF s0(4,2), of ?k ?v] s0(3) by auto
  have "\<not> we_before_exists (next_entry t0 m ?k ?v)" using s0(3) assms by (simp add: next_entry_def)
  then obtain s2 where s2: "Txn_Rollback [?k] (t1, s1) = (Inr (), (ended t1, s2))" "solo INVALID_TXN_ID 234 12 m s2"
    using solo_rollback_new [OF s1(4,2) _ s1(3) _ assms] by auto
  obtain t s3 s4 s5 where s5: "DB_Begin s2 = (Inr t, s3)" "Txn_Get ?k (t, s3) = (Inr (m ?k), (t, s4))"
    "Txn_Rollback [] (t, s4) = (Inr (), (ended t, s5))" "solo INVALID_TXN_ID 234 (12 + 2) m s5"
    by (rule solo_peek [OF s2(2), where k = ?k]) simp_all
  have "solo INVALID_TXN_ID 300 14 m s5" by (rule solo_mono [OF s5(4)]) simp_all
  then show ?case
    using s0(1) s1(1) s2(1) s5(1-3) assms by (simp add: demo_rollback_def op_simps destroy_ended show_bool_def)
qed

lemma demo_delete_block:
  assumes "m (ascii ''author'') \<noteq> None"
  shows "block demo_delete 300 14 m 300 19 (m(ascii ''author'' := None))
     (ascii ''[5] Deleted 'author' '' @ em_dash @ ascii '' present after delete: '' @ ascii ''false'' @ ascii '' (expected: false)'' @ [10])"
  unfolding block_def
proof (intro allI impI, goal_cases)
  case (1 d)
  let ?k = "ascii ''author''"
  obtain t0 s0 where s0: "DB_Begin (demo_db d) = (Inr t0, s0)" "open_txn t0" "solo (txn_id t0) 300 15 m s0"
    using solo_begin [OF 1] by auto
  obtain t1 s1 where s1: "Txn_Delete ?k (t0, s0) = (Inr (), (t1, s1))" "open_txn t1" "solo (txn_id t1) 300 16 (m(?k := None)) s1"
    using solo_delete [OF s0(3,2) _ _ assms] by auto
  obtain s2 where s2: "Txn_Commit (t1, s1) = (Inr (), (ended t1, s2))" "solo INVALID_TXN_ID 300 17 (m(?k := None)) s2"
    using solo_commit [OF s1(3,2)] by auto
  obtain t s3 s4 s5 where s5: "DB_Begin s2 = (Inr t, s3)" "Txn_Get ?k (t, s3) = (Inr ((m(?k := None)) ?k), (t, s4))"
    "Txn_Rollback [] (t, s4) = (Inr (), (ended t, s5))" "solo INVALID_TXN_ID 300 (17 + 2) (m(?k := None)) s5"
    by (rule solo_peek [OF s2(2), where k = ?k]) simp_all
  then show ?case
    using s0(1) s1(1) s2(1) by (simp add: demo_delete_def op_simps destroy_ended show_bool_def)
qed

lemma puts_block: "block (puts str) b n m b n m (str @ [10])"
  by (simp add: block_def op_simps)

lemma block_bind:
  assumes "block p b n m b1 n1 m1 out" "block q b1 n1 m1 b2 n2 m2 out'"
  shows "block (op_bind p (\<lambda>_. q)) b n m b2 n2 m2 (out @ out')"
  unfolding block_def
proof (intro allI impI)
  fix d :: demo assume "solo INVALID_TXN_ID b n m (demo_db d)"
  with assms(1) obtain d1 where d1: "p d = (Inr (), d1)" "stdout d1 = stdout d @ out" "solo INVALID_TXN_ID b1 n1 m1 (demo_db d1)"
    by (auto simp: block_def)
  with assms(2) obtain d2 where "q d1 = (Inr (), d2)" "stdout d2 = stdout d1 @ out'" "solo INVALID_TXN_ID b2 n2 m2 (demo_db d2)"
    by (auto simp: block_def)
  with d1 show "\<exists>d'. op_bind p (\<lambda>_. q) d = (Inr (), d') \<and> stdout d' = stdout d @ out @ out' \<and> solo INVALID_TXN_ID b2 n2 m2 (demo_db d')"
    by (simp add: op_simps)
qed

text \<open>Closing and opening: the old object finds nothing to write when it is destroyed.\<close>

lemma demo_restart_block:
  assumes "b \<le> 4040"
  shows "block (op_bind (call_db DB_Close) (\<lambda>_. op_bind (puts str) (\<lambda>_. demo_reopen [] []))) b n m b 2 m (str @ [10])"
  unfolding block_def
proof (intro allI impI)
  fix d :: demo assume "solo INVALID_TXN_ID b n m (demo_db d)"
  from solo_close [OF this assms] obtain s where s: "DB_Close (demo_db d) = (Inr (), s)" "tree_holds s m" "on_disk s" "wal_file (wal s) = []"
    "leaf_room b s" "pool_clean s" by blast
  obtain s' where s': "DB_Open (db_file s) (file_size s) [] [] [] = Inr s'" "db_file s' = db_file s" "file_size s' = file_size s"
    "solo INVALID_TXN_ID b 2 m s'"
    using solo_reopen [OF s(2,3,5), of 2] by auto
  have "DB_destroy s = (Inr (), s)" using flush_clean [OF s(6)] by (simp add: DB_destroy_def BufferPool_destroy_def)
  moreover have eq: "s'\<lparr>db_file := db_file s, file_size := file_size s\<rparr> = s'" unfolding s'(2,3) [symmetric] by simp
  have "solo INVALID_TXN_ID b 2 m (s'\<lparr>db_file := db_file s, file_size := file_size s\<rparr>)" unfolding eq by (rule s'(4))
  ultimately show "\<exists>d'. op_bind (call_db DB_Close) (\<lambda>_. op_bind (puts str) (\<lambda>_. demo_reopen [] [])) d = (Inr (), d') \<and>
      stdout d' = stdout d @ str @ [10] \<and> solo INVALID_TXN_ID b 2 m (demo_db d')"
    using s(1,4) s'(1-3) by (simp add: op_simps demo_reopen_def Let_def)
qed

text \<open>The end of the program.\<close>

lemma demo_end:
  assumes "solo INVALID_TXN_ID b n m (demo_db d)" "b \<le> 4040"
  shows "\<exists>d'. op_bind (call_db DB_Close) (\<lambda>_. op_bind (puts str) (\<lambda>_. op_bind (puts str') (\<lambda>_. call_db DB_destroy))) d = (Inr (), d') \<and>
    stdout d' = stdout d @ str @ [10] @ str' @ [10]"
proof -
  obtain s where s: "DB_Close (demo_db d) = (Inr (), s)" "pool_clean s" using solo_close [OF assms] by blast
  then have "DB_destroy s = (Inr (), s)" using flush_clean by (simp add: DB_destroy_def BufferPool_destroy_def)
  with s(1) show ?thesis by (simp add: op_simps)
qed

text \<open>What the six blocks up to the last close print.\<close>

definition demo_text :: bytes where
  "demo_text = concat (map (\<lambda>line. line @ [10])
     [ascii ''[1] Database opened (new).'',
      ascii ''[2] Committed: name, version, author.'',
      ascii ''[3] Get(name)    = KeyVDB'',
      ascii ''    Get(version) = 1.0.0'',
      ascii ''    Get(missing) = (null '' @ em_dash @ ascii '' expected)'',
      ascii ''[4] Rolled-back key 'temp' present: false (expected: false)'',
      ascii ''[5] Deleted 'author' '' @ em_dash @ ascii '' present after delete: false (expected: false)'',
      ascii ''[6] DB closed cleanly.'',
      ascii ''[7] DB reopened (WAL recovery ran).'',
      ascii ''[8] After reopen:'',
      ascii ''    Get(name)    = KeyVDB'',
      ascii ''    Get(version) = 1.0.0'',
      ascii ''    Get(author)  = (null) (deleted, expected null)''])"

lemma ascii_show:
  "show_value (Some (ascii ''KeyVDB'')) null = ascii ''KeyVDB''" "show_value (Some (ascii ''1.0.0'')) null = ascii ''1.0.0''"
  "show_value None null = null"
  by (simp_all add: show_value_def ascii_def)

text \<open>The program without its end; the close and the open are taken together.\<close>

abbreviation demo_steps :: "(demo, unit) op" where
  "demo_steps \<equiv> op_bind (puts (ascii ''[1] Database opened (new).'')) (\<lambda>_. op_bind demo_commit (\<lambda>_. op_bind demo_read (\<lambda>_.
     op_bind demo_rollback (\<lambda>_. op_bind demo_delete (\<lambda>_.
     op_bind (op_bind (call_db DB_Close) (\<lambda>_. op_bind (puts (ascii ''[6] DB closed cleanly.'')) (\<lambda>_. demo_reopen [] []))) (\<lambda>_.
     op_bind (puts (ascii ''[7] DB reopened (WAL recovery ran).'')) (\<lambda>_. demo_reread)))))))"

abbreviation demo_finish :: "(demo, unit) op" where
  "demo_finish \<equiv> op_bind (call_db DB_Close) (\<lambda>_. op_bind (puts []) (\<lambda>_.
     op_bind (puts (ascii ''All checks passed. KeyVDB Phase 1 is working correctly.'')) (\<lambda>_. call_db DB_destroy)))"

lemma demo_steps_block: "block demo_steps 0 2 Map.empty 300 4 (demo_map(ascii ''author'' := None)) demo_text"
proof -
  have "demo_map (ascii ''temp'') = None" "demo_map (ascii ''author'') \<noteq> None" by simp_all
  note B = block_bind [OF puts_block block_bind [OF demo_commit_block block_bind [OF demo_read_block
     block_bind [OF demo_rollback_block [of demo_map, OF this(1)] block_bind [OF demo_delete_block [of demo_map, OF this(2)]
     block_bind [OF demo_restart_block block_bind [OF puts_block demo_reread_block]]]]]]]
  show ?thesis
    by (rule B [THEN back_subst [of "\<lambda>out. block _ _ _ _ _ _ _ out"]]) (simp_all add: demo_text_def ascii_show null_text_def, simp add: ascii_def)
qed

text \<open>C22. The demonstration program, from the creation of the database files to its end, succeeds on a file
  system without errors: it exits with code 0 and prints exactly the text that its comments promise. A committed
  value is read back, a rolled back one is not there, a deleted one is gone, and the reopened database still has
  the committed values and only these.\<close>

theorem demo_prints:
  "demo_main [] [] [] [] = (Inr 0, demo_banner @ demo_text @ [10] @ ascii ''All checks passed. KeyVDB Phase 1 is working correctly.'' @ [10])"
proof -
  obtain s where s: "DB_Open (\<lambda>_. 0) 0 [] [] [] = Inr s" "solo INVALID_TXN_ID 0 1 Map.empty s" using solo_new by blast
  let ?d = "\<lparr>stdout = demo_banner, demo_db = s\<rparr>"
  have "solo INVALID_TXN_ID 0 2 Map.empty (demo_db ?d)" using solo_mono [OF s(2), of 0 2] by simp
  then obtain d where d: "demo_steps ?d = (Inr (), d)" "stdout d = demo_banner @ demo_text"
    "solo INVALID_TXN_ID 300 4 (demo_map(ascii ''author'' := None)) (demo_db d)"
    using demo_steps_block unfolding block_def by (elim allE [of _ ?d]) auto
  obtain d' where d': "demo_finish d = (Inr (), d')"
    "stdout d' = stdout d @ [] @ [10] @ ascii ''All checks passed. KeyVDB Phase 1 is working correctly.'' @ [10]"
    using demo_end [OF d(3)] by fastforce
  have "demo_body [] [] = op_bind demo_steps (\<lambda>_. demo_finish)" by (simp add: demo_body_def op_bind_assoc)
  then have "demo_body [] [] ?d = (Inr (), d')" using d'(1) by (simp only: op_bind_run [where m = demo_steps, OF d(1)])
  with s(1) d(2) d'(2) show ?thesis by (simp add: demo_main_def)
qed

end
