(* ===== verification/Spec2Isabelle.thy ===== *)
theory Spec2Isabelle
  imports Storage_Props Node_Props Lock_Props Wal_Props Btree_Props Recovery_Props Db_Props Db_Create Db_Faults Client_Props Server_Props Demo_Props
begin

text \<open>
  KeyVDB is an embedded key-value store in C++ with a TCP server. This development models it from the
  bytes of the file up to the server and proves that transactions are isolated, that a commit survives
  a restart and that recovery restores the committed state, within stated limits; where the program
  does not do what it means to, the deviation is proved instead.

  \<^bold>\<open>The parts of the program and how they work together\<close>

  A database is two files. The data file consists of pages of 4096 bytes; page 0 holds the list of free
  pages and the id of the root page. The \<^emph>\<open>disk manager\<close> reads and writes pages, the \<^emph>\<open>free list\<close> hands out page
  ids, the \<^emph>\<open>buffer pool\<close> keeps 64 pages in memory, pins them and evicts the least recently used one. The
  \<^emph>\<open>B+Tree\<close> is made of slotted pages, the nodes, which it reaches through the pool only. The second file is
  the \<^emph>\<open>write-ahead log\<close>. The \<^emph>\<open>recovery manager\<close> replays the log on the tree when a database is opened. The
  \<^emph>\<open>lock manager\<close> gives shared and exclusive locks on keys to transactions. A \<^emph>\<open>transaction\<close> locks a key, logs
  a write and changes the tree; a commit forces the log and then all pages to disk. The \<^emph>\<open>client handler\<close>
  reads requests from a socket and calls the methods of one transaction; the \<^emph>\<open>server\<close> starts a thread with
  a handler for each connection, all on one database.

  \<^bold>\<open>Theories, and the source they model\<close>

  The state of the program is one record that is extended from layer to layer: \<open>disk_manager\<close>, \<open>free_list\<close>,
  \<open>buffer_pool\<close>, \<open>btree\<close>, \<open>engine\<close> (with the log), \<open>db\<close> (with the locks). An operation is a function from
  a state to a result or an exception and a new state, so that what a throw leaves behind is visible.
  Constants and operations have the names of the source; methods carry the name of their class where a name
  is used twice (\<open>BTree_create\<close>, \<open>Txn_Get\<close>, \<open>DB_Open\<close>, \<open>Server_stop\<close>).

  \<^item> \<open>Prelude\<close>: bytes, raw memory, integers in memory, results and operations with their rules.
  \<^item> \<open>Page\<close> (\<open>storage/page.h\<close>), \<open>Disk_Manager\<close> (\<open>storage/disk_manager\<close>), \<open>Free_List\<close> (\<open>storage/free_list\<close>),
    \<open>Buffer_Pool\<close> (\<open>storage/buffer_pool\<close>): models and invariants. \<open>Storage_Props\<close>: their properties.
  \<^item> \<open>Node\<close> (\<open>btree/btree_defs.h\<close>, \<open>btree/node\<close>): nodes as raw pages. \<open>Sorted_Map\<close> is their specification, sorted
    association lists; \<open>Slotted_Page\<close> relates the two, \<open>Node_Ops\<close> shows it for every operation,
    \<open>Node_Props\<close> has the properties.
  \<^item> \<open>Btree\<close> (\<open>btree/btree\<close>, and merging and stealing of \<open>node.cpp\<close>): the tree. \<open>Page_Cache\<close> is what the tree may
    assume of the pool, with one rule per call; \<open>Search_Tree\<close> is its specification; \<open>Btree_Ops\<close>, \<open>Btree_Insert\<close>,
    \<open>Btree_Update\<close>, \<open>Btree_Borrow\<close> and \<open>Btree_Remove\<close> prove lookup, insertion with splits and removal with borrowing; \<open>Kv_Store\<close> is the contract of a key-value store, a
    locale, which \<open>Btree_Store\<close> interprets for the tree; \<open>Btree_Props\<close> has the properties.
  \<^item> \<open>Wal_Defs\<close> and \<open>Log_Manager\<close> (\<open>wal/wal_defs.h\<close>, \<open>wal/log_manager\<close>), \<open>Wal_Props\<close>.
  \<^item> \<open>Transition_System\<close>: reachability and invariants, a locale that the lock manager, the database and the server
    interpret. \<open>Lock_Manager\<close> (\<open>txn/lock_manager\<close>), \<open>Lock_Props\<close>.
  \<^item> \<open>Recovery_Manager\<close> (\<open>wal/recovery_manager\<close>); \<open>Log_History\<close> says which logs transactions under two-phase locking
    leave; \<open>Recovery_Props\<close>.
  \<^item> \<open>Db\<close> (\<open>db.h\<close>, \<open>db.cpp\<close>); \<open>Db_Ops\<close> and \<open>Db_Txn\<close> prove the effect of each method; \<open>Db_System\<close> is the database with
    its open transactions as a transition system, in which methods interleave; \<open>Db_Open\<close> opens, closes and
    creates; \<open>Small_Db\<close> is about databases that fit into one leaf and are used by one transaction at a time;
    \<open>Db_Props\<close>, \<open>Db_Create\<close> and \<open>Db_Faults\<close> have the properties.
  \<^item> \<open>Client_Handler\<close> (\<open>server/protocol.h\<close>, \<open>server/client_handler\<close>), \<open>Client_Requests\<close>, \<open>Client_Props\<close>.
  \<^item> \<open>Server\<close> (\<open>server/server\<close>, \<open>server/main.cpp\<close>), \<open>Server_Props\<close>.
  \<^item> \<open>Demo\<close> (\<open>main.cpp\<close>), a program that uses the library, and \<open>Demo_Props\<close>.

  \<^bold>\<open>What is proved\<close>

  \<^item> Storage: a fetched page is the current one, flushing makes all pages durable, a new page is unused and
    zeroed, the free list survives reopening; frames that leak.
  \<^item> Nodes: search, insertion, removal, compaction and splitting refine sorted association lists.
  \<^item> Tree: lookup, insertion with splits up to the root and removal with borrowing refine maps; the descent ends; a split
    makes room for cells of up to a quarter of a page.
  \<^item> Log: what was appended is read back, numbers stay fresh after reopening; what a torn tail does.
  \<^item> Locks: mutual exclusion in every interleaving, exact conditions for a grant, complete release.
  \<^item> Recovery: from the log of any reachable state the committed map is restored, also if interrupted; and the
    case in which a rolled back write stays.
  \<^item> Database: isolation, two-phase locking, rollback, durability of commits, closing and opening, also without \<open>Close\<close>; a new
    database is lost when the process is killed before the first flush, and a write that is too large blocks the
    database once its transaction commits.
  \<^item> Client and server: responses parse, a session has its effect, a disconnection rolls back, many clients
    are a run of the transaction system; requests without a transaction lose the place in the stream, a failed commit
    keeps its locks, stopping the server makes uncommitted writes permanent.
  \<^item> Demonstration program: a run of everything from the creation of the files to the second close prints exactly
    the announced text.

  \<^bold>\<open>Limits, fuel and bounds\<close>

  \<^item> The tree is right for keys and values of together at most 1002 bytes and files of fewer than \<open>2\<^sup>3\<^sup>0\<close>
    pages (\<open>tree_can_put\<close>); larger cells may be lost by a split. Log sequence numbers and transaction ids stay below
    \<open>2\<^sup>6\<^sup>3\<close>.
  \<^item> Removal is proved when the leaf is the root, stays half full or can borrow a cell, from its left neighbour or as
    first child from its right one, with room for the new separator in the parent (\<open>removable\<close>, \<open>tree_can_delete\<close>).
    In the other cases, which are modelled too, the code uses a wrong separator, or merges pages and loses a frame
    of the pool. Properties whose operations remove keys assume this of each removal when its turn comes (\<open>kv_can_all\<close>).
  \<^item> Recovery is proved for databases without empty values, which the log cannot tell from deletions.
  \<^item> The loops that follow pointers or read a stream have fuel: the descent the number of pages, which a path
    without repetition cannot exceed (proved not to run out), the request loop the length of the input plus one,
    since each round but the last consumes five bytes.
  \<^item> Failing and short system calls are lists of outcomes. Most theorems about whole operations are about
    healthy devices; the error paths are branches of the model, and some have theorems of their own.
  \<^item> A failed \<open>DB::Open\<close> or start of the server is an exception; what it leaves in the files is not followed.
  \<^item> Unordered containers are sets or maps, and an iteration over one has its order as an argument.
  \<^item> Every method of a transaction and every request is one atomic step. A wait for a lock is represented by its last
    round, in which the lock is granted or the deadline has passed.

  \<^bold>\<open>Not modelled\<close>

  The condition variable and the clock of the lock manager, the mutexes themselves, destructors that only close
  descriptors, the console output of the server, \<open>SIGPIPE\<close>, and what threads do with a database that the server has destroyed. The
  TypeScript client, the build files and the documents are not part of
  the database.
\<close>

end
